(* ===== verification/Py_Prelude.thy ===== *)
theory Py_Prelude
  imports Complex_Main "HOL-Library.Product_Lexorder" "HOL-Library.AList"
begin

text \<open>
  Shared vocabulary of the development: Python strings as lists of Unicode code points,
  slicing and substring search with Python's conventions, \<open>str(n)\<close> for naturals, dictionaries
  with insertion order, the Unicode character database behind \<open>str.isalnum\<close>,
  \<open>str.isdigit\<close>, \<open>str.lower\<close> and their kin, and the generic lemmas on these that the
  component theories share. Python's floating-point quantities (confidences, clocks, rates)
  are rationals: rounding is not modelled.
\<close>

named_theorems py_slice_simps \<open>rewriting Python slices to take and drop\<close>

type_synonym uchar = int
type_synonym str = "uchar list"
type_synonym time = rat
type_synonym span = "nat \<times> nat"

section \<open>Python strings\<close>

text \<open>An ASCII literal as a Python string.\<close>

definition asc :: "string \<Rightarrow> str" where
  "asc s = map of_char s"

text \<open>
  \<open>s[i:j]\<close> for indices that are not negative. Python's slice is empty when \<open>j <= i\<close> and stops
  at the end of the string, which \<open>take\<close> and \<open>drop\<close> do too.
\<close>

definition slice :: "'a list \<Rightarrow> nat \<Rightarrow> nat \<Rightarrow> 'a list" where
  "slice s i j = take (j - i) (drop i s)"

text \<open>\<open>s[i:j]\<close> for any integers: a negative index counts from the end and is cut off at 0.\<close>

definition py_index :: "'a list \<Rightarrow> int \<Rightarrow> nat" where
  "py_index s i = (if i < 0 then nat (int (length s) + i) else nat i)"

definition py_slice :: "'a list \<Rightarrow> int \<Rightarrow> int \<Rightarrow> 'a list" where
  "py_slice s i j = slice s (py_index s i) (py_index s j)"

text \<open>\<open>s[i:]\<close>\<close>

definition py_drop :: "'a list \<Rightarrow> int \<Rightarrow> 'a list" where
  "py_drop s i = drop (py_index s i) s"

text \<open>\<open>s.find(needle, i)\<close>; \<open>None\<close> stands for \<open>-1\<close>.\<close>

function str_find :: "str \<Rightarrow> str \<Rightarrow> nat \<Rightarrow> nat option" where
  "str_find s needle i =
     (if length s < i + length needle then None
      else if slice s i (i + length needle) = needle then Some i
      else str_find s needle (Suc i))"
  by pat_completeness auto
termination
  by (relation "measure (\<lambda>(s, needle, i). Suc (length s) - i)") auto

declare str_find.simps [simp del]

text \<open>\<open>needle in s\<close>\<close>

definition str_in :: "str \<Rightarrow> str \<Rightarrow> bool" where
  "str_in needle s \<longleftrightarrow> str_find s needle 0 \<noteq> None"

definition starts_with :: "str \<Rightarrow> str \<Rightarrow> bool" where
  "starts_with p s \<longleftrightarrow> take (length p) s = p"

text \<open>\<open>sep.join(xs)\<close>\<close>

fun str_join :: "str \<Rightarrow> str list \<Rightarrow> str" where
  "str_join sep [] = []"
| "str_join sep [x] = x"
| "str_join sep (x # y # zs) = x @ sep @ str_join sep (y # zs)"

text \<open>\<open>str(n)\<close> for a natural number.\<close>

fun nat_str :: "nat \<Rightarrow> str" where
  "nat_str n = (if n < 10 then [48 + int n] else nat_str (n div 10) @ [48 + int (n mod 10)])"

declare nat_str.simps [simp del]

section \<open>Optional strings\<close>

text \<open>Python truth of an optional string: \<open>None\<close> and the empty string are false.\<close>

definition truthy :: "str option \<Rightarrow> bool" where
  "truthy s \<longleftrightarrow> s \<noteq> None \<and> s \<noteq> Some []"

text \<open>\<open>a or b\<close> on an optional and a plain string.\<close>

definition or_else :: "str option \<Rightarrow> str \<Rightarrow> str" where
  "or_else a b = (case a of Some (c # cs) \<Rightarrow> c # cs | _ \<Rightarrow> b)"

section \<open>The Unicode character database\<close>

text \<open>
  What the sources ask of Python's \<open>str\<close> type about single characters. The tables behind these
  methods are data of the interpreter, so they are an argument of every definition that uses
  them; the locale \<open>unicode_db\<close> states the documented relations between them.
\<close>

record ucd =
  u_isalpha :: "uchar \<Rightarrow> bool"
  u_isalnum :: "uchar \<Rightarrow> bool"
  u_isdigit :: "uchar \<Rightarrow> bool"
  u_isdecimal :: "uchar \<Rightarrow> bool"
  u_isspace :: "uchar \<Rightarrow> bool"
  u_isupper :: "uchar \<Rightarrow> bool"
  u_digit :: "uchar \<Rightarrow> nat option"
  u_lower :: "str \<Rightarrow> str"
  u_upper :: "str \<Rightarrow> str"
  u_capitalize :: "str \<Rightarrow> str"
  u_iscased :: "uchar \<Rightarrow> bool"
  u_tolower :: "uchar \<Rightarrow> uchar"

definition ascii_digit :: "uchar \<Rightarrow> bool" where
  "ascii_digit c \<longleftrightarrow> 48 \<le> c \<and> c \<le> 57"

definition ascii_upper :: "uchar \<Rightarrow> bool" where
  "ascii_upper c \<longleftrightarrow> 65 \<le> c \<and> c \<le> 90"

definition ascii_lower :: "uchar \<Rightarrow> bool" where
  "ascii_lower c \<longleftrightarrow> 97 \<le> c \<and> c \<le> 122"

text \<open>The tables restricted to ASCII and the Russian alphabet, the texts the service is for.\<close>

definition ru_upper :: "uchar \<Rightarrow> bool" where
  "ru_upper c \<longleftrightarrow> (1040 \<le> c \<and> c \<le> 1071) \<or> c = 1025"

definition ru_lower :: "uchar \<Rightarrow> bool" where
  "ru_lower c \<longleftrightarrow> (1072 \<le> c \<and> c \<le> 1103) \<or> c = 1105"

definition ru_to_lower :: "uchar \<Rightarrow> uchar" where
  "ru_to_lower c = (if ascii_upper c \<or> (1040 \<le> c \<and> c \<le> 1071) then c + 32
                    else if c = 1025 then 1105 else c)"

definition ru_to_upper :: "uchar \<Rightarrow> uchar" where
  "ru_to_upper c = (if ascii_lower c \<or> (1072 \<le> c \<and> c \<le> 1103) then c - 32
                    else if c = 1105 then 1025 else c)"

definition ucd_ru :: ucd where
  "ucd_ru = \<lparr>
     u_isalpha = (\<lambda>c. ascii_upper c \<or> ascii_lower c \<or> ru_upper c \<or> ru_lower c),
     u_isalnum = (\<lambda>c. ascii_digit c \<or> ascii_upper c \<or> ascii_lower c \<or> ru_upper c \<or> ru_lower c),
     u_isdigit = ascii_digit,
     u_isdecimal = ascii_digit,
     u_isspace = (\<lambda>c. c = 32 \<or> (9 \<le> c \<and> c \<le> 13) \<or> (28 \<le> c \<and> c \<le> 31)),
     u_isupper = (\<lambda>c. ascii_upper c \<or> ru_upper c),
     u_digit = (\<lambda>c. if ascii_digit c then Some (nat (c - 48)) else None),
     u_lower = map ru_to_lower,
     u_upper = map ru_to_upper,
     u_capitalize = (\<lambda>s. case s of [] \<Rightarrow> [] | c # cs \<Rightarrow> ru_to_upper c # map ru_to_lower cs),
     u_iscased = (\<lambda>c. ascii_upper c \<or> ascii_lower c \<or> ru_upper c \<or> ru_lower c),
     u_tolower = ru_to_lower\<rparr>"

locale unicode_db =
  fixes U :: ucd
  assumes decimal_digit: "u_isdecimal U c \<Longrightarrow> u_isdigit U c"
    and digit_alnum: "u_isdigit U c \<Longrightarrow> u_isalnum U c"
    and alpha_alnum: "u_isalpha U c \<Longrightarrow> u_isalnum U c"
    and ascii_alnum: "0 \<le> c \<Longrightarrow> c < 128 \<Longrightarrow>
      u_isalnum U c = (ascii_digit c \<or> ascii_upper c \<or> ascii_lower c)"
    and ascii_decimal: "ascii_digit c \<Longrightarrow> u_isdecimal U c \<and> u_digit U c = Some (nat (c - 48))"
    and decimal_value: "u_isdecimal U c \<Longrightarrow> \<exists>d < 10. u_digit U c = Some d"
begin

lemma ascii_digit_isdigit: "ascii_digit c \<Longrightarrow> u_isdigit U c"
  using ascii_decimal decimal_digit by blast

lemma star_not_alnum: "\<not> u_isalnum U 42"
  using ascii_alnum [of 42] by (simp add: ascii_digit_def ascii_upper_def ascii_lower_def)

lemma star_not_digit: "\<not> u_isdigit U 42"
  using star_not_alnum digit_alnum by blast

end

lemmas ascii_class_defs = ascii_digit_def ascii_upper_def ascii_lower_def ru_upper_def ru_lower_def

interpretation ucd_ru: unicode_db ucd_ru
proof
  fix c :: uchar
  show "u_isdecimal ucd_ru c \<Longrightarrow> \<exists>d < 10. u_digit ucd_ru c = Some d"
    by (simp add: ucd_ru_def ascii_digit_def nat_less_iff)
qed (auto simp: ucd_ru_def ascii_class_defs)

section \<open>Lemmas on lists\<close>

lemma find_SomeD: "find P xs = Some x \<Longrightarrow> x \<in> set xs \<and> P x"
  by (auto simp: find_Some_iff)

section \<open>Words of a string\<close>

text \<open>
  \<open>s.split()\<close>, the runs of characters that are not white space; also
  \<open>[p for p in re.split(r"\s+", s.strip()) if p]\<close>.
\<close>

function split_ws :: "ucd \<Rightarrow> str \<Rightarrow> str list" where
  "split_ws U s =
     (let t = dropWhile (u_isspace U) s in
      if t = [] then []
      else takeWhile (\<lambda>c. \<not> u_isspace U c) t # split_ws U (dropWhile (\<lambda>c. \<not> u_isspace U c) t))"
  by pat_completeness auto
termination
proof (relation "measure (\<lambda>(U, s). length s)")
  fix U s and t assume t: "t = dropWhile (u_isspace U) s" "t \<noteq> []"
  then have "\<not> u_isspace U (hd t)" by (metis hd_dropWhile)
  with t(2) have "length (dropWhile (\<lambda>c. \<not> u_isspace U c) t) < length t"
    by (cases t) (auto simp: length_dropWhile_le le_imp_less_Suc)
  moreover have "length t \<le> length s" by (simp add: t length_dropWhile_le)
  ultimately show "((U, dropWhile (\<lambda>c. \<not> u_isspace U c) t), U, s) \<in> measure (\<lambda>(U, s). length s)"
    by simp
qed simp

declare split_ws.simps [simp del]

section \<open>Lemmas on slices\<close>

lemma length_slice [simp]: "length (slice s i j) = min (j - i) (length s - i)"
  by (simp add: slice_def)

lemma slice_empty [simp]: "j \<le> i \<Longrightarrow> slice s i j = []"
  by (simp add: slice_def)

lemma slice_0 [simp]: "slice s 0 j = take j s"
  by (simp add: slice_def)

lemma slice_append_slice: "i \<le> j \<Longrightarrow> j \<le> k \<Longrightarrow> slice s i j @ slice s j k = slice s i k"
proof -
  assume "i \<le> j" "j \<le> k"
  then have "k - i = (j - i) + (k - j)" "j = (j - i) + i" by simp_all
  then show ?thesis
    unfolding slice_def by (metis drop_drop take_add)
qed

lemma slice_append_drop: "i \<le> j \<Longrightarrow> slice s i j @ drop j s = drop i s"
  by (simp add: slice_def) (metis append_take_drop_id drop_drop le_add_diff_inverse2)

lemma nth_slice: "k < j - i \<Longrightarrow> i + k < length s \<Longrightarrow> slice s i j ! k = s ! (i + k)"
  by (simp add: slice_def)

lemma set_slice_subset: "set (slice s i j) \<subseteq> set s"
  by (auto simp: slice_def dest!: in_set_takeD in_set_dropD)

lemma py_index_nonneg [py_slice_simps]: "0 \<le> i \<Longrightarrow> py_index s i = nat i"
  by (simp add: py_index_def)

lemma py_slice_nat [py_slice_simps]: "0 \<le> i \<Longrightarrow> 0 \<le> j \<Longrightarrow> py_slice s i j = slice s (nat i) (nat j)"
  by (simp add: py_slice_def py_slice_simps)

lemma py_drop_nat [py_slice_simps]: "0 \<le> i \<Longrightarrow> py_drop s i = drop (nat i) s"
  by (simp add: py_drop_def py_slice_simps)

section \<open>Lemmas on substring search\<close>

lemma str_find_SomeD:
  assumes "str_find s needle i = Some k"
  shows "i \<le> k \<and> k + length needle \<le> length s \<and> slice s k (k + length needle) = needle"
  using assms
proof (induction s needle i rule: str_find.induct)
  case (1 s needle i)
  then show ?case
    by (simp add: str_find.simps [of s needle i] split: if_splits)
qed

lemma str_find_least:
  assumes "i \<le> k" "k + length needle \<le> length s" "slice s k (k + length needle) = needle"
  shows "\<exists>m \<le> k. str_find s needle i = Some m"
  using assms
proof (induction s needle i rule: str_find.induct)
  case (1 s needle i)
  show ?case
  proof (cases "slice s i (i + length needle) = needle")
    case True
    with "1.prems" show ?thesis by (simp add: str_find.simps [of s needle i])
  next
    case False
    with "1.prems" have "Suc i \<le> k" by (metis le_eq_less_or_eq Suc_leI)
    with "1.prems" False "1.IH" show ?thesis by (simp add: str_find.simps [of s needle i])
  qed
qed

lemma str_find_first:
  assumes "str_find s needle i = Some k" "i \<le> m" "m < k"
  shows "slice s m (m + length needle) \<noteq> needle"
proof
  assume eq: "slice s m (m + length needle) = needle"
  from assms have "m + length needle \<le> length s"
    using str_find_SomeD [OF assms(1)] by simp
  with eq assms(2) obtain m' where "m' \<le> m" "str_find s needle i = Some m'"
    using str_find_least by blast
  with assms show False by simp
qed

lemma slice_append_middle [simp]: "slice (a @ b @ c) (length a) (length a + length b) = b"
  by (simp add: slice_def)

lemma str_in_iff: "str_in needle s \<longleftrightarrow> (\<exists>a b. s = a @ needle @ b)"
proof
  assume "str_in needle s"
  then obtain k where "str_find s needle 0 = Some k"
    by (auto simp: str_in_def)
  from str_find_SomeD [OF this] have k: "k + length needle \<le> length s"
    "slice s k (k + length needle) = needle" by auto
  have "take k s @ needle @ drop (k + length needle) s = s"
    using slice_append_drop [of k "k + length needle" s] k(2) by simp
  then show "\<exists>a b. s = a @ needle @ b" by metis
next
  assume "\<exists>a b. s = a @ needle @ b"
  then obtain a b where s: "s = a @ needle @ b" by blast
  have "\<exists>m \<le> length a. str_find s needle 0 = Some m"
    by (rule str_find_least) (simp_all add: s)
  then show "str_in needle s" by (auto simp: str_in_def)
qed

lemma starts_with_iff: "starts_with p s \<longleftrightarrow> (\<exists>r. s = p @ r)"
  by (auto simp: starts_with_def) (metis append_take_drop_id)

section \<open>Decimal rendering\<close>

lemma nat_str_not_Nil [simp]: "nat_str n \<noteq> []"
  by (subst nat_str.simps) simp

lemma nat_str_digits: "c \<in> set (nat_str n) \<Longrightarrow> ascii_digit c"
proof (induction n rule: nat_str.induct)
  case (1 n)
  then show ?case
    by (subst (asm) nat_str.simps) (auto simp: ascii_digit_def split: if_splits)
qed

definition str_nat :: "str \<Rightarrow> nat" where
  "str_nat s = foldl (\<lambda>n c. 10 * n + nat (c - 48)) 0 s"

lemma str_nat_nat_str: "str_nat (nat_str n) = n"
proof (induction n rule: nat_str.induct)
  case (1 n)
  then show ?case by (subst nat_str.simps) (simp add: str_nat_def)
qed

lemma nat_str_inject [simp]: "nat_str m = nat_str n \<longleftrightarrow> m = n"
  by (metis str_nat_nat_str)

end
