(* ===== verification/Models.thy ===== *)
theory Models
  imports Py_Prelude
begin

text \<open>
  The data model of \<^verbatim>\<open>app/core\<close>: the enumerations of \<^verbatim>\<open>enums.py\<close>, the exceptions
  of \<^verbatim>\<open>errors.py\<close> and the dataclasses of \<^verbatim>\<open>models.py\<close>, together with the
  name components of \<^verbatim>\<open>entity_resolution/naming.py\<close> that candidates carry in their
  metadata. A metadata dictionary is a record of the keys the sources ever store in it, each
  optional. Field names carry a short prefix, because record fields share one name space.
\<close>

section \<open>Enumerations\<close>

datatype pii_type =
    FULL_NAME | BIRTH_DATE | BIRTH_PLACE | PASSPORT | CITIZENSHIP | PASSPORT_ISSUER
  | DEPARTMENT_CODE | PASSPORT_ISSUE_DATE | DRIVER_LICENSE | ADDRESS | EMAIL | PHONE
  | INN | CARD_NUMBER | CVV | PIN | CARDHOLDER

datatype decision = MASK | KEEP | UNCERTAIN

datatype masking_mode = PARTIAL | TOKEN | SYNTHETIC

datatype process_direction = DirMASK | DirDEMASK | DirRETRY_MASK | DirRETRY_DEMASK

datatype mapping_state = ACTIVE | DEMASKED_GRACE

datatype load_state = NORMAL | CACHE_DEGRADED | STORAGE_DEGRADED | OVERLOADED | CRITICAL

text \<open>The string values of the enumeration members (\<open>PIIType.X.value\<close>).\<close>

fun pii_value :: "pii_type \<Rightarrow> str" where
  "pii_value FULL_NAME = asc ''FULL_NAME''"
| "pii_value BIRTH_DATE = asc ''BIRTH_DATE''"
| "pii_value BIRTH_PLACE = asc ''BIRTH_PLACE''"
| "pii_value PASSPORT = asc ''PASSPORT''"
| "pii_value CITIZENSHIP = asc ''CITIZENSHIP''"
| "pii_value PASSPORT_ISSUER = asc ''PASSPORT_ISSUER''"
| "pii_value DEPARTMENT_CODE = asc ''DEPARTMENT_CODE''"
| "pii_value PASSPORT_ISSUE_DATE = asc ''PASSPORT_ISSUE_DATE''"
| "pii_value DRIVER_LICENSE = asc ''DRIVER_LICENSE''"
| "pii_value ADDRESS = asc ''ADDRESS''"
| "pii_value EMAIL = asc ''EMAIL''"
| "pii_value PHONE = asc ''PHONE''"
| "pii_value INN = asc ''INN''"
| "pii_value CARD_NUMBER = asc ''CARD_NUMBER''"
| "pii_value CVV = asc ''CVV''"
| "pii_value PIN = asc ''PIN''"
| "pii_value CARDHOLDER = asc ''CARDHOLDER''"

definition pii_types :: "pii_type list" where
  "pii_types = [FULL_NAME, BIRTH_DATE, BIRTH_PLACE, PASSPORT, CITIZENSHIP, PASSPORT_ISSUER,
     DEPARTMENT_CODE, PASSPORT_ISSUE_DATE, DRIVER_LICENSE, ADDRESS, EMAIL, PHONE, INN,
     CARD_NUMBER, CVV, PIN, CARDHOLDER]"

text \<open>\<open>PIIType(value)\<close>: the member with that value; \<open>None\<close> stands for the \<open>ValueError\<close>.\<close>

definition pii_of_value :: "str \<Rightarrow> pii_type option" where
  "pii_of_value v = find (\<lambda>t. pii_value t = v) pii_types"

section \<open>Exceptions\<close>

text \<open>
  The exceptions of \<^verbatim>\<open>errors.py\<close>, the built-in ones the sources meet, and one failure of a
  backend that stands for whatever a client library raises. The last constructor is not an
  exception: \<open>Diverges\<close> is the result of a call that does not return (a rejection-sampling loop may
  not), and it is only ever passed on.
\<close>

datatype exn =
    ConsumerNotFoundError str
  | ConsumerDisabledError str
  | PayloadConflictError
  | StorageUnavailableError
  | ValueError
  | KeyError
  | IndexError
  | BackendError
  | Diverges

type_synonym 'a result = "exn + 'a"

lemma map_sum_eq_Inr: "map_sum id f z = Inr y \<longleftrightarrow> (\<exists>x. z = Inr x \<and> y = f x)"
  by (cases z) auto

section \<open>Name components\<close>

datatype comp_kind = WordComp | InitialComp

datatype role = Surname | First | Patronymic

record name_component =
  nc_kind :: comp_kind
  nc_surface :: str
  nc_offset_start :: nat
  nc_offset_end :: nat
  nc_role :: "role option"
  nc_normalized :: "str option"
  nc_letter :: "str option"

section \<open>Dataclasses\<close>

record metadata =
  md_normalized :: "str option"
  md_gram_case :: "str option"
  md_gender :: "str option"
  md_nominal_form :: "str option"
  md_identity_key :: "str option"
  md_known_public_figure :: bool
  md_name_parts :: "name_component list option"
  md_alias_type :: "str option"
  md_rule_scores :: "(nat \<times> nat) option"

definition no_metadata :: metadata where
  "no_metadata = \<lparr>md_normalized = None, md_gram_case = None, md_gender = None,
     md_nominal_form = None, md_identity_key = None, md_known_public_figure = False,
     md_name_parts = None, md_alias_type = None, md_rule_scores = None\<rparr>"

record candidate =
  c_type :: pii_type
  c_value :: str
  c_start :: nat
  c_end :: nat
  c_detector :: str
  c_confidence :: rat
  c_metadata :: metadata

record privacy_decision =
  d_candidate :: candidate
  d_decision :: decision
  d_confidence :: rat
  d_reasons :: "str list"

definition is_personal :: "privacy_decision \<Rightarrow> bool" where
  "is_personal d \<longleftrightarrow> d_decision d = MASK"

record name_identity =
  ni_surname :: "str option"
  ni_first :: "str option"
  ni_patronymic :: "str option"
  ni_gender :: "str option"
  ni_nominal :: "str option"

record mapping_metadata =
  mm_synthetic_fallback :: bool
  mm_synthetic_identity :: "name_identity option"
  mm_original_identity :: "name_identity option"
  mm_alias_types :: "str list option"

text \<open>
  \<open>EntityMapping\<close>. The type of the field \<open>type\<close> is a parameter, because the stored form of a
  mapping has the enumeration's string value there.
\<close>

record 'ty mapping_of =
  em_entity_id :: str
  em_type :: 'ty
  em_original :: str
  em_token :: str
  em_synthetic :: str
  em_partial :: str
  em_original_nominal :: "str option"
  em_synthetic_nominal :: "str option"
  em_grammatical_case :: "str option"
  em_gender :: "str option"
  em_aliases :: "str list"
  em_metadata :: mapping_metadata

type_synonym entity_mapping = "pii_type mapping_of"
type_synonym mapping_dict = "str mapping_of"

record detected_entity =
  de_entity_id :: str
  de_decision :: privacy_decision
  de_start :: nat
  de_end :: nat

record occurrence =
  o_entity_id :: str
  o_original_start :: int
  o_original_end :: int
  o_masked_start :: int
  o_masked_end :: int
  o_original :: str
  o_masked :: str

record transform_result =
  tr_text :: str
  tr_mode :: masking_mode
  tr_mappings :: "entity_mapping list"
  tr_detected_entities :: "detected_entity list"
  tr_kept_entities :: "detected_entity list"
  tr_occurrences :: "occurrence list"

section \<open>Enumeration values determine the member\<close>

lemma pii_types_complete: "t \<in> set pii_types"
  by (cases t) (simp_all add: pii_types_def)

lemma pii_of_value_value [simp]: "pii_of_value (pii_value t) = Some t"
  by (cases t) (simp_all add: pii_of_value_def pii_types_def asc_def)

lemma pii_of_value_SomeD: "pii_of_value v = Some t \<Longrightarrow> pii_value t = v"
  by (auto simp: pii_of_value_def find_Some_iff)

lemma pii_value_inject [simp]: "pii_value s = pii_value t \<longleftrightarrow> s = t"
  by (metis pii_of_value_value option.inject)

section \<open>Serialization\<close>

text \<open>
  \<^verbatim>\<open>storage/serialization.py\<close>: a mapping with its type as a string, and back. Constructing the
  mapping again raises \<open>ValueError\<close> for an unknown type.
\<close>

definition mapping_with_type :: "'u \<Rightarrow> 't mapping_of \<Rightarrow> 'u mapping_of" where
  "mapping_with_type ty m = \<lparr>em_entity_id = em_entity_id m, em_type = ty,
     em_original = em_original m, em_token = em_token m, em_synthetic = em_synthetic m,
     em_partial = em_partial m, em_original_nominal = em_original_nominal m,
     em_synthetic_nominal = em_synthetic_nominal m, em_grammatical_case = em_grammatical_case m,
     em_gender = em_gender m, em_aliases = em_aliases m, em_metadata = em_metadata m\<rparr>"

definition mapping_to_dict :: "entity_mapping \<Rightarrow> mapping_dict" where
  "mapping_to_dict m = mapping_with_type (pii_value (em_type m)) m"

definition mapping_from_dict :: "mapping_dict \<Rightarrow> entity_mapping result" where
  "mapping_from_dict d =
     (case pii_of_value (em_type d) of
        None \<Rightarrow> Inl ValueError
      | Some t \<Rightarrow> Inr (mapping_with_type t d))"

lemma mapping_from_to_dict [simp]: "mapping_from_dict (mapping_to_dict m) = Inr m"
  by (cases m) (simp add: mapping_from_dict_def mapping_to_dict_def mapping_with_type_def)

lemma mapping_to_from_dict: "mapping_from_dict d = Inr m \<Longrightarrow> mapping_to_dict m = d"
  by (cases d) (auto simp: mapping_from_dict_def mapping_to_dict_def mapping_with_type_def
      dest: pii_of_value_SomeD split: option.splits)

section \<open>Well-formed candidates\<close>

text \<open>
  A candidate found in a text is a non-empty span inside the text whose value is the text of the
  span: what every detector promises to the later stages.
\<close>

definition wf_candidate :: "str \<Rightarrow> candidate \<Rightarrow> bool" where
  "wf_candidate text c \<longleftrightarrow>
     c_start c < c_end c \<and> c_end c \<le> length text \<and> c_value c = slice text (c_start c) (c_end c)"

definition c_span :: "candidate \<Rightarrow> span" where
  "c_span c = (c_start c, c_end c)"

end
