(* ===== verification/Splice.thy ===== *)
theory Splice
  imports Models
begin

text \<open>
  Replacing spans of a text and undoing it. \<open>splice_spans\<close> is \<open>_splice_spans\<close> of
  \<^verbatim>\<open>replacement/engine.py\<close>: it substitutes replacements and records every substitution
  with its coordinates in both texts. \<open>splice\<close> is \<open>_splice\<close> of
  \<^verbatim>\<open>core/process_service.py\<close>, which the service runs on the recorded occurrences to repeat
  the masking on the original payload or to undo it on the masked one. The lemmas show that both
  directions are exact whenever the spans do not overlap.
\<close>

type_synonym repl_span = "nat \<times> nat \<times> str \<times> str"

abbreviation rs_start :: "repl_span \<Rightarrow> nat" where "rs_start s \<equiv> fst s"
abbreviation rs_end :: "repl_span \<Rightarrow> nat" where "rs_end s \<equiv> fst (snd s)"

text \<open>
  The loop of \<open>_splice_spans\<close>: \<open>cursor\<close> is the end of the last span, \<open>offset\<close> the masked
  position minus the original position. It returns the pieces and the occurrences in order.
\<close>

fun splice_spans_loop ::
  "str \<Rightarrow> nat \<Rightarrow> int \<Rightarrow> repl_span list \<Rightarrow> str list \<times> occurrence list" where
  "splice_spans_loop text cursor offset [] = ([drop cursor text], [])"
| "splice_spans_loop text cursor offset ((start, end, replacement, entity_id) # spans) =
     (let occ = \<lparr>o_entity_id = entity_id,
                 o_original_start = int start,
                 o_original_end = int end,
                 o_masked_start = int start + offset,
                 o_masked_end = int start + offset + int (length replacement),
                 o_original = slice text start end,
                 o_masked = replacement\<rparr>;
          (pieces, occs) =
            splice_spans_loop text end
              (offset + (int (length replacement) - (int end - int start))) spans
      in (slice text cursor start # replacement # pieces, occ # occs))"

definition splice_spans :: "str \<Rightarrow> repl_span list \<Rightarrow> str \<times> occurrence list" where
  "splice_spans text spans =
     (case splice_spans_loop text 0 0 spans of (pieces, occs) \<Rightarrow> (concat pieces, occs))"

text \<open>\<open>_splice\<close>, with the three dictionary keys as the functions that read them.\<close>

fun splice_loop ::
  "str \<Rightarrow> (occurrence \<Rightarrow> int) \<Rightarrow> (occurrence \<Rightarrow> int) \<Rightarrow> (occurrence \<Rightarrow> str) \<Rightarrow> int
   \<Rightarrow> occurrence list \<Rightarrow> str list" where
  "splice_loop payload start_key end_key insert_key cursor [] = [py_drop payload cursor]"
| "splice_loop payload start_key end_key insert_key cursor (occ # occs) =
     py_slice payload cursor (start_key occ) # insert_key occ #
     splice_loop payload start_key end_key insert_key (end_key occ) occs"

definition splice ::
  "str \<Rightarrow> occurrence list \<Rightarrow> (occurrence \<Rightarrow> int) \<Rightarrow> (occurrence \<Rightarrow> int)
   \<Rightarrow> (occurrence \<Rightarrow> str) \<Rightarrow> str" where
  "splice payload occurrences start_key end_key insert_key =
     concat (splice_loop payload start_key end_key insert_key 0 (sort_key start_key occurrences))"

text \<open>\<open>apply_mask_from_record\<close> and \<open>apply_demask_from_record\<close> read only the occurrences.\<close>

definition apply_mask :: "str \<Rightarrow> occurrence list \<Rightarrow> str" where
  "apply_mask payload occs = splice payload occs o_original_start o_original_end o_masked"

definition apply_demask :: "str \<Rightarrow> occurrence list \<Rightarrow> str" where
  "apply_demask payload occs = splice payload occs o_masked_start o_masked_end o_original"

section \<open>Spans that can be spliced\<close>

text \<open>Ordered spans inside a text of length \<open>n\<close>, none starting before the end of the one before.\<close>

fun spans_ok :: "nat \<Rightarrow> nat \<Rightarrow> repl_span list \<Rightarrow> bool" where
  "spans_ok n cursor [] \<longleftrightarrow> cursor \<le> n"
| "spans_ok n cursor ((start, end, replacement, entity_id) # spans) \<longleftrightarrow>
     cursor \<le> start \<and> start \<le> end \<and> spans_ok n end spans"

lemma spans_ok_cursor: "spans_ok n cursor spans \<Longrightarrow> cursor \<le> n"
proof (induction spans arbitrary: cursor)
  case (Cons s spans)
  then show ?case by (cases s) (auto dest: Cons.IH)
qed simp

text \<open>Occurrences in masking order: each key's positions are monotone from \<open>cursor\<close> on.\<close>

fun occs_ok :: "(occurrence \<Rightarrow> int) \<Rightarrow> (occurrence \<Rightarrow> int) \<Rightarrow> int \<Rightarrow> occurrence list \<Rightarrow> bool" where
  "occs_ok s e cursor [] \<longleftrightarrow> True"
| "occs_ok s e cursor (occ # occs) \<longleftrightarrow> cursor \<le> s occ \<and> s occ \<le> e occ \<and> occs_ok s e (e occ) occs"

lemma occs_ok_lower: "occs_ok s e cursor occs \<Longrightarrow> occ \<in> set occs \<Longrightarrow> cursor \<le> s occ"
proof (induction occs arbitrary: cursor)
  case (Cons x occs)
  then show ?case using Cons.IH [of "e x"] by fastforce
qed simp

lemma occs_ok_sorted: "occs_ok s e cursor occs \<Longrightarrow> sorted (map s occs)"
proof (induction occs arbitrary: cursor)
  case (Cons x occs)
  then show ?case using occs_ok_lower [of s e "e x" occs] by fastforce
qed simp

lemma splice_occs_ok:
  "occs_ok s e 0 occs \<Longrightarrow> splice payload occs s e ins = concat (splice_loop payload s e ins 0 occs)"
  by (simp add: splice_def occs_ok_sorted sorted_sort_id sort_key_id_if_sorted)

text \<open>The loop run for the masked positions of one span list.\<close>

abbreviation loop_occs :: "str \<Rightarrow> nat \<Rightarrow> int \<Rightarrow> repl_span list \<Rightarrow> occurrence list" where
  "loop_occs text cursor offset spans \<equiv> snd (splice_spans_loop text cursor offset spans)"

abbreviation loop_text :: "str \<Rightarrow> nat \<Rightarrow> int \<Rightarrow> repl_span list \<Rightarrow> str" where
  "loop_text text cursor offset spans \<equiv> concat (fst (splice_spans_loop text cursor offset spans))"

lemma loop_Cons [simp]:
  "loop_text text cursor offset ((start, end, repl, eid) # spans) =
     slice text cursor start @ repl @
     loop_text text end (offset + (int (length repl) - (int end - int start))) spans"
  "loop_occs text cursor offset ((start, end, repl, eid) # spans) =
     \<lparr>o_entity_id = eid, o_original_start = int start, o_original_end = int end,
      o_masked_start = int start + offset, o_masked_end = int start + offset + int (length repl),
      o_original = slice text start end, o_masked = repl\<rparr> #
     loop_occs text end (offset + (int (length repl) - (int end - int start))) spans"
  by (simp_all add: Let_def split: prod.splits)

declare splice_spans_loop.simps(2) [simp del]

lemma original_occs_ok:
  "spans_ok n cursor spans \<Longrightarrow>
   occs_ok o_original_start o_original_end (int cursor) (loop_occs text cursor offset spans)"
proof (induction spans arbitrary: cursor offset)
  case (Cons sp spans)
  then show ?case by (cases sp) simp
qed simp

lemma masked_occs_ok:
  "spans_ok n cursor spans \<Longrightarrow>
   occs_ok o_masked_start o_masked_end (int cursor + offset) (loop_occs text cursor offset spans)"
proof (induction spans arbitrary: cursor offset)
  case (Cons sp spans)
  obtain start "end" repl eid where sp: "sp = (start, end, repl, eid)" by (cases sp) auto
  let ?offset = "offset + (int (length repl) - (int end - int start))"
  have "int start + offset + int (length repl) = int end + ?offset" by simp
  then show ?case using Cons.IH [of "end" ?offset] Cons.prems by (simp add: sp ac_simps)
qed simp

section \<open>Masking again and demasking\<close>

lemma splice_original_loop:
  "spans_ok (length text) cursor spans \<Longrightarrow>
   concat (splice_loop text o_original_start o_original_end o_masked (int cursor)
             (loop_occs text cursor offset spans)) =
   loop_text text cursor offset spans"
proof (induction spans arbitrary: cursor offset)
  case (Cons sp spans)
  then show ?case by (cases sp) (simp add: py_slice_simps)
qed (simp add: py_slice_simps)

text \<open>
  The masked text is cut at the masked coordinates. \<open>pre\<close> is what the earlier iterations wrote,
  so the loop's text starts at position \<open>length pre\<close> of the whole result.
\<close>

lemma splice_masked_loop:
  assumes "spans_ok (length text) cursor spans" "int (length pre) = int cursor + offset"
  shows "concat (splice_loop (pre @ loop_text text cursor offset spans)
             o_masked_start o_masked_end o_original (int (length pre))
             (loop_occs text cursor offset spans)) = drop cursor text"
  using assms
proof (induction spans arbitrary: cursor offset pre)
  case Nil
  then show ?case by (simp add: py_slice_simps)
next
  case (Cons sp spans)
  obtain start "end" repl eid where sp: "sp = (start, end, repl, eid)" by (cases sp) auto
  define offset' where "offset' = offset + (int (length repl) - (int end - int start))"
  define mid where "mid = slice text cursor start"
  define rest where "rest = loop_text text end offset' spans"
  from Cons.prems(1) have ok: "cursor \<le> start" "start \<le> end" "spans_ok (length text) end spans"
    by (simp_all add: sp)
  then have len: "length mid = start - cursor"
    using spans_ok_cursor [OF ok(3)] by (simp add: mid_def)
  have start': "int start + offset = int (length (pre @ mid))"
    and end': "int start + offset + int (length repl) = int (length (pre @ mid @ repl))"
    using len ok(1) Cons.prems(2) by simp_all
  have cut: "slice (pre @ mid @ repl @ rest) (length pre) (length pre + length mid) = mid"
    by (simp add: slice_def)
  have IH: "concat (splice_loop ((pre @ mid @ repl) @ rest) o_masked_start o_masked_end o_original
             (int (length (pre @ mid @ repl))) (loop_occs text end offset' spans)) = drop end text"
    unfolding rest_def by (rule Cons.IH [OF ok(3)])
      (use len ok Cons.prems(2) in \<open>simp add: offset'_def\<close>)
  have "mid @ slice text start end @ drop end text = drop cursor text"
    using ok by (simp add: mid_def slice_append_drop)
  then show ?case
    using IH cut end'
    by (simp add: sp start' py_slice_simps nat_add_distrib ac_simps flip: offset'_def mid_def rest_def)
qed

lemma splice_spans_text: "fst (splice_spans text spans) = loop_text text 0 0 spans"
  and splice_spans_occs: "snd (splice_spans text spans) = loop_occs text 0 0 spans"
  by (simp_all add: splice_spans_def split: prod.splits)

lemma apply_mask_splice_spans:
  assumes "spans_ok (length text) 0 spans"
  shows "apply_mask text (snd (splice_spans text spans)) = fst (splice_spans text spans)"
  using original_occs_ok [OF assms] splice_original_loop [OF assms]
  by (simp add: apply_mask_def splice_spans_text splice_spans_occs splice_occs_ok)

lemma apply_demask_splice_spans:
  assumes "spans_ok (length text) 0 spans"
  shows "apply_demask (fst (splice_spans text spans)) (snd (splice_spans text spans)) = text"
  using masked_occs_ok [OF assms, of 0] splice_masked_loop [OF assms, of "[]"]
  by (simp add: apply_demask_def splice_spans_text splice_spans_occs splice_occs_ok)

section \<open>What the occurrences record\<close>

text \<open>Each occurrence names the text it replaced and the place of its replacement.\<close>

definition occurrence_at :: "str \<Rightarrow> str \<Rightarrow> occurrence \<Rightarrow> bool" where
  "occurrence_at text masked occ \<longleftrightarrow>
     0 \<le> o_original_start occ \<and> 0 \<le> o_masked_start occ \<and>
     py_slice text (o_original_start occ) (o_original_end occ) = o_original occ \<and>
     py_slice masked (o_masked_start occ) (o_masked_end occ) = o_masked occ"

lemma loop_occurrence_at:
  assumes "spans_ok (length text) cursor spans" "int (length pre) = int cursor + offset"
    and "occ \<in> set (loop_occs text cursor offset spans)"
  shows "occurrence_at text (pre @ loop_text text cursor offset spans) occ"
  using assms
proof (induction spans arbitrary: cursor offset pre)
  case (Cons sp spans)
  obtain start "end" repl eid where sp: "sp = (start, end, repl, eid)" by (cases sp) auto
  define offset' where "offset' = offset + (int (length repl) - (int end - int start))"
  define mid where "mid = slice text cursor start"
  define rest where "rest = loop_text text end offset' spans"
  from Cons.prems(1) have ok: "cursor \<le> start" "start \<le> end" "spans_ok (length text) end spans"
    by (simp_all add: sp)
  then have len: "length mid = start - cursor"
    using spans_ok_cursor [OF ok(3)] by (simp add: mid_def)
  have start': "int start + offset = int (length (pre @ mid))"
    using len ok(1) Cons.prems(2) by simp
  have cut: "slice (pre @ mid @ repl @ rest) (length pre + length mid)
      (length pre + length mid + length repl) = repl"
    by (simp add: slice_def)
  have IH: "occ \<in> set (loop_occs text end offset' spans) \<Longrightarrow>
      occurrence_at text ((pre @ mid @ repl) @ rest) occ"
    unfolding rest_def by (rule Cons.IH [OF ok(3)])
      (use len ok Cons.prems(2) in \<open>simp_all add: offset'_def\<close>)
  from Cons.prems(3) show ?case
    using IH cut
    by (auto simp: sp start' occurrence_at_def py_slice_simps nat_add_distrib
        simp flip: offset'_def mid_def rest_def)
qed simp

section \<open>Properties\<close>

text \<open>
  C14. Masking is exact and reversible: for spans in order that do not overlap, running the recorded
  occurrences over the original text gives the masked text again, and running them backwards over
  the masked text gives the original text, character for character.
\<close>

theorem splice_round_trip:
  assumes "spans_ok (length text) 0 spans" "splice_spans text spans = (masked, occs)"
  shows "apply_mask text occs = masked \<and> apply_demask masked occs = text"
  using apply_mask_splice_spans [OF assms(1)] apply_demask_splice_spans [OF assms(1)] assms(2) by simp

lemma splice_round_trip_witness:
  "apply_demask (fst (splice_spans (asc ''Ann met Bob.'') [(0, 3, asc ''<P_1>'', asc ''1''), (8, 11, asc ''**'', asc ''2'')]))
     (snd (splice_spans (asc ''Ann met Bob.'') [(0, 3, asc ''<P_1>'', asc ''1''), (8, 11, asc ''**'', asc ''2'')])) =
   asc ''Ann met Bob.''"
  using splice_round_trip [of "asc ''Ann met Bob.''" "[(0, 3, asc ''<P_1>'', asc ''1''), (8, 11, asc ''**'', asc ''2'')]"]
  by (simp add: asc_def)

text \<open>
  Every recorded occurrence is located correctly in both texts: its original span holds the
  recorded original surface and its masked span holds the recorded replacement.
\<close>

lemma splice_occurrences_located:
  assumes "spans_ok (length text) 0 spans" "splice_spans text spans = (masked, occs)" "occ \<in> set occs"
  shows "occurrence_at text masked occ"
  using loop_occurrence_at [OF assms(1), of "[]" 0 occ] assms(2,3)
    splice_spans_text [of "text" spans] splice_spans_occs [of "text" spans] by simp

end
