(* ===== verification/Overlap.thy ===== *)
theory Overlap
  imports Splice
begin

text \<open>
  Choosing spans that do not overlap. The loop \<open>select_free\<close> (keep an item unless its span
  overlaps one already kept) is shared by \<open>resolve_overlaps\<close> of
  \<^verbatim>\<open>context/overlap.py\<close>, by the value-based demasker and by several detectors. The locale
  \<open>span_selection\<close> states what such a choice promises; its lemmas turn the promise into the
  precondition of splicing.
\<close>

fun overlaps :: "span \<Rightarrow> span \<Rightarrow> bool" where
  "overlaps (s, e) (s', e') \<longleftrightarrow> s < e' \<and> s' < e"

fun select_free :: "('a \<Rightarrow> span) \<Rightarrow> span list \<Rightarrow> 'a list \<Rightarrow> 'a list" where
  "select_free sp occupied [] = []"
| "select_free sp occupied (x # xs) =
     (if list_ex (overlaps (sp x)) occupied then select_free sp occupied xs
      else x # select_free sp (occupied @ [sp x]) xs)"

text \<open>The sort key of \<open>resolve_overlaps\<close>: highest confidence, then longest, then leftmost.\<close>

definition overlap_key :: "candidate \<Rightarrow> rat \<times> int \<times> nat" where
  "overlap_key c = (- c_confidence c, - (int (c_end c) - int (c_start c)), c_start c)"

definition resolve_overlaps :: "candidate list \<Rightarrow> candidate list" where
  "resolve_overlaps candidates =
     (if candidates = [] then []
      else sort_key c_start (select_free c_span [] (sort_key overlap_key candidates)))"

section \<open>The selection loop\<close>

lemma overlaps_sym: "overlaps a b = overlaps b a"
  by (cases a; cases b) auto

lemma overlaps_refl: "fst a < snd a \<Longrightarrow> overlaps a a"
  by (cases a) simp

abbreviation apart :: "('a \<Rightarrow> span) \<Rightarrow> 'a list \<Rightarrow> bool" where
  "apart sp \<equiv> sorted_wrt (\<lambda>x y. \<not> overlaps (sp x) (sp y))"

lemma select_free_set: "x \<in> set (select_free sp occupied xs) \<Longrightarrow>
    x \<in> set xs \<and> (\<forall>s \<in> set occupied. \<not> overlaps (sp x) s)"
  by (induction sp occupied xs rule: select_free.induct) (auto simp: list_ex_iff split: if_splits)

lemma select_free_subset: "set (select_free sp occupied xs) \<subseteq> set xs"
  using select_free_set by fast

lemma select_free_apart: "apart sp (select_free sp occupied xs)"
proof (induction sp occupied xs rule: select_free.induct)
  case (2 sp occupied x xs)
  then show ?case
    using select_free_set [of _ sp "occupied @ [sp x]" xs] by (auto simp: overlaps_sym)
qed simp

text \<open>
  Whatever is dropped overlaps something occupied before the loop, or something chosen that comes
  before it in the loop's order.
\<close>

lemma select_free_blocked:
  assumes "sorted_wrt le xs" "x \<in> set xs" "x \<notin> set (select_free sp occupied xs)"
  shows "(\<exists>s \<in> set occupied. overlaps (sp x) s) \<or>
    (\<exists>y \<in> set (select_free sp occupied xs). overlaps (sp x) (sp y) \<and> le y x)"
  using assms
proof (induction sp occupied xs rule: select_free.induct)
  case (2 sp occupied z xs)
  show ?case
  proof (cases "list_ex (overlaps (sp z)) occupied")
    case True
    with 2 show ?thesis by (auto simp: list_ex_iff)
  next
    case False
    with 2 show ?thesis by auto
  qed
qed simp

lemma select_free_first: "select_free sp [] (x # xs) = x # select_free sp [sp x] xs"
  by simp

section \<open>Orders and permutations of spans that are apart\<close>

lemma apart_insort:
  "apart sp (insort_key f x xs) \<longleftrightarrow> (\<forall>y \<in> set xs. \<not> overlaps (sp x) (sp y)) \<and> apart sp xs"
  by (induction xs) (auto simp: set_insort_key overlaps_sym)

lemma apart_sort_key [simp]: "apart sp (sort_key f xs) \<longleftrightarrow> apart sp xs"
  by (induction xs) (simp_all add: apart_insort)

lemma apart_filter: "apart sp xs \<Longrightarrow> apart sp (filter P xs)"
  by (rule sorted_wrt_filter)

lemma apart_map: "apart sp (map f xs) \<longleftrightarrow> apart (sp \<circ> f) xs"
  by (simp add: sorted_wrt_map)

fun span_chain :: "nat \<Rightarrow> nat \<Rightarrow> span list \<Rightarrow> bool" where
  "span_chain n cursor [] \<longleftrightarrow> cursor \<le> n"
| "span_chain n cursor ((s, e) # spans) \<longleftrightarrow> cursor \<le> s \<and> s \<le> e \<and> span_chain n e spans"

definition good_span :: "nat \<Rightarrow> span \<Rightarrow> bool" where
  "good_span n s \<longleftrightarrow> fst s < snd s \<and> snd s \<le> n"

lemma span_chain_sorted_apart:
  assumes "apart sp xs" "sorted (map (fst \<circ> sp) xs)" "\<forall>x \<in> set xs. good_span n (sp x)"
    and "\<forall>x \<in> set xs. cursor \<le> fst (sp x)" "cursor \<le> n"
  shows "span_chain n cursor (map sp xs)"
  using assms
proof (induction xs arbitrary: cursor)
  case (Cons x xs)
  obtain s e where sp: "sp x = (s, e)" by force
  have "e \<le> fst (sp y)" if "y \<in> set xs" for y
    using Cons.prems(1-3) that by (cases "sp y") (force simp: sp good_span_def)
  then have "span_chain n e (map sp xs)"
    using Cons.prems by (intro Cons.IH) (auto simp: sp good_span_def)
  then show ?case using Cons.prems(3,4) by (auto simp: sp good_span_def)
qed simp

lemma spans_ok_span_chain:
  "spans_ok n cursor spans = span_chain n cursor (map (\<lambda>s. (rs_start s, rs_end s)) spans)"
proof (induction spans arbitrary: cursor)
  case (Cons s spans)
  then show ?case by (cases s) simp
qed simp

lemma span_chain_mono: "span_chain n c xs \<Longrightarrow> c' \<le> c \<Longrightarrow> span_chain n c' xs"
  by (cases xs) (auto split: prod.splits)

lemma span_chain_filter: "span_chain n c (map f xs) \<Longrightarrow> span_chain n c (map f (filter P xs))"
proof (induction xs arbitrary: c)
  case (Cons x xs)
  obtain s e where x: "f x = (s, e)" by force
  with Cons show ?case by (auto intro: span_chain_mono)
qed simp

lemma span_chain_bound: "span_chain n c xs \<Longrightarrow> s \<in> set xs \<Longrightarrow> c \<le> fst s"
proof (induction xs arbitrary: c)
  case (Cons x xs)
  obtain a b where x: "x = (a, b)" by force
  with Cons.prems have "s = x \<or> b \<le> fst s" using Cons.IH [of b] by auto
  with Cons.prems x show ?case by auto
qed simp

lemma span_chain_sorted: "span_chain n c xs \<Longrightarrow> sorted (map fst xs)"
proof (induction xs arbitrary: c)
  case (Cons x xs)
  obtain a b where x: "x = (a, b)" by force
  with Cons.prems have "a \<le> b" "span_chain n b xs" by simp_all
  with Cons.IH [of b] span_chain_bound [of n b xs] x show ?case by fastforce
qed simp

section \<open>The contract of a span selection\<close>

locale span_selection =
  fixes sp :: "'a \<Rightarrow> span"
    and key :: "'a \<Rightarrow> 'k :: linorder"
    and select :: "'a list \<Rightarrow> 'a list"
  assumes chosen_subset: "set (select xs) \<subseteq> set xs"
    and chosen_apart: "apart sp (select xs)"
    and dropped_blocked: "x \<in> set xs \<Longrightarrow> x \<notin> set (select xs) \<Longrightarrow>
      \<exists>y \<in> set (select xs). overlaps (sp x) (sp y) \<and> key y \<le> key x"
begin

lemma best_covered:
  assumes "x \<in> set xs" "\<forall>y \<in> set xs. y \<noteq> x \<longrightarrow> key x < key y"
  shows "x \<in> set (select xs)"
proof (rule ccontr)
  assume "x \<notin> set (select xs)"
  with assms(1) obtain y where y: "y \<in> set (select xs)" "key y \<le> key x"
    using dropped_blocked by blast
  with \<open>x \<notin> set (select xs)\<close> have "y \<noteq> x" by blast
  with y chosen_subset assms(2) have "key x < key y" by blast
  with y show False by simp
qed

lemma uncontested_kept:
  assumes "x \<in> set xs" "\<forall>y \<in> set xs. y \<noteq> x \<longrightarrow> \<not> overlaps (sp x) (sp y)"
  shows "x \<in> set (select xs)"
  using assms dropped_blocked [of x xs] chosen_subset [of xs] by (metis subsetD)

lemma sorted_chain:
  assumes "\<forall>x \<in> set xs. good_span n (sp x)"
  shows "span_chain n 0 (map sp (sort_key (fst \<circ> sp) (select xs)))"
  using assms chosen_subset [of xs] chosen_apart [of xs]
  by (intro span_chain_sorted_apart) auto

lemma nonempty_kept:
  assumes "xs \<noteq> []"
  shows "select xs \<noteq> []"
proof -
  obtain x where "x \<in> set xs" using assms by (meson last_in_set)
  then show ?thesis using dropped_blocked [of x xs] by fastforce
qed

end

lemma select_free_selection: "span_selection sp key (\<lambda>xs. select_free sp [] (sort_key key xs))"
proof
  fix x xs
  assume x: "x \<in> set xs" "x \<notin> set (select_free sp [] (sort_key key xs))"
  have "sorted_wrt (\<lambda>y z. key y \<le> key z) (sort_key key xs)"
    using sorted_sort_key [of key xs] by (simp add: sorted_map)
  from select_free_blocked [OF this, of x sp "[]"] x
  show "\<exists>y \<in> set (select_free sp [] (sort_key key xs)). overlaps (sp x) (sp y) \<and> key y \<le> key x"
    by simp
qed (use select_free_subset select_free_apart in fastforce)+

lemmas free_choice = select_free_selection [where sp = c_span and key = overlap_key]

interpretation overlap_choice: span_selection c_span overlap_key resolve_overlaps
  using free_choice
  by (auto simp: span_selection_def resolve_overlaps_def)

lemma resolve_overlaps_sorted: "sorted (map c_start (resolve_overlaps candidates))"
  by (simp add: resolve_overlaps_def)

lemma resolve_overlaps_distinct:
  assumes "\<forall>c \<in> set candidates. wf_candidate text c"
  shows "distinct (resolve_overlaps candidates)"
proof -
  have "\<not> overlaps (c_span c) (c_span c) \<Longrightarrow> c \<notin> set candidates" for c
    using assms by (auto simp: c_span_def wf_candidate_def)
  then have "apart c_span xs \<Longrightarrow> set xs \<subseteq> set candidates \<Longrightarrow> distinct xs" for xs
    by (induction xs) auto
  with overlap_choice.chosen_apart overlap_choice.chosen_subset show ?thesis by blast
qed

lemma wf_good_span: "wf_candidate text c \<Longrightarrow> good_span (length text) (c_span c)"
  by (simp add: wf_candidate_def good_span_def c_span_def)

section \<open>Properties\<close>

text \<open>
  C15. Overlap resolution hands the later stages spans they can splice: of well-formed candidates it
  keeps some, each once, in text order, each ending before the next one starts and inside the text.
\<close>

theorem resolve_overlaps_spliceable:
  assumes "\<forall>c \<in> set candidates. wf_candidate text c"
  shows "set (resolve_overlaps candidates) \<subseteq> set candidates \<and> distinct (resolve_overlaps candidates) \<and>
    span_chain (length text) 0 (map c_span (resolve_overlaps candidates))"
proof (intro conjI)
  have "sort_key (fst \<circ> c_span) (resolve_overlaps candidates) = resolve_overlaps candidates"
    by (rule sort_key_id_if_sorted)
      (use resolve_overlaps_sorted [of candidates] in \<open>simp add: c_span_def comp_def\<close>)
  with overlap_choice.sorted_chain [of candidates "length text"] assms wf_good_span
  show "span_chain (length text) 0 (map c_span (resolve_overlaps candidates))" by auto
qed (use overlap_choice.chosen_subset resolve_overlaps_distinct [OF assms] in auto)

definition sample_candidate :: "pii_type \<Rightarrow> str \<Rightarrow> nat \<Rightarrow> nat \<Rightarrow> rat \<Rightarrow> candidate" where
  "sample_candidate t s i j conf = \<lparr>c_type = t, c_value = slice s i j, c_start = i, c_end = j,
     c_detector = [], c_confidence = conf, c_metadata = no_metadata\<rparr>"

lemma resolve_overlaps_spliceable_witness:
  "let s = asc ''4111 1111 pin 1111'';
       cs = [sample_candidate PIN s 5 9 (1/2), sample_candidate CARD_NUMBER s 0 9 (9/10),
             sample_candidate PIN s 14 18 (1/2)]
   in map c_span (resolve_overlaps cs) = [(0, 9), (14, 18)] \<and>
      span_chain (length s) 0 (map c_span (resolve_overlaps cs))"
  using resolve_overlaps_spliceable [of "[sample_candidate PIN (asc ''4111 1111 pin 1111'') 5 9 (1/2),
      sample_candidate CARD_NUMBER (asc ''4111 1111 pin 1111'') 0 9 (9/10),
      sample_candidate PIN (asc ''4111 1111 pin 1111'') 14 18 (1/2)]" "asc ''4111 1111 pin 1111''"]
  by (simp add: sample_candidate_def wf_candidate_def asc_def resolve_overlaps_def overlap_key_def
      c_span_def Let_def less_prod_def)

text \<open>
  A candidate is dropped only for a better one: whatever overlap resolution drops overlaps a kept
  candidate that comes no later in the order by confidence, then length, then position. In
  particular a candidate that overlaps no other is kept.
\<close>

lemma resolve_overlaps_priority:
  assumes "c \<in> set candidates" "c \<notin> set (resolve_overlaps candidates)"
  shows "\<exists>k \<in> set (resolve_overlaps candidates). overlaps (c_span c) (c_span k) \<and> overlap_key k \<le> overlap_key c"
  by (rule overlap_choice.dropped_blocked [OF assms])

end
