(* ===== verification/Morphology.thy ===== *)
theory Morphology
  imports Models
begin

text \<open>
  \<^verbatim>\<open>replacement/morphology.py\<close>: case, gender and inflection of Russian name words. The
  dictionary behind it is the third-party package \<^verbatim>\<open>pymorphy3\<close>; an analyzer is therefore a
  parameter of every definition here, the function from a word to its ranked parses. Of a parse
  the sources read the grammemes, the gender and the case of its tag, and the word that
  \<open>parse.inflect({case, "sing"})\<close> yields for a case, if any. The \<open>lru_cache\<close> decorators
  memoize pure functions and have no counterpart here.
\<close>

record parse =
  pt_grammemes :: "str list"
  pt_gender :: "str option"
  pt_case :: "str option"
  pt_inflect_sing :: "str \<Rightarrow> str option"

type_synonym analyzer = "str \<Rightarrow> parse list"

definition nomn :: str where "nomn = asc ''nomn''"
definition masc :: str where "masc = asc ''masc''"
definition femn :: str where "femn = asc ''femn''"

definition CASES :: "str list" where
  "CASES = map asc [''nomn'', ''gent'', ''datv'', ''accs'', ''ablt'', ''loct'']"

definition guess_gender :: "analyzer \<Rightarrow> str \<Rightarrow> str" where
  "guess_gender A first_name =
     (let mf = (\<lambda>p. pt_gender p = Some masc \<or> pt_gender p = Some femn);
          named = (\<lambda>p. asc ''Name'' \<in> set (pt_grammemes p) \<and> mf p)
      in case find named (A first_name) of
           Some p \<Rightarrow> the (pt_gender p)
         | None \<Rightarrow> (case find mf (A first_name) of
                     Some p \<Rightarrow> the (pt_gender p)
                   | None \<Rightarrow> masc))"

definition detect_case :: "analyzer \<Rightarrow> str \<Rightarrow> str option" where
  "detect_case A word =
     (case find (\<lambda>p. \<exists>c \<in> set CASES. pt_case p = Some c) (A word) of
        Some p \<Rightarrow> pt_case p | None \<Rightarrow> None)"

text \<open>The parses an inflection tries: those of the wanted gender when there are any.\<close>

definition gendered_parses :: "analyzer \<Rightarrow> str \<Rightarrow> str option \<Rightarrow> parse list" where
  "gendered_parses A word gender =
     (let parses = A word;
          gendered = filter (\<lambda>p. pt_gender p = gender) parses
      in if truthy gender \<and> gendered \<noteq> [] then gendered else parses)"

definition keep_capital :: "ucd \<Rightarrow> str \<Rightarrow> str \<Rightarrow> str" where
  "keep_capital U word res =
     (case word of [] \<Rightarrow> res | c # _ \<Rightarrow> if u_isupper U c then u_capitalize U res else res)"

fun first_inflection :: "parse list \<Rightarrow> str \<Rightarrow> str option" where
  "first_inflection [] case_name = None"
| "first_inflection (p # ps) case_name =
     (case pt_inflect_sing p case_name of Some w \<Rightarrow> Some w | None \<Rightarrow> first_inflection ps case_name)"

definition inflect_word :: "ucd \<Rightarrow> analyzer \<Rightarrow> str \<Rightarrow> str \<Rightarrow> str option \<Rightarrow> str" where
  "inflect_word U A word case_name gender =
     (if case_name = nomn \<or> case_name \<notin> set CASES then word
      else case first_inflection (gendered_parses A word gender) case_name of
             Some res \<Rightarrow> keep_capital U word res
           | None \<Rightarrow> word)"

definition inflect_name_words ::
  "ucd \<Rightarrow> analyzer \<Rightarrow> str option list \<Rightarrow> str \<Rightarrow> str option \<Rightarrow> str" where
  "inflect_name_words U A ws case_name gender =
     str_join (asc '' '')
       (map (\<lambda>w. inflect_word U A (the w) case_name gender) (filter truthy ws))"

definition inflect_full_name ::
  "ucd \<Rightarrow> analyzer \<Rightarrow> str option \<Rightarrow> str option \<Rightarrow> str option \<Rightarrow> str \<Rightarrow> str option \<Rightarrow> str" where
  "inflect_full_name U A surname first patronymic case_name gender =
     inflect_name_words U A [surname, first, patronymic] case_name gender"

definition split_name_words :: "ucd \<Rightarrow> str \<Rightarrow> str list" where
  "split_name_words U nominal = split_ws U nominal"

text \<open>Name roles in the order \<open>classify_name_word\<close> tries them on each of the top two parses.\<close>

datatype grammeme = GPatr | GSurn | GName

fun grammeme_tag :: "grammeme \<Rightarrow> str" where
  "grammeme_tag GPatr = asc ''Patr''"
| "grammeme_tag GSurn = asc ''Surn''"
| "grammeme_tag GName = asc ''Name''"

definition name_role_of :: "parse \<Rightarrow> grammeme option" where
  "name_role_of p = find (\<lambda>g. grammeme_tag g \<in> set (pt_grammemes p)) [GPatr, GSurn, GName]"

fun first_name_role :: "parse list \<Rightarrow> (grammeme \<times> parse) option" where
  "first_name_role [] = None"
| "first_name_role (p # ps) =
     (case name_role_of p of Some g \<Rightarrow> Some (g, p) | None \<Rightarrow> first_name_role ps)"

definition classify_name_word :: "analyzer \<Rightarrow> str \<Rightarrow> (grammeme \<times> parse) option" where
  "classify_name_word A word = first_name_role (take 2 (A word))"

definition normalize_to_nominative :: "ucd \<Rightarrow> analyzer \<Rightarrow> str \<Rightarrow> str option \<Rightarrow> str" where
  "normalize_to_nominative U A word gender =
     (case first_inflection (gendered_parses A word gender) nomn of
        Some res \<Rightarrow> keep_capital U word res
      | None \<Rightarrow> word)"

definition detect_name_case :: "analyzer \<Rightarrow> str option \<Rightarrow> str option \<Rightarrow> str option \<Rightarrow> str" where
  "detect_name_case A surname first patronymic =
     (case find (\<lambda>part. truthy part \<and> truthy (detect_case A (the part))) [patronymic, surname, first] of
        Some part \<Rightarrow> the (detect_case A (the part))
      | None \<Rightarrow> nomn)"

section \<open>Facts that hold for every dictionary\<close>

lemma inflect_word_nomn [simp]: "inflect_word U A word nomn gender = word"
  by (simp add: inflect_word_def)

lemma guess_gender_range: "guess_gender A w = masc \<or> guess_gender A w = femn"
  by (auto simp: guess_gender_def Let_def find_Some_iff split: option.splits)

lemma detect_case_range: "detect_case A w = Some c \<Longrightarrow> c \<in> set CASES"
  by (auto simp: detect_case_def find_Some_iff split: option.splits)

end
