(* ===== verification/Demasker.thy ===== *)
theory Demasker
  imports Overlap Morphology "HOL-Library.Multiset"
begin

text \<open>
  Value-based demasking, \<^verbatim>\<open>demasking/demasker.py\<close>: the surrogates of the stored mappings
  are searched for in a text that need not be the masked text (a language model may have reworded
  it), and replaced by the originals. The first part holds the definitions, from the span search
  to \<open>demask\<close>; the second shows that the search finds exactly the whole-word occurrences, that
  replacing from right to left is splicing, and that the token substitution restores every token
  in place.
\<close>

type_synonym dspan = "nat \<times> nat \<times> str"

abbreviation ds_span :: "dspan \<Rightarrow> span" where "ds_span s \<equiv> (fst s, fst (snd s))"

section \<open>Choosing and replacing spans\<close>

definition dspan_key :: "dspan \<Rightarrow> int \<times> nat" where
  "dspan_key s = (- (int (fst (snd s)) - int (fst s)), fst s)"

definition choose_spans :: "dspan list \<Rightarrow> dspan list" where
  "choose_spans spans = select_free ds_span [] (sort_key dspan_key spans)"

fun replace_spans :: "str \<Rightarrow> dspan list \<Rightarrow> str" where
  "replace_spans res [] = res"
| "replace_spans res ((start, end, replacement) # spans) =
     replace_spans (take start res @ replacement @ drop end res) spans"

definition resolve_and_apply :: "str \<Rightarrow> dspan list \<Rightarrow> str" where
  "resolve_and_apply text spans =
     replace_spans text (sort_key (\<lambda>s. - int (fst s)) (choose_spans spans))"

section \<open>Whole-word search\<close>

definition is_word_char :: "ucd \<Rightarrow> uchar \<Rightarrow> bool" where
  "is_word_char U ch \<longleftrightarrow> u_isalnum U ch \<or> ch = 95"

definition word_bounded :: "ucd \<Rightarrow> str \<Rightarrow> nat \<Rightarrow> nat \<Rightarrow> bool" where
  "word_bounded U text idx end \<longleftrightarrow>
     (idx = 0 \<or> \<not> is_word_char U (text ! (idx - 1))) \<and>
     (end = length text \<or> \<not> is_word_char U (text ! end))"

function find_spans_loop :: "ucd \<Rightarrow> str \<Rightarrow> str \<Rightarrow> str \<Rightarrow> nat \<Rightarrow> dspan list" where
  "find_spans_loop U text needle replacement search_from =
     (case str_find text needle search_from of
        None \<Rightarrow> []
      | Some idx \<Rightarrow>
          (let end = idx + length needle;
               rest = find_spans_loop U text needle replacement (idx + 1)
           in if word_bounded U text idx end then (idx, end, replacement) # rest else rest))"
  by pat_completeness auto
termination
  by (relation "measure (\<lambda>(U, text, needle, replacement, search_from). Suc (length text) - search_from)")
    (auto dest!: str_find_SomeD)

declare find_spans_loop.simps [simp del]

definition find_all_spans :: "ucd \<Rightarrow> str \<Rightarrow> (str \<times> str) list \<Rightarrow> dspan list" where
  "find_all_spans U text needle_replacements =
     concat (map (\<lambda>(needle, replacement). find_spans_loop U text needle replacement 0)
       (filter (\<lambda>(n, r). n \<noteq> []) needle_replacements))"

section \<open>Surfaces of a synthetic name\<close>

text \<open>Shape symbols: a full word (S, F, P) or an initial (f, p) of a name part.\<close>

datatype symbol = SymS | SymF | SymP | Symf | Symp

fun role_by_symbol :: "symbol \<Rightarrow> role" where
  "role_by_symbol SymS = Surname"
| "role_by_symbol SymF = First"
| "role_by_symbol SymP = Patronymic"
| "role_by_symbol Symf = First"
| "role_by_symbol Symp = Patronymic"

fun ni_part :: "role \<Rightarrow> name_identity \<Rightarrow> str option" where
  "ni_part Surname i = ni_surname i"
| "ni_part First i = ni_first i"
| "ni_part Patronymic i = ni_patronymic i"

definition WORD_SHAPES :: "symbol list list" where
  "WORD_SHAPES = [[SymS, SymF, SymP], [SymF, SymP, SymS], [SymF, SymS], [SymS, SymF], [SymF, SymP]]"

definition INITIAL_SHAPES :: "symbol list list" where
  "INITIAL_SHAPES = [[Symf, Symp, SymS], [SymS, Symf, Symp], [Symf, SymS]]"

definition is_initial :: "symbol \<Rightarrow> bool" where
  "is_initial s \<longleftrightarrow> s = Symf \<or> s = Symp"

fun render_loop ::
  "ucd \<Rightarrow> analyzer \<Rightarrow> name_identity \<Rightarrow> str \<Rightarrow> str \<Rightarrow> bool \<Rightarrow> str list \<Rightarrow> bool \<Rightarrow> symbol list
   \<Rightarrow> str list option" where
  "render_loop U A parts case_name gender compact_initials out pending [] = Some out"
| "render_loop U A parts case_name gender compact_initials out pending (sy # sys) =
     (case ni_part (role_by_symbol sy) parts of
        Some (c # cs) \<Rightarrow>
          (if is_initial sy then
             (let tok = [c] @ asc ''.'' in
              if pending \<and> compact_initials
              then render_loop U A parts case_name gender compact_initials
                     (butlast out @ [last out @ tok]) True sys
              else render_loop U A parts case_name gender compact_initials (out @ [tok]) True sys)
           else render_loop U A parts case_name gender compact_initials
                  (out @ [inflect_word U A (c # cs) case_name (Some gender)]) False sys)
      | _ \<Rightarrow> None)"

definition render_shape ::
  "ucd \<Rightarrow> analyzer \<Rightarrow> symbol list \<Rightarrow> name_identity \<Rightarrow> str \<Rightarrow> str \<Rightarrow> bool \<Rightarrow> str option" where
  "render_shape U A shape parts case_name gender compact_initials =
     map_option (str_join (asc '' '')) (render_loop U A parts case_name gender compact_initials [] False shape)"

definition render_original_like ::
  "ucd \<Rightarrow> analyzer \<Rightarrow> symbol list \<Rightarrow> name_identity \<Rightarrow> str \<Rightarrow> str \<Rightarrow> str option" where
  "render_original_like U A shape parts case_name gender =
     (let reduced = filter (\<lambda>s. truthy (ni_part (role_by_symbol s) parts)) shape
      in if reduced = [] then None else render_shape U A reduced parts case_name gender False)"

text \<open>\<open>pairs.setdefault(needle, restored)\<close> on a dictionary in insertion order.\<close>

definition setdefault :: "str \<Rightarrow> str \<Rightarrow> (str \<times> str) list \<Rightarrow> (str \<times> str) list" where
  "setdefault k v d = (if k \<in> set (map fst d) then d else d @ [(k, v)])"

definition collect_shape_pair ::
  "ucd \<Rightarrow> analyzer \<Rightarrow> (str \<times> str) list \<Rightarrow> symbol list \<Rightarrow> name_identity \<Rightarrow> name_identity \<Rightarrow> str
   \<Rightarrow> str \<times> str \<Rightarrow> bool \<Rightarrow> (str \<times> str) list" where
  "collect_shape_pair U A pairs shape identity original_identity case_name genders compact_initials =
     (let needle = render_shape U A shape identity case_name (fst genders) compact_initials in
      if \<not> truthy needle then pairs
      else
        (let restored = render_original_like U A shape original_identity case_name (snd genders) in
         if truthy restored then setdefault (the needle) (the restored) pairs else pairs))"

text \<open>The nested loops of \<open>_alias_shape_pairs\<close> as the list of iterations in their order.\<close>

definition alias_iterations :: "(str \<times> symbol list \<times> bool) list" where
  "alias_iterations =
     concat (map (\<lambda>case_name.
       map (\<lambda>shape. (case_name, shape, False)) WORD_SHAPES @
       concat (map (\<lambda>shape. [(case_name, shape, False), (case_name, shape, True)]) INITIAL_SHAPES))
       CASES)"

definition alias_shape_pairs ::
  "ucd \<Rightarrow> analyzer \<Rightarrow> name_identity \<Rightarrow> name_identity \<Rightarrow> (str \<times> str) list" where
  "alias_shape_pairs U A identity original_identity =
     (let gender_syn = or_else (ni_gender identity) masc;
          genders = (gender_syn, or_else (ni_gender original_identity) gender_syn)
      in foldl (\<lambda>pairs (case_name, shape, compact_initials).
           collect_shape_pair U A pairs shape identity original_identity case_name genders compact_initials)
           [] alias_iterations)"

definition legacy_name_pairs ::
  "ucd \<Rightarrow> analyzer \<Rightarrow> entity_mapping \<Rightarrow> name_identity \<Rightarrow> (str \<times> str) list" where
  "legacy_name_pairs U A mapping identity =
     (let original_words = map Some (split_name_words U (or_else (em_original_nominal mapping) (em_original mapping)));
          gender = or_else (em_gender mapping) masc;
          synthetic_words = [ni_surname identity, ni_first identity, ni_patronymic identity]
      in concat (map (\<lambda>case_name.
           (let surface = inflect_name_words U A synthetic_words case_name (ni_gender identity) in
            if surface \<noteq> []
            then [(surface, inflect_name_words U A original_words case_name (Some gender))]
            else []))
           CASES))"

definition name_needle_replacements :: "ucd \<Rightarrow> analyzer \<Rightarrow> entity_mapping \<Rightarrow> (str \<times> str) list" where
  "name_needle_replacements U A mapping =
     (case mm_synthetic_identity (em_metadata mapping) of
        None \<Rightarrow>
          (if truthy (em_synthetic_nominal mapping)
           then [(the (em_synthetic_nominal mapping),
                  or_else (em_original_nominal mapping) (em_original mapping))]
           else [])
      | Some identity \<Rightarrow>
          (case mm_original_identity (em_metadata mapping) of
             None \<Rightarrow> legacy_name_pairs U A mapping identity
           | Some original_identity \<Rightarrow> alias_shape_pairs U A identity original_identity))"

definition is_name_type :: "pii_type \<Rightarrow> bool" where
  "is_name_type t \<longleftrightarrow> t = FULL_NAME \<or> t = CARDHOLDER"

definition mapping_needles :: "ucd \<Rightarrow> analyzer \<Rightarrow> entity_mapping \<Rightarrow> (str \<times> str) list" where
  "mapping_needles U A mapping =
     (if em_token mapping \<noteq> [] then [(em_token mapping, em_original mapping)] else []) @
     (if is_name_type (em_type mapping) then name_needle_replacements U A mapping
      else if em_synthetic mapping \<noteq> [] then [(em_synthetic mapping, em_original mapping)]
      else [])"

definition demask_synthetic :: "ucd \<Rightarrow> analyzer \<Rightarrow> str \<Rightarrow> entity_mapping list \<Rightarrow> str" where
  "demask_synthetic U A text mappings =
     resolve_and_apply text (find_all_spans U text (concat (map (mapping_needles U A) mappings)))"

section \<open>Token substitution\<close>

text \<open>
  \<open>pattern.sub(lambda m: replacements[m.group()], text)\<close> for an alternation of literals: at each
  position the first alternative that matches is replaced and the scan goes on behind it.
\<close>

function sub_tokens :: "(str \<times> str) list \<Rightarrow> str \<Rightarrow> str" where
  "sub_tokens alts text =
     (case text of
        [] \<Rightarrow> []
      | c # rest \<Rightarrow>
          (case find (\<lambda>(t, r). t \<noteq> [] \<and> starts_with t text) alts of
             None \<Rightarrow> c # sub_tokens alts rest
           | Some (t, r) \<Rightarrow> r @ sub_tokens alts (drop (length t) text)))"
  by pat_completeness auto
termination
  by (relation "measure (\<lambda>(alts, text). length text)") (auto simp: find_Some_iff)

declare sub_tokens.simps [simp del]

text \<open>The dictionary \<open>{m.token: m.original for m in mappings if m.token}\<close>, in insertion order.\<close>

definition token_dict :: "entity_mapping list \<Rightarrow> (str \<times> str) list" where
  "token_dict mappings =
     foldl (\<lambda>d m. AList.update (em_token m) (em_original m) d) []
       (filter (\<lambda>m. em_token m \<noteq> []) mappings)"

definition demask_token :: "str \<Rightarrow> entity_mapping list \<Rightarrow> str" where
  "demask_token text mappings =
     (let replacements = token_dict mappings in
      if replacements = [] then text
      else sub_tokens (sort_key (\<lambda>(t, r). - int (length t)) replacements) text)"

fun demask :: "ucd \<Rightarrow> analyzer \<Rightarrow> str \<Rightarrow> entity_mapping list \<Rightarrow> masking_mode \<Rightarrow> str" where
  "demask U A text mappings TOKEN = demask_token text mappings"
| "demask U A text mappings SYNTHETIC = demask_synthetic U A text mappings"
| "demask U A text mappings PARTIAL = text"

section \<open>The search finds exactly the whole-word occurrences\<close>

definition whole_word_at :: "ucd \<Rightarrow> str \<Rightarrow> str \<Rightarrow> nat \<Rightarrow> bool" where
  "whole_word_at U text needle i \<longleftrightarrow>
     i + length needle \<le> length text \<and> slice text i (i + length needle) = needle \<and>
     word_bounded U text i (i + length needle)"

lemma find_spans_loop_set:
  "s \<in> set (find_spans_loop U text needle replacement from) \<longleftrightarrow>
   (\<exists>i. from \<le> i \<and> whole_word_at U text needle i \<and> s = (i, i + length needle, replacement))"
proof (induction U "text" needle replacement "from" rule: find_spans_loop.induct)
  case (1 U "text" needle replacement "from")
  show ?case
  proof (cases "str_find text needle from")
    case None
    then have "\<not> (from \<le> i \<and> whole_word_at U text needle i)" for i
      using str_find_least [of "from" i needle "text"] by (auto simp: whole_word_at_def)
    then show ?thesis using None by (auto simp: find_spans_loop.simps [of U "text" needle replacement "from"])
  next
    case (Some idx)
    note found = str_find_SomeD [OF Some]
    have least: "from \<le> i \<Longrightarrow> whole_word_at U text needle i \<Longrightarrow> i = idx \<or> idx + 1 \<le> i" for i
      using str_find_first [OF Some, of i] by (fastforce simp: whole_word_at_def)
    have "whole_word_at U text needle idx \<longleftrightarrow> word_bounded U text idx (idx + length needle)"
      using found by (simp add: whole_word_at_def)
    then show ?thesis
      using "1.IH" [OF Some refl] found least Some
      by (auto simp: find_spans_loop.simps [of U "text" needle replacement "from"] Let_def)
  qed
qed

lemma find_all_spans_set:
  "s \<in> set (find_all_spans U text nrs) \<longleftrightarrow>
   (\<exists>needle replacement i. (needle, replacement) \<in> set nrs \<and> needle \<noteq> [] \<and>
      whole_word_at U text needle i \<and> s = (i, i + length needle, replacement))"
  by (fastforce simp: find_all_spans_def find_spans_loop_set)

lemma find_all_spans_good:
  "s \<in> set (find_all_spans U text nrs) \<Longrightarrow> good_span (length text) (ds_span s)"
  by (auto simp: find_all_spans_set whole_word_at_def good_span_def)

section \<open>Replacing from right to left is splicing\<close>

interpretation demask_choice: span_selection ds_span dspan_key choose_spans
  using select_free_selection [of ds_span dspan_key] by (simp add: choose_spans_def [abs_def])

definition dspan_repl :: "dspan \<Rightarrow> repl_span" where
  "dspan_repl s = (fst s, fst (snd s), snd (snd s), [])"

lemma replace_spans_append: "replace_spans res (xs @ ys) = replace_spans (replace_spans res xs) ys"
  by (induction res xs rule: replace_spans.induct) simp_all

lemma span_chain_cursor: "span_chain n cursor spans \<Longrightarrow> cursor \<le> n"
  by (induction n cursor spans rule: span_chain.induct) auto

lemma replace_spans_rev:
  assumes "span_chain (length text) cursor (map ds_span xs)"
  shows "replace_spans text (rev xs) = take cursor text @ loop_text text cursor offset (map dspan_repl xs)"
  using assms
proof (induction xs arbitrary: cursor offset)
  case (Cons x xs)
  obtain s e r where x: "x = (s, e, r)" by (cases x) auto
  let ?offset = "offset + (int (length r) - (int e - int s))"
  from Cons.prems have ok: "cursor \<le> s" "s \<le> e" "span_chain (length text) e (map ds_span xs)"
    by (simp_all add: x)
  note bound = span_chain_cursor [OF ok(3)]
  have "take cursor text @ slice text cursor s = take s text"
    using slice_append_slice [of 0 cursor s "text"] ok(1) by simp
  then show ?case
    using Cons.IH [OF ok(3), of ?offset] ok bound
    by (simp add: x replace_spans_append dspan_repl_def min_def)
qed simp

lemma sort_key_neg:
  fixes f :: "'a \<Rightarrow> nat"
  assumes "distinct (map f xs)"
  shows "sort_key (\<lambda>x. - int (f x)) xs = rev (sort_key f xs)"
proof (rule sort_key_inj_key_eq)
  show "mset xs = mset (rev (sort_key f xs))" by simp
  show "inj_on (\<lambda>x. - int (f x)) (set xs)"
    using assms by (auto simp: distinct_map inj_on_def)
  have "sorted_wrt (\<lambda>x y. f x \<le> f y) (sort_key f xs)"
    using sorted_sort_key [of f xs] by (simp add: sorted_map)
  then show "sorted (map (\<lambda>x. - int (f x)) (rev (sort_key f xs)))"
    by (simp add: sorted_map sorted_wrt_rev)
qed

lemma apart_distinct_starts:
  "apart sp xs \<Longrightarrow> \<forall>x \<in> set xs. good_span n (sp x) \<Longrightarrow> distinct (map (fst \<circ> sp) xs)"
proof (induction xs)
  case (Cons x xs)
  have "fst (sp x) \<noteq> fst (sp y)" if "y \<in> set xs" for y
    using Cons.prems that by (cases "sp x"; cases "sp y") (force simp: good_span_def)
  then have "fst (sp x) \<notin> set (map (fst \<circ> sp) xs)" by auto
  with Cons show ?case by simp
qed simp

text \<open>The replacements made, in text order.\<close>

definition applied_spans :: "dspan list \<Rightarrow> repl_span list" where
  "applied_spans spans = map dspan_repl (sort_key fst (choose_spans spans))"

lemma applied_spans_ok:
  assumes "\<forall>s \<in> set spans. good_span n (ds_span s)"
  shows "spans_ok n 0 (applied_spans spans)"
  using demask_choice.sorted_chain [OF assms]
  by (simp add: applied_spans_def spans_ok_span_chain dspan_repl_def comp_def)

lemma resolve_and_apply_splice:
  assumes "\<forall>s \<in> set spans. good_span (length text) (ds_span s)"
  shows "resolve_and_apply text spans = fst (splice_spans text (applied_spans spans))"
proof -
  have good: "\<forall>s \<in> set (choose_spans spans). good_span (length text) (ds_span s)"
    using assms demask_choice.chosen_subset by blast
  have "distinct (map fst (choose_spans spans))"
    using apart_distinct_starts [OF demask_choice.chosen_apart good] by (simp add: comp_def)
  then have "resolve_and_apply text spans = replace_spans text (rev (sort_key fst (choose_spans spans)))"
    by (simp add: resolve_and_apply_def sort_key_neg)
  also have "\<dots> = loop_text text 0 0 (applied_spans spans)"
    using replace_spans_rev [of "text" 0 "sort_key fst (choose_spans spans)" 0]
      demask_choice.sorted_chain [OF assms]
    by (simp add: applied_spans_def comp_def)
  finally show ?thesis by (simp add: splice_spans_text)
qed

lemma applied_spans_set:
  "(s, e, r, x) \<in> set (applied_spans spans) \<Longrightarrow> (s, e, r) \<in> set (choose_spans spans)"
  by (auto simp: applied_spans_def dspan_repl_def)

lemma resolve_and_apply_Nil [simp]: "resolve_and_apply text [] = text"
  by (simp add: resolve_and_apply_def choose_spans_def)

section \<open>Token substitution\<close>

text \<open>A token is an identifier in angle brackets that contains no angle bracket.\<close>

definition token_shape :: "str \<Rightarrow> bool" where
  "token_shape t \<longleftrightarrow> (\<exists>body. t = 60 # body @ [62] \<and> 60 \<notin> set body \<and> 62 \<notin> set body)"

text \<open>A text as a language model may return it: running text and tokens, known or not.\<close>

datatype segment = Lit str | Tok str

fun seg_text :: "segment \<Rightarrow> str" where
  "seg_text (Lit s) = s"
| "seg_text (Tok t) = t"

fun seg_restored :: "(str \<times> str) list \<Rightarrow> segment \<Rightarrow> str" where
  "seg_restored d (Lit s) = s"
| "seg_restored d (Tok t) = (case map_of d t of Some r \<Rightarrow> r | None \<Rightarrow> t)"

fun seg_ok :: "segment \<Rightarrow> bool" where
  "seg_ok (Lit s) \<longleftrightarrow> 60 \<notin> set s"
| "seg_ok (Tok t) \<longleftrightarrow> token_shape t"

lemma token_prefix_unique:
  assumes "token_shape t" "token_shape t'" "starts_with t (t' @ rest)"
  shows "t = t'"
proof -
  obtain b b' where t: "t = 60 # b @ [62]" "62 \<notin> set b" and t': "t' = 60 # b' @ [62]" "62 \<notin> set b'"
    using assms(1,2) by (auto simp: token_shape_def)
  from assms(3) obtain r where "b @ 62 # r = b' @ 62 # rest"
    by (auto simp: starts_with_iff t t')
  moreover have "takeWhile (\<lambda>c. c \<noteq> 62) (b @ 62 # r) = b"
    "takeWhile (\<lambda>c. c \<noteq> 62) (b' @ 62 # rest) = b'"
    using t(2) t'(2) by (subst takeWhile_append2; force)+
  ultimately have "b = b'" by metis
  then show ?thesis by (simp add: t t')
qed


text \<open>The dictionary the substitution works on: shaped tokens, each listed once.\<close>

definition token_alts :: "(str \<times> str) list \<Rightarrow> bool" where
  "token_alts alts \<longleftrightarrow> distinct (map fst alts) \<and> (\<forall>(t, r) \<in> set alts. token_shape t)"

lemma token_alts_shape: "token_alts alts \<Longrightarrow> (t, r) \<in> set alts \<Longrightarrow> token_shape t"
  by (auto simp: token_alts_def)

lemma sub_tokens_skip:
  assumes "\<forall>(t, r) \<in> set alts. \<not> (t \<noteq> [] \<and> starts_with t (c # rest))"
  shows "sub_tokens alts (c # rest) = c # sub_tokens alts rest"
proof -
  have "find (\<lambda>(t, r). t \<noteq> [] \<and> starts_with t (c # rest)) alts = None"
    using assms by (auto simp: find_None_iff)
  then show ?thesis by (simp add: sub_tokens.simps [of alts "c # rest"])
qed

lemma sub_tokens_literal:
  assumes "token_alts alts" "60 \<notin> set s"
  shows "sub_tokens alts (s @ rest) = s @ sub_tokens alts rest"
  using assms(2)
proof (induction s)
  case (Cons c s)
  have "\<forall>(t, r) \<in> set alts. \<not> (t \<noteq> [] \<and> starts_with t (c # s @ rest))"
    using Cons.prems token_alts_shape [OF assms(1)] by (fastforce simp: token_shape_def starts_with_iff)
  from sub_tokens_skip [OF this] Cons show ?case by simp
qed simp

lemma sub_tokens_known:
  assumes "token_alts alts" "map_of alts t = Some r"
  shows "sub_tokens alts (t @ rest) = r @ sub_tokens alts rest"
proof -
  have mem: "(t, r) \<in> set alts" using assms(2) by (rule map_of_SomeD)
  have shape: "token_shape t" using token_alts_shape [OF assms(1) mem] .
  have uniq: "x = (t, r)" if "x \<in> set alts" "starts_with (fst x) (t @ rest)" for x
  proof -
    have "fst x = t"
      using token_prefix_unique [OF _ shape that(2)] token_alts_shape [OF assms(1)] that(1)
      by (metis prod.collapse)
    with that(1) mem assms(1) show ?thesis
      by (metis token_alts_def eq_key_imp_eq_value prod.collapse)
  qed
  obtain c cs where t: "t = c # cs" using shape by (auto simp: token_shape_def)
  have "find (\<lambda>(t', r'). t' \<noteq> [] \<and> starts_with t' (t @ rest)) alts = Some (t, r)"
  proof (cases "find (\<lambda>(t', r'). t' \<noteq> [] \<and> starts_with t' (t @ rest)) alts")
    case None
    with mem t show ?thesis by (force simp: find_None_iff starts_with_iff)
  next
    case (Some x)
    then have "x \<in> set alts" "starts_with (fst x) (t @ rest)"
      by (auto dest: find_SomeD)
    with uniq Some show ?thesis by simp
  qed
  then show ?thesis by (simp add: sub_tokens.simps [of alts "c # cs @ rest"] t)
qed

lemma sub_tokens_unknown:
  assumes "token_alts alts" "map_of alts t = None" "token_shape t"
  shows "sub_tokens alts (t @ rest) = t @ sub_tokens alts rest"
proof -
  obtain body where t: "t = 60 # body @ [62]" "60 \<notin> set body" "62 \<notin> set body"
    using assms(3) by (auto simp: token_shape_def)
  have "\<not> starts_with t' (t @ rest)" if "(t', r') \<in> set alts" for t' r'
  proof
    assume "starts_with t' (t @ rest)"
    then have "t' = t" by (rule token_prefix_unique [OF token_alts_shape [OF assms(1) that] assms(3)])
    with that assms(2) show False by (force simp: map_of_eq_None_iff)
  qed
  then have "\<forall>(t', r') \<in> set alts. \<not> (t' \<noteq> [] \<and> starts_with t' (60 # (body @ [62]) @ rest))"
    by (auto simp: t)
  from sub_tokens_skip [OF this] sub_tokens_literal [OF assms(1), of "body @ [62]" rest] t
  show ?thesis by simp
qed

lemma sub_tokens_segments:
  assumes "token_alts alts" "\<forall>s \<in> set segs. seg_ok s"
  shows "sub_tokens alts (concat (map seg_text segs)) = concat (map (seg_restored alts) segs)"
  using assms(2)
proof (induction segs)
  case Nil
  then show ?case by (simp add: sub_tokens.simps)
next
  case (Cons s segs)
  show ?case
  proof (cases s)
    case (Lit x)
    with Cons assms(1) show ?thesis by (simp add: sub_tokens_literal)
  next
    case (Tok t)
    with Cons assms(1) show ?thesis
      by (cases "map_of alts t") (simp_all add: sub_tokens_known sub_tokens_unknown)
  qed
qed

text \<open>The dictionary built from mappings with shaped tokens.\<close>

lemma foldl_update_keys:
  "distinct (map fst d) \<Longrightarrow>
   distinct (map fst (foldl (\<lambda>d m. AList.update (k m) (v m) d) d ms)) \<and>
   fst ` set (foldl (\<lambda>d m. AList.update (k m) (v m) d) d ms) = fst ` set d \<union> k ` set ms"
  by (induction ms arbitrary: d) (auto simp: distinct_update dom_update)

lemma map_of_foldl_update:
  "map_of (foldl (\<lambda>d m. AList.update (k m) (v m) d) d ms) = map_of d ++ map_of (rev (map (\<lambda>m. (k m, v m)) ms))"
  by (induction ms arbitrary: d) (simp_all add: update_conv' map_add_upds)

lemma token_dict_keys:
  "distinct (map fst (token_dict mappings))"
  "fst ` set (token_dict mappings) = {em_token m | m. m \<in> set mappings \<and> em_token m \<noteq> []}"
  using foldl_update_keys [of "[]" em_token em_original "filter (\<lambda>m. em_token m \<noteq> []) mappings"]
  by (auto simp: token_dict_def)

lemma distinct_map_sort_key: "distinct (map g (sort_key f xs)) = distinct (map g xs)"
  by (metis mset_eq_imp_distinct_iff mset_map mset_sort)

lemma map_of_sort_key: "distinct (map fst d) \<Longrightarrow> map_of (sort_key f d) = map_of d"
  by (subst map_of_inject_set) (simp_all add: distinct_map_sort_key)

lemma token_dict_lookup:
  assumes "m \<in> set mappings" "em_token m \<noteq> []"
    and "\<forall>m' \<in> set mappings. em_token m' = em_token m \<longrightarrow> em_original m' = em_original m"
  shows "map_of (token_dict mappings) (em_token m) = Some (em_original m)"
proof -
  let ?ms = "filter (\<lambda>m. em_token m \<noteq> []) mappings"
  have "map_of (token_dict mappings) = map_of (rev (map (\<lambda>m. (em_token m, em_original m)) ?ms))"
    by (simp add: token_dict_def map_of_foldl_update)
  moreover have "em_token m \<in> fst ` set (token_dict mappings)"
    using assms(1,2) by (auto simp: token_dict_keys(2))
  then obtain r where r: "map_of (token_dict mappings) (em_token m) = Some r"
    by (metis map_of_eq_None_iff not_None_eq)
  ultimately have "(em_token m, r) \<in> set (rev (map (\<lambda>m. (em_token m, em_original m)) ?ms))"
    by (metis map_of_SomeD)
  with assms(3) have "r = em_original m" by auto
  with r show ?thesis by simp
qed

lemma demask_token_segments:
  assumes "\<forall>m \<in> set mappings. token_shape (em_token m)" "\<forall>s \<in> set segs. seg_ok s"
  shows "demask_token (concat (map seg_text segs)) mappings =
    concat (map (seg_restored (token_dict mappings)) segs)"
proof (cases "token_dict mappings = []")
  case True
  have "seg_restored [] = seg_text"
  proof
    show "seg_restored [] s = seg_text s" for s by (cases s) simp_all
  qed
  then have "concat (map (seg_restored []) segs) = concat (map seg_text segs)" by simp
  with True show ?thesis by (simp add: demask_token_def)
next
  case False
  let ?alts = "sort_key (\<lambda>(t, r). - int (length t)) (token_dict mappings)"
  have "token_shape t" if "(t, r) \<in> set (token_dict mappings)" for t r
  proof -
    have "t \<in> fst ` set (token_dict mappings)" using that by force
    with assms(1) show ?thesis by (auto simp: token_dict_keys(2))
  qed
  then have alts: "token_alts ?alts"
    using token_dict_keys(1) [of mappings] by (auto simp: token_alts_def distinct_map_sort_key)
  have "seg_restored ?alts = seg_restored (token_dict mappings)"
  proof
    show "seg_restored ?alts s = seg_restored (token_dict mappings) s" for s
      by (cases s) (simp_all add: map_of_sort_key [OF token_dict_keys(1)])
  qed
  with False sub_tokens_segments [OF alts assms(2)] show ?thesis by (simp add: demask_token_def)
qed

lemma token_dict_find:
  assumes "\<forall>m \<in> set mappings. token_shape (em_token m)" "distinct (map em_token mappings)"
  shows "map_of (token_dict mappings) t = map_option em_original (find (\<lambda>m. em_token m = t) mappings)"
proof (cases "find (\<lambda>m. em_token m = t) mappings")
  case None
  then have "t \<notin> fst ` set (token_dict mappings)" by (auto simp: token_dict_keys(2) find_None_iff)
  with None show ?thesis by (simp add: map_of_eq_None_iff)
next
  case (Some m)
  then have m: "m \<in> set mappings" "em_token m = t" using find_SomeD [OF Some] by simp_all
  have ne: "em_token m \<noteq> []" using assms(1) m(1) by (auto simp: token_shape_def)
  have "\<forall>m' \<in> set mappings. em_token m' = em_token m \<longrightarrow> em_original m' = em_original m"
    using assms(2) m(1) by (auto simp: distinct_map inj_on_def)
  from token_dict_lookup [OF m(1) ne this] m(2) Some show ?thesis by simp
qed

section \<open>Properties\<close>

text \<open>
  C23. Value-based demasking in TOKEN mode restores tokens wherever a language model moved them: in
  any text made of literal text without angle brackets and of tokens, each token of a mapping becomes
  the mapping's original, each unknown token and all literal text stays as it is.
\<close>

theorem demask_token_restores:
  assumes "\<forall>m \<in> set mappings. token_shape (em_token m)" "distinct (map em_token mappings)"
    and "\<forall>s \<in> set segs. seg_ok s"
  shows "demask U A (concat (map seg_text segs)) mappings TOKEN =
    concat (map (\<lambda>s. case s of
        Lit x \<Rightarrow> x
      | Tok t \<Rightarrow> (case find (\<lambda>m. em_token m = t) mappings of Some m \<Rightarrow> em_original m | None \<Rightarrow> t)) segs)"
proof -
  have "seg_restored (token_dict mappings) = (\<lambda>s. case s of Lit x \<Rightarrow> x
      | Tok t \<Rightarrow> (case find (\<lambda>m. em_token m = t) mappings of Some m \<Rightarrow> em_original m | None \<Rightarrow> t))"
  proof
    show "seg_restored (token_dict mappings) s = (case s of Lit x \<Rightarrow> x
      | Tok t \<Rightarrow> (case find (\<lambda>m. em_token m = t) mappings of Some m \<Rightarrow> em_original m | None \<Rightarrow> t))" for s
      by (cases s) (simp_all add: token_dict_find [OF assms(1,2)] split: option.splits)
  qed
  with demask_token_segments [OF assms(1,3)] show ?thesis by simp
qed

definition sample_mapping :: "str \<Rightarrow> str \<Rightarrow> str \<Rightarrow> entity_mapping" where
  "sample_mapping tok orig synth = \<lparr>em_entity_id = tok, em_type = EMAIL, em_original = orig, em_token = tok,
     em_synthetic = synth, em_partial = [], em_original_nominal = None, em_synthetic_nominal = None,
     em_grammatical_case = None, em_gender = None, em_aliases = [],
     em_metadata = \<lparr>mm_synthetic_fallback = False, mm_synthetic_identity = None,
       mm_original_identity = None, mm_alias_types = None\<rparr>\<rparr>"

lemma demask_token_restores_witness:
  "demask ucd_ru (\<lambda>_. []) (asc ''to <EMAIL_1> or <EMAIL_2>'')
     [sample_mapping (asc ''<EMAIL_1>'') (asc ''a@b.ru'') []] TOKEN = asc ''to a@b.ru or <EMAIL_2>''"
proof -
  have "token_shape (asc ''<EMAIL_1>'')" "token_shape (asc ''<EMAIL_2>'')"
    by (simp_all add: token_shape_def asc_def)
  then show ?thesis
    using demask_token_restores [of "[sample_mapping (asc ''<EMAIL_1>'') (asc ''a@b.ru'') []]"
      "[Lit (asc ''to ''), Tok (asc ''<EMAIL_1>''), Lit (asc '' or ''), Tok (asc ''<EMAIL_2>'')]" ucd_ru "\<lambda>_. []"]
    by (simp add: sample_mapping_def asc_def)
qed

text \<open>
  C24. Value-based demasking in SYNTHETIC mode rewrites whole words only and never twice: its result
  is the text with an ordered family of spans replaced that do not overlap, each of which is a
  whole-word occurrence of a surrogate of some mapping, replaced by that surrogate's original form;
  and every whole-word occurrence of a surrogate is replaced or overlaps a replaced one that is at
  least as long.
\<close>

theorem demask_synthetic_whole_words:
  assumes needles_def: "needles = concat (map (mapping_needles U A) mappings)"
  shows "\<exists>spans. spans_ok (length text) 0 spans \<and>
    demask U A text mappings SYNTHETIC = fst (splice_spans text spans) \<and>
    (\<forall>(s, e, r, x) \<in> set spans. \<exists>needle. (needle, r) \<in> set needles \<and> needle \<noteq> [] \<and>
       whole_word_at U text needle s \<and> e = s + length needle) \<and>
    (\<forall>(needle, r) \<in> set needles. \<forall>i. needle \<noteq> [] \<and> whole_word_at U text needle i \<longrightarrow>
       (\<exists>(s, e, r', x) \<in> set spans. overlaps (i, i + length needle) (s, e) \<and> length needle \<le> e - s))"
proof (intro exI conjI)
  let ?found = "find_all_spans U text needles"
  have good: "\<forall>s \<in> set ?found. good_span (length text) (ds_span s)"
    using find_all_spans_good by blast
  show "spans_ok (length text) 0 (applied_spans ?found)" by (rule applied_spans_ok [OF good])
  show "demask U A text mappings SYNTHETIC = fst (splice_spans text (applied_spans ?found))"
    using resolve_and_apply_splice [OF good] by (simp add: demask_synthetic_def needles_def)
  show "\<forall>(s, e, r, x) \<in> set (applied_spans ?found). \<exists>needle. (needle, r) \<in> set needles \<and> needle \<noteq> [] \<and>
       whole_word_at U text needle s \<and> e = s + length needle"
    using applied_spans_set demask_choice.chosen_subset [of ?found] find_all_spans_set [of _ U "text" needles]
    by fastforce
  show "\<forall>(needle, r) \<in> set needles. \<forall>i. needle \<noteq> [] \<and> whole_word_at U text needle i \<longrightarrow>
       (\<exists>(s, e, r', x) \<in> set (applied_spans ?found).
          overlaps (i, i + length needle) (s, e) \<and> length needle \<le> e - s)"
  proof (clarify)
    fix needle r i
    assume n: "(needle, r) \<in> set needles" "needle \<noteq> []" "whole_word_at U text needle i"
    define x where "x = (i, i + length needle, r)"
    have x: "x \<in> set ?found" using n by (auto simp: x_def find_all_spans_set)
    obtain y where y: "y \<in> set (choose_spans ?found)" "overlaps (ds_span x) (ds_span y)"
      "dspan_key y \<le> dspan_key x"
    proof (cases "x \<in> set (choose_spans ?found)")
      case True
      with n that [of x] show thesis by (simp add: x_def)
    next
      case False
      with demask_choice.dropped_blocked [OF x] that show thesis by blast
    qed
    then have "dspan_repl y \<in> set (applied_spans ?found)" by (simp add: applied_spans_def)
    moreover have "overlaps (i, i + length needle) (fst y, fst (snd y))" using y(2) by (simp add: x_def)
    moreover have "length needle \<le> fst (snd y) - fst y"
      using y(3) by (auto simp: x_def dspan_key_def less_eq_prod_def)
    ultimately show "\<exists>(s, e, r', x) \<in> set (applied_spans ?found).
        overlaps (i, i + length needle) (s, e) \<and> length needle \<le> e - s"
      by (intro bexI [of _ "dspan_repl y"]) (simp_all add: dspan_repl_def)
  qed
qed

lemma demask_synthetic_whole_words_witness:
  "\<exists>spans. spans_ok (length (asc ''write x@y.ru'')) 0 spans \<and>
    demask ucd_ru (\<lambda>_. []) (asc ''write x@y.ru'') [sample_mapping (asc ''<EMAIL_1>'') (asc ''a@b.ru'') (asc ''x@y.ru'')] SYNTHETIC =
      fst (splice_spans (asc ''write x@y.ru'') spans) \<and>
    (\<exists>(s, e, r', x) \<in> set spans. overlaps (6, 12) (s, e) \<and> 6 \<le> e - s)"
proof -
  let ?m = "sample_mapping (asc ''<EMAIL_1>'') (asc ''a@b.ru'') (asc ''x@y.ru'')"
  let ?n = "[(asc ''<EMAIL_1>'', asc ''a@b.ru''), (asc ''x@y.ru'', asc ''a@b.ru'')]"
  have n: "?n = concat (map (mapping_needles ucd_ru (\<lambda>_. [])) [?m])"
    by (simp add: mapping_needles_def sample_mapping_def is_name_type_def asc_def)
  have w: "whole_word_at ucd_ru (asc ''write x@y.ru'') (asc ''x@y.ru'') 6"
    by (simp add: whole_word_at_def word_bounded_def is_word_char_def ucd_ru_def ascii_class_defs asc_def slice_def)
  from demask_synthetic_whole_words [OF n, of "asc ''write x@y.ru''"] obtain spans where
    "spans_ok (length (asc ''write x@y.ru'')) 0 spans"
    "demask ucd_ru (\<lambda>_. []) (asc ''write x@y.ru'') [?m] SYNTHETIC = fst (splice_spans (asc ''write x@y.ru'') spans)"
    and all: "\<forall>(needle, r) \<in> set ?n. \<forall>i. needle \<noteq> [] \<and> whole_word_at ucd_ru (asc ''write x@y.ru'') needle i \<longrightarrow>
       (\<exists>(s, e, r', x) \<in> set spans. overlaps (i, i + length needle) (s, e) \<and> length needle \<le> e - s)"
    by (elim exE conjE)
  moreover have "\<exists>(s, e, r', x) \<in> set spans. overlaps (6, 12) (s, e) \<and> 6 \<le> e - s"
  proof -
    have "(asc ''x@y.ru'', asc ''a@b.ru'') \<in> set ?n" "asc ''x@y.ru'' \<noteq> []" "length (asc ''x@y.ru'') = 6"
      by (simp_all add: asc_def)
    with all w show ?thesis by fastforce
  qed
  ultimately show ?thesis by blast
qed

end
