(* ===== verification/Naming.thy ===== *)
theory Naming
  imports Demasker
begin

text \<open>
  \<^verbatim>\<open>entity_resolution/naming.py\<close>: roles of the words of a name mention, the kind of alias it
  is, and the rendering of a synthetic name in the exact layout of a mention. Rendering works from
  right to left on the components' offsets; the lemma at the end shows that this is splicing, so
  everything between the components is kept as it stands.
\<close>

fun grammeme_role :: "grammeme \<Rightarrow> role" where
  "grammeme_role GSurn = Surname"
| "grammeme_role GName = First"
| "grammeme_role GPatr = Patronymic"

definition find_index :: "('a \<Rightarrow> bool) \<Rightarrow> 'a list \<Rightarrow> nat option" where
  "find_index P xs = map_option fst (find (\<lambda>(i, x). P x) (enumerate 0 xs))"

text \<open>\<open>labels\<close> has \<open>word_count\<close> entries in every call.\<close>

definition assign_roles :: "grammeme option list \<Rightarrow> nat \<Rightarrow> role option list" where
  "assign_roles labels word_count =
     (let roles = map (map_option grammeme_role) labels;
          taken = filter (\<lambda>r. r \<noteq> None) roles
      in if distinct taken \<and> list_all (\<lambda>r. r \<noteq> None) roles then roles
         else
           (let patr_idx = find_index (\<lambda>r. r = Some Patronymic) roles in
            if word_count = 3 then
              (if patr_idx = Some 1 then [Some First, Some Patronymic, Some Surname]
               else [Some Surname, Some First, Some Patronymic])
            else if word_count = 2 then
              (case patr_idx of
                 Some i \<Rightarrow> [None, None][i := Some Patronymic, 1 - i := Some First]
               | None \<Rightarrow>
                   if roles ! 0 = Some Surname \<and> roles ! 1 \<noteq> Some Surname
                   then [Some Surname, Some First]
                   else [Some First, Some Surname])
            else roles))"

definition ALIAS_FULL :: str where "ALIAS_FULL = asc ''FULL''"
definition ALIAS_NAME_SURNAME :: str where "ALIAS_NAME_SURNAME = asc ''NAME_SURNAME''"
definition ALIAS_NAME_PATRONYMIC :: str where "ALIAS_NAME_PATRONYMIC = asc ''NAME_PATRONYMIC''"
definition ALIAS_SURNAME_INITIALS :: str where "ALIAS_SURNAME_INITIALS = asc ''SURNAME_INITIALS''"

definition alias_type_for :: "name_component list \<Rightarrow> str" where
  "alias_type_for components =
     (let word_comps = filter (\<lambda>c. nc_kind c = WordComp) components in
      if InitialComp \<in> set (map nc_kind components) then ALIAS_SURNAME_INITIALS
      else if length word_comps \<ge> 3 then ALIAS_FULL
      else if Some Patronymic \<in> set (map nc_role word_comps) then ALIAS_NAME_PATRONYMIC
      else ALIAS_NAME_SURNAME)"

text \<open>The replacement of one component; an unresolved role or a missing part raises.\<close>

definition component_replacement ::
  "ucd \<Rightarrow> analyzer \<Rightarrow> name_identity \<Rightarrow> str \<Rightarrow> str \<Rightarrow> name_component \<Rightarrow> str result" where
  "component_replacement U A synthetic_identity case_name gender cmp =
     (case nc_role cmp of
        None \<Rightarrow> Inl ValueError
      | Some role \<Rightarrow>
          (case ni_part role synthetic_identity of
             Some (c # cs) \<Rightarrow>
               Inr (if nc_kind cmp = InitialComp then [c] @ asc ''.''
                    else inflect_word U A (c # cs) case_name (Some gender))
           | _ \<Rightarrow> Inl ValueError))"

fun render_components ::
  "ucd \<Rightarrow> analyzer \<Rightarrow> name_identity \<Rightarrow> str \<Rightarrow> str \<Rightarrow> str \<Rightarrow> name_component list \<Rightarrow> str result" where
  "render_components U A synthetic_identity case_name gender res [] = Inr res"
| "render_components U A synthetic_identity case_name gender res (cmp # comps) =
     (case component_replacement U A synthetic_identity case_name gender cmp of
        Inl e \<Rightarrow> Inl e
      | Inr replacement \<Rightarrow>
          render_components U A synthetic_identity case_name gender
            (take (nc_offset_start cmp) res @ replacement @ drop (nc_offset_end cmp) res) comps)"

definition render_like_mention ::
  "ucd \<Rightarrow> analyzer \<Rightarrow> str \<Rightarrow> name_component list \<Rightarrow> name_identity \<Rightarrow> str \<Rightarrow> str \<Rightarrow> str result" where
  "render_like_mention U A mention_value components synthetic_identity case_name gender =
     render_components U A synthetic_identity case_name gender mention_value
       (sort_key (\<lambda>c. - int (nc_offset_start c)) components)"

definition normalized_word :: "ucd \<Rightarrow> analyzer \<Rightarrow> str \<Rightarrow> str option \<Rightarrow> str" where
  "normalized_word U A word gender = u_lower U (normalize_to_nominative U A word gender)"

section \<open>Roles\<close>

text \<open>Two or three words always get distinct roles, whatever the dictionary says about them.\<close>

lemma find_index_less: "find_index P xs = Some i \<Longrightarrow> i < length xs \<and> P (xs ! i)"
  by (auto simp: find_index_def in_set_enumerate_eq dest!: find_SomeD)

lemma assign_roles_complete:
  assumes "length labels = n" "n = 2 \<or> n = 3"
  shows "length (assign_roles labels n) = n \<and> distinct (assign_roles labels n) \<and> None \<notin> set (assign_roles labels n)"
proof (cases "distinct (filter (\<lambda>r. r \<noteq> None) (map (map_option grammeme_role) labels)) \<and>
    list_all (\<lambda>r. r \<noteq> None) (map (map_option grammeme_role) labels)")
  case True
  then have "filter (\<lambda>r. r \<noteq> None) (map (map_option grammeme_role) labels) = map (map_option grammeme_role) labels"
    by (simp add: list_all_iff)
  with True assms show ?thesis by (auto simp: assign_roles_def Let_def list_all_iff)
next
  case False
  have two: "i < 2 \<Longrightarrow> i = 0 \<or> i = Suc 0" for i :: nat by auto
  from assms(2) show ?thesis
  proof
    assume "n = 3"
    with False show ?thesis by (auto simp: assign_roles_def Let_def)
  next
    assume n: "n = 2"
    show ?thesis
    proof (cases "find_index (\<lambda>r. r = Some Patronymic) (map (map_option grammeme_role) labels)")
      case None
      with False n show ?thesis by (auto simp: assign_roles_def Let_def)
    next
      case (Some i)
      then have "i = 0 \<or> i = Suc 0" using find_index_less [OF Some] two assms(1) n by simp
      with Some False n show ?thesis by (auto simp: assign_roles_def Let_def)
    qed
  qed
qed

section \<open>Rendering is splicing\<close>

definition comp_span :: "str \<Rightarrow> name_component \<Rightarrow> dspan" where
  "comp_span replacement cmp = (nc_offset_start cmp, nc_offset_end cmp, replacement)"

lemma render_components_replace:
  assumes "render_components U A identity case_name gender res comps = Inr out"
  obtains spans where "out = replace_spans res spans"
    "map ds_span spans = map (\<lambda>c. (nc_offset_start c, nc_offset_end c)) comps"
proof -
  have "\<exists>spans. out = replace_spans res spans \<and>
      map ds_span spans = map (\<lambda>c. (nc_offset_start c, nc_offset_end c)) comps"
    using assms
  proof (induction comps arbitrary: res)
    case (Cons c comps)
    from Cons.prems obtain r where r: "component_replacement U A identity case_name gender c = Inr r"
      "render_components U A identity case_name gender
        (take (nc_offset_start c) res @ r @ drop (nc_offset_end c) res) comps = Inr out"
      by (auto split: sum.splits)
    from Cons.IH [OF r(2)] obtain spans where
      "out = replace_spans (take (nc_offset_start c) res @ r @ drop (nc_offset_end c) res) spans"
      "map ds_span spans = map (\<lambda>c. (nc_offset_start c, nc_offset_end c)) comps" by blast
    then show ?case by (intro exI [of _ "(nc_offset_start c, nc_offset_end c, r) # spans"]) simp
  qed simp
  with that show thesis by blast
qed

text \<open>
  Components in text order that do not overlap: the rendered mention is the mention with exactly
  the components replaced.
\<close>

lemma render_like_mention_splice:
  assumes "render_like_mention U A v comps identity case_name gender = Inr out"
    and "distinct (map nc_offset_start comps)"
    and "span_chain (length v) 0 (map (\<lambda>c. (nc_offset_start c, nc_offset_end c)) (sort_key nc_offset_start comps))"
  shows "\<exists>spans. spans_ok (length v) 0 spans \<and> out = fst (splice_spans v spans) \<and>
    map (\<lambda>s. (rs_start s, rs_end s)) spans =
      map (\<lambda>c. (nc_offset_start c, nc_offset_end c)) (sort_key nc_offset_start comps)"
proof -
  have rev: "sort_key (\<lambda>c. - int (nc_offset_start c)) comps = rev (sort_key nc_offset_start comps)"
    by (rule sort_key_neg [OF assms(2)])
  obtain spans where spans: "out = replace_spans v spans"
    "map ds_span spans = map (\<lambda>c. (nc_offset_start c, nc_offset_end c)) (rev (sort_key nc_offset_start comps))"
    using assms(1) by (auto simp: render_like_mention_def rev elim: render_components_replace)
  define xs where "xs = rev spans"
  have xs: "spans = rev xs" "map ds_span xs = map (\<lambda>c. (nc_offset_start c, nc_offset_end c)) (sort_key nc_offset_start comps)"
    using spans(2) by (simp_all add: xs_def rev_map [symmetric])
  have chain: "span_chain (length v) 0 (map ds_span xs)" using assms(3) xs(2) by simp
  have "map (\<lambda>s. (rs_start s, rs_end s)) (map dspan_repl xs) = map ds_span xs"
    by (simp add: dspan_repl_def)
  moreover have "out = fst (splice_spans v (map dspan_repl xs))"
    using replace_spans_rev [OF chain, of 0] spans(1) xs(1) by (simp add: splice_spans_text)
  ultimately show ?thesis
    using chain xs(2) by (intro exI [of _ "map dspan_repl xs"]) (simp add: spans_ok_span_chain)
qed

end
