(* ===== verification/Resolver.thy ===== *)
theory Resolver
  imports Naming
begin

text \<open>
  \<^verbatim>\<open>entity_resolution/resolver.py\<close>: which mentions of a text name the same person. The source
  compares and mutates objects; here a decision is known by its position in the batch, so a person
  lists positions, and the roles that the resolver writes into the components of a mention are
  returned as updates for the positions. Dictionaries are association lists in insertion order. The
  lemmas show that the persons partition the mentions, and that a mention joins a person only on a
  matching surname and further evidence, with nothing known about the person contradicting it.
\<close>

record resolved_person =
  rp_ordinal :: nat
  rp_decisions :: "nat list"
  rp_parts :: "(role \<times> str) list"
  rp_surfaces :: "(role \<times> str) list"
  rp_gender :: "str option"
  rp_alias_types :: "str list"

definition part_or_empty :: "(role \<times> str) list \<Rightarrow> role \<Rightarrow> str" where
  "part_or_empty parts r = (case map_of parts r of Some w \<Rightarrow> w | None \<Rightarrow> [])"

definition person_key :: "resolved_person \<Rightarrow> str" where
  "person_key p =
     asc ''person:'' @
     str_join (asc ''|'') (map (part_or_empty (rp_parts p)) [Surname, First, Patronymic]) @
     asc ''#'' @ nat_str (rp_ordinal p)"

definition person_nominal :: "resolved_person \<Rightarrow> str" where
  "person_nominal p =
     str_join (asc '' '')
       (List.map_filter (map_of (rp_surfaces p)) [Surname, First, Patronymic])"

definition mention_words :: "name_component list \<Rightarrow> name_component list" where
  "mention_words components =
     filter (\<lambda>c. nc_kind c = WordComp \<and> truthy (nc_normalized c)) components"

definition mention_initials :: "name_component list \<Rightarrow> name_component list" where
  "mention_initials components = filter (\<lambda>c. nc_kind c = InitialComp) components"

definition gender_conflict :: "str option \<Rightarrow> str option \<Rightarrow> bool" where
  "gender_conflict a b \<longleftrightarrow> a \<noteq> None \<and> b \<noteq> None \<and> a \<noteq> b"

section \<open>Matching a mention against a person\<close>

record match_state =
  ms_assignment :: "(nat \<times> role) list"
  ms_matched :: "role list"
  ms_new_info :: "(nat \<times> role) list"

text \<open>\<open>components.index(comp)\<close>: the first equal component; the callers pass members only.\<close>

definition index_of :: "'a list \<Rightarrow> 'a \<Rightarrow> nat" where
  "index_of xs x = length (takeWhile (\<lambda>y. y \<noteq> x) xs)"

definition take_role :: "nat \<Rightarrow> role \<Rightarrow> match_state \<Rightarrow> match_state" where
  "take_role idx r st = st\<lparr>ms_assignment := AList.update idx r (ms_assignment st),
     ms_matched := r # ms_matched st\<rparr>"

definition assign_word ::
  "(role \<times> str) list \<Rightarrow> name_component \<Rightarrow> nat \<Rightarrow> match_state \<Rightarrow> match_state option" where
  "assign_word parts cmp idx st =
     (case nc_role cmp of
        Some r \<Rightarrow>
          if r \<in> set (ms_matched st) then None
          else (case map_of parts r of
                  Some w \<Rightarrow> if Some w \<noteq> nc_normalized cmp then None else Some (take_role idx r st)
                | None \<Rightarrow> Some (st\<lparr>ms_new_info := AList.update idx r (ms_new_info st)\<rparr>))
      | None \<Rightarrow>
          (case find (\<lambda>(r, w). Some w = nc_normalized cmp \<and> r \<notin> set (ms_matched st)) parts of
             Some (r, w) \<Rightarrow> Some (take_role idx r st)
           | None \<Rightarrow> None))"

fun match_words ::
  "(role \<times> str) list \<Rightarrow> name_component list \<Rightarrow> name_component list \<Rightarrow> match_state \<Rightarrow> match_state option" where
  "match_words parts components [] st = Some st"
| "match_words parts components (cmp # rest) st =
     (case assign_word parts cmp (index_of components cmp) st of
        None \<Rightarrow> None
      | Some st' \<Rightarrow> match_words parts components rest st')"

text \<open>Initials stand for the first name and the patronymic, in this order; a third one is refused.\<close>

fun match_initials ::
  "ucd \<Rightarrow> (role \<times> str) list \<Rightarrow> name_component list \<Rightarrow> role list \<Rightarrow> name_component list
   \<Rightarrow> (nat \<times> role) list \<Rightarrow> (nat \<times> role) list option" where
  "match_initials U parts components expected [] assignment = Some assignment"
| "match_initials U parts components [] (cmp # rest) assignment = None"
| "match_initials U parts components (r # expected) (cmp # rest) assignment =
     (case (map_of parts r, nc_letter cmp) of
        (Some (k # ks), Some letter) \<Rightarrow>
          if u_upper U [k] \<noteq> u_upper U letter then None
          else match_initials U parts components expected rest
                 (AList.update (index_of components cmp) r assignment)
      | _ \<Rightarrow> None)"

definition no_match :: match_state where
  "no_match = \<lparr>ms_assignment = [], ms_matched = [], ms_new_info = []\<rparr>"

definition compatible ::
  "ucd \<Rightarrow> resolved_person \<Rightarrow> name_component list \<Rightarrow> str option \<Rightarrow> (nat \<times> role) list option" where
  "compatible U person components gender =
     (if gender_conflict (rp_gender person) gender then None
      else
        (let ws = mention_words components; initials = mention_initials components in
         case match_words (rp_parts person) components ws no_match of
           None \<Rightarrow> None
         | Some st \<Rightarrow>
             if Surname \<notin> set (ms_matched st) then None
             else if initials \<noteq> []
             then match_initials U (rp_parts person) components [First, Patronymic] initials (ms_assignment st)
             else if ws = [] \<or> (First \<notin> set (ms_matched st) \<and> Patronymic \<notin> set (ms_matched st)) then None
             else Some (foldl (\<lambda>d (k, v). AList.update k v d) (ms_assignment st) (ms_new_info st))))"

section \<open>Absorbing a mention\<close>

definition absorb_word :: "ucd \<Rightarrow> resolved_person \<Rightarrow> name_component \<Rightarrow> resolved_person" where
  "absorb_word U p cmp =
     (case (nc_role cmp, nc_normalized cmp) of
        (Some r, Some w) \<Rightarrow>
          if map_of (rp_parts p) r = None
          then p\<lparr>rp_parts := rp_parts p @ [(r, w)], rp_surfaces := AList.update r (u_capitalize U w) (rp_surfaces p)\<rparr>
          else p
      | _ \<Rightarrow> p)"

definition absorb ::
  "ucd \<Rightarrow> resolved_person \<Rightarrow> nat \<Rightarrow> name_component list \<Rightarrow> str option \<Rightarrow> str \<Rightarrow> resolved_person" where
  "absorb U p i components gender alias_type =
     (let p1 = p\<lparr>rp_decisions := rp_decisions p @ [i],
                rp_alias_types := List.insert alias_type (rp_alias_types p),
                rp_gender := (if rp_gender p = None \<and> truthy gender then gender else rp_gender p)\<rparr>
      in foldl (absorb_word U) p1 (mention_words components))"

fun annotate_roles :: "name_component list \<Rightarrow> (nat \<times> role) list \<Rightarrow> name_component list" where
  "annotate_roles components [] = components"
| "annotate_roles components ((idx, r) # rest) =
     annotate_roles (components[idx := (components ! idx)\<lparr>nc_role := Some r\<rparr>]) rest"

definition new_person :: "nat \<Rightarrow> str option \<Rightarrow> resolved_person" where
  "new_person ordinal gender = \<lparr>rp_ordinal = ordinal, rp_decisions = [], rp_parts = [],
     rp_surfaces = [], rp_gender = gender, rp_alias_types = []\<rparr>"

type_synonym idecision = "nat \<times> privacy_decision"

definition name_parts_of :: "privacy_decision \<Rightarrow> name_component list" where
  "name_parts_of d = (case md_name_parts (c_metadata (d_candidate d)) of Some cs \<Rightarrow> cs | None \<Rightarrow> [])"

definition person_matches ::
  "ucd \<Rightarrow> resolved_person list \<Rightarrow> name_component list \<Rightarrow> str option \<Rightarrow> (nat \<times> (nat \<times> role) list) list" where
  "person_matches U persons components gender =
     List.map_filter (\<lambda>(k, p). map_option (Pair k) (compatible U p components gender)) (enumerate 0 persons)"

text \<open>One iteration: the persons after it, and the roles written into the mention's components.\<close>

definition resolve_one ::
  "ucd \<Rightarrow> idecision \<Rightarrow> resolved_person list \<Rightarrow> resolved_person list \<times> name_component list" where
  "resolve_one U dec persons =
     (let (i, d) = dec;
          meta = c_metadata (d_candidate d);
          components = name_parts_of d;
          gender = md_gender meta;
          alias_type = or_else (md_alias_type meta) (asc ''FULL'')
      in case person_matches U persons components gender of
           [(k, assignment)] \<Rightarrow>
             (let annotated = annotate_roles components assignment in
              (persons[k := absorb U (persons ! k) i annotated gender alias_type], annotated))
         | _ \<Rightarrow>
             (persons @ [absorb U (new_person (length persons + 1) gender) i components gender alias_type],
              components))"

fun resolve_loop ::
  "ucd \<Rightarrow> idecision list \<Rightarrow> resolved_person list \<Rightarrow> (nat \<times> name_component list) list
   \<Rightarrow> resolved_person list \<times> (nat \<times> name_component list) list" where
  "resolve_loop U [] persons ann = (persons, ann)"
| "resolve_loop U (dec # decs) persons ann =
     (case resolve_one U dec persons of
        (persons', components) \<Rightarrow> resolve_loop U decs persons' (ann @ [(fst dec, components)]))"

definition resolve_person_entities ::
  "ucd \<Rightarrow> idecision list \<Rightarrow> resolved_person list \<times> (nat \<times> name_component list) list" where
  "resolve_person_entities U decisions =
     resolve_loop U (sort_key (\<lambda>(i, d). c_start (d_candidate d)) decisions) [] []"

section \<open>Persons partition the mentions\<close>

lemma absorb_word_frame [simp]:
  "rp_ordinal (absorb_word U p c) = rp_ordinal p" "rp_decisions (absorb_word U p c) = rp_decisions p"
  "rp_gender (absorb_word U p c) = rp_gender p" "rp_alias_types (absorb_word U p c) = rp_alias_types p"
  by (simp_all add: absorb_word_def split: option.splits)

lemma absorb_words_frame:
  "rp_ordinal (foldl (absorb_word U) p cs) = rp_ordinal p \<and> rp_decisions (foldl (absorb_word U) p cs) = rp_decisions p \<and>
   rp_gender (foldl (absorb_word U) p cs) = rp_gender p"
  by (induction cs arbitrary: p) auto

lemma absorb_frame [simp]:
  "rp_ordinal (absorb U p i cs g a) = rp_ordinal p" "rp_decisions (absorb U p i cs g a) = rp_decisions p @ [i]"
  by (simp_all add: absorb_def Let_def absorb_words_frame)

definition persons_ok :: "resolved_person list \<Rightarrow> bool" where
  "persons_ok ps \<longleftrightarrow> map rp_ordinal ps = map Suc [0..<length ps]"

definition all_decisions :: "resolved_person list \<Rightarrow> nat list" where
  "all_decisions ps = concat (map rp_decisions ps)"

lemma person_matches_less: "(k, a) \<in> set (person_matches U ps cs g) \<Longrightarrow> k < length ps \<and> compatible U (ps ! k) cs g = Some a"
  by (auto simp: person_matches_def List.map_filter_def in_set_enumerate_eq)

lemma mset_concat_update:
  "k < length ps \<Longrightarrow> rp_decisions p = rp_decisions (ps ! k) @ [i] \<Longrightarrow>
   mset (all_decisions (ps[k := p])) = add_mset i (mset (all_decisions ps))"
proof (induction ps arbitrary: k)
  case (Cons q ps)
  then show ?case by (cases k) (auto simp: all_decisions_def)
qed simp

lemma resolve_one_ok:
  assumes "persons_ok ps" "resolve_one U (i, d) ps = (ps', cs)"
  shows "persons_ok ps' \<and> mset (all_decisions ps') = add_mset i (mset (all_decisions ps))"
proof -
  let ?g = "md_gender (c_metadata (d_candidate d))"
  let ?m = "person_matches U ps (name_parts_of d) ?g"
  show ?thesis
  proof (cases "\<exists>k a. ?m = [(k, a)]")
    case True
    then obtain k a where m: "?m = [(k, a)]" by blast
    then have k: "k < length ps" using person_matches_less [of k a U ps "name_parts_of d" ?g] by simp
    from assms(2) m obtain q where q: "ps' = ps[k := q]" "rp_ordinal q = rp_ordinal (ps ! k)"
      "rp_decisions q = rp_decisions (ps ! k) @ [i]"
      by (auto simp: resolve_one_def Let_def)
    have "map rp_ordinal (ps[k := q]) = map rp_ordinal ps"
      using k q(2) by (metis list_update_id map_update nth_map)
    with q k assms(1) mset_concat_update [OF k q(3)] show ?thesis by (simp add: persons_ok_def)
  next
    case False
    then have "\<exists>q. ps' = ps @ [q] \<and> rp_ordinal q = length ps + 1 \<and> rp_decisions q = [i]"
      using assms(2) by (auto simp: resolve_one_def Let_def new_person_def split: list.splits prod.splits)
    with assms(1) show ?thesis by (auto simp: persons_ok_def all_decisions_def)
  qed
qed

lemma resolve_loop_ok:
  assumes "persons_ok ps" "resolve_loop U decs ps ann = (ps', ann')"
  shows "persons_ok ps' \<and> mset (all_decisions ps') = mset (all_decisions ps) + mset (map fst decs) \<and>
    map fst ann' = map fst ann @ map fst decs"
  using assms
proof (induction decs arbitrary: ps ann)
  case (Cons dec decs)
  obtain i d where dec: "dec = (i, d)" by force
  obtain ps1 cs where one: "resolve_one U dec ps = (ps1, cs)" by force
  with resolve_one_ok [OF Cons.prems(1)] dec have ok: "persons_ok ps1"
    "mset (all_decisions ps1) = add_mset i (mset (all_decisions ps))" by auto
  from Cons.IH [OF ok(1)] Cons.prems(2) one ok(2) dec show ?case by simp
qed simp

lemma resolve_person_entities_ok:
  assumes "resolve_person_entities U decs = (ps, ann)"
  shows "persons_ok ps \<and> mset (all_decisions ps) = mset (map fst decs)"
  using resolve_loop_ok [of "[]" U] assms
  by (auto simp: resolve_person_entities_def persons_ok_def all_decisions_def)

section \<open>Evidence for a merge\<close>

text \<open>Some full word of the mention is the person's known part of that role.\<close>

definition word_evidence :: "(role \<times> str) list \<Rightarrow> name_component list \<Rightarrow> role \<Rightarrow> bool" where
  "word_evidence parts ws r \<longleftrightarrow> (\<exists>c \<in> set ws. \<exists>w. map_of parts r = Some w \<and> nc_normalized c = Some w)"

text \<open>No full word contradicts what is known: a labelled word agrees with the known part of its role.\<close>

definition no_contradiction :: "(role \<times> str) list \<Rightarrow> name_component list \<Rightarrow> bool" where
  "no_contradiction parts ws \<longleftrightarrow>
     (\<forall>c \<in> set ws. \<forall>r w. nc_role c = Some r \<longrightarrow> map_of parts r = Some w \<longrightarrow> nc_normalized c = Some w)"

text \<open>Each initial is the first letter of the part it stands for.\<close>

definition initials_agree :: "ucd \<Rightarrow> (role \<times> str) list \<Rightarrow> name_component list \<Rightarrow> bool" where
  "initials_agree U parts initials \<longleftrightarrow> length initials \<le> 2 \<and>
     list_all2 (\<lambda>c r. \<exists>k ks l. map_of parts r = Some (k # ks) \<and> nc_letter c = Some l \<and> u_upper U [k] = u_upper U l)
       initials (take (length initials) [First, Patronymic])"

lemma assign_word_matched:
  assumes "assign_word parts c idx st = Some st'" "distinct (map fst parts)"
  shows "ms_matched st' = ms_matched st \<or>
    (\<exists>r w. ms_matched st' = r # ms_matched st \<and> map_of parts r = Some w \<and> nc_normalized c = Some w)"
  using assms
  by (auto simp: assign_word_def take_role_def map_of_eq_Some_iff eq_commute [of "Some _" "nc_normalized c"]
      split: option.splits if_splits dest!: find_SomeD)

lemma assign_word_agrees:
  assumes "assign_word parts c idx st = Some st'" "nc_role c = Some r" "map_of parts r = Some w"
  shows "nc_normalized c = Some w"
  using assms by (auto simp: assign_word_def split: if_splits)

lemma match_words_evidence:
  assumes "match_words parts comps ws st = Some st'" "distinct (map fst parts)"
  shows "(\<forall>r \<in> set (ms_matched st'). r \<in> set (ms_matched st) \<or> word_evidence parts ws r) \<and>
    no_contradiction parts ws"
  using assms(1)
proof (induction ws arbitrary: st)
  case (Cons c ws)
  then obtain st1 where st1: "assign_word parts c (index_of comps c) st = Some st1"
    "match_words parts comps ws st1 = Some st'" by (auto split: option.splits)
  from Cons.IH [OF st1(2)] assign_word_matched [OF st1(1) assms(2)] assign_word_agrees [OF st1(1)]
  show ?case by (fastforce simp: word_evidence_def no_contradiction_def)
qed (simp add: no_contradiction_def)

lemma match_initials_agree:
  assumes "match_initials U parts comps expected initials a = Some a'"
  shows "length initials \<le> length expected \<and>
    list_all2 (\<lambda>c r. \<exists>k ks l. map_of parts r = Some (k # ks) \<and> nc_letter c = Some l \<and> u_upper U [k] = u_upper U l)
      initials (take (length initials) expected)"
  using assms
  by (induction U parts comps expected initials a rule: match_initials.induct)
    (auto split: option.splits list.splits if_splits)

lemma compatible_evidence:
  assumes "compatible U p comps g = Some a" "distinct (map fst (rp_parts p))"
  shows "\<not> gender_conflict (rp_gender p) g \<and>
    word_evidence (rp_parts p) (mention_words comps) Surname \<and>
    no_contradiction (rp_parts p) (mention_words comps) \<and>
    (if mention_initials comps = []
     then word_evidence (rp_parts p) (mention_words comps) First \<or>
          word_evidence (rp_parts p) (mention_words comps) Patronymic
     else initials_agree U (rp_parts p) (mention_initials comps))"
proof -
  from assms(1) obtain st where st: "match_words (rp_parts p) comps (mention_words comps) no_match = Some st"
    "\<not> gender_conflict (rp_gender p) g" "Surname \<in> set (ms_matched st)"
    "mention_initials comps = [] \<longrightarrow> First \<in> set (ms_matched st) \<or> Patronymic \<in> set (ms_matched st)"
    "mention_initials comps \<noteq> [] \<longrightarrow>
       match_initials U (rp_parts p) comps [First, Patronymic] (mention_initials comps) (ms_assignment st) = Some a"
    by (auto simp: compatible_def Let_def split: if_splits option.splits)
  from match_words_evidence [OF st(1) assms(2)]
  have ev: "\<forall>r \<in> set (ms_matched st). word_evidence (rp_parts p) (mention_words comps) r"
    "no_contradiction (rp_parts p) (mention_words comps)" by (auto simp: no_match_def)
  have "mention_initials comps \<noteq> [] \<Longrightarrow> initials_agree U (rp_parts p) (mention_initials comps)"
    using st(5) match_initials_agree [of U "rp_parts p" comps "[First, Patronymic]" "mention_initials comps" "ms_assignment st" a]
    by (simp add: initials_agree_def)
  with ev st show ?thesis by auto
qed

text \<open>What is known about a person is never overwritten.\<close>

lemma absorb_word_parts:
  "distinct (map fst (rp_parts p)) \<Longrightarrow>
   distinct (map fst (rp_parts (absorb_word U p c))) \<and> map_of (rp_parts p) \<subseteq>\<^sub>m map_of (rp_parts (absorb_word U p c))"
  by (force simp: absorb_word_def map_le_def map_add_def map_of_eq_None_iff split: option.splits)

lemma absorb_words_parts:
  "distinct (map fst (rp_parts p)) \<Longrightarrow>
   distinct (map fst (rp_parts (foldl (absorb_word U) p cs))) \<and>
   map_of (rp_parts p) \<subseteq>\<^sub>m map_of (rp_parts (foldl (absorb_word U) p cs))"
proof (induction cs arbitrary: p)
  case (Cons c cs)
  from absorb_word_parts [OF Cons.prems, of U c] Cons.IH [of "absorb_word U p c"] show ?case
    by (auto intro: map_le_trans)
qed simp

lemma absorb_parts:
  "distinct (map fst (rp_parts p)) \<Longrightarrow>
   distinct (map fst (rp_parts (absorb U p i cs g a))) \<and> map_of (rp_parts p) \<subseteq>\<^sub>m map_of (rp_parts (absorb U p i cs g a))"
  using absorb_words_parts [of "p\<lparr>rp_decisions := rp_decisions p @ [i],
      rp_alias_types := List.insert a (rp_alias_types p),
      rp_gender := (if rp_gender p = None \<and> truthy g then g else rp_gender p)\<rparr>"]
  by (simp add: absorb_def Let_def)

definition parts_distinct :: "resolved_person list \<Rightarrow> bool" where
  "parts_distinct ps \<longleftrightarrow> (\<forall>p \<in> set ps. distinct (map fst (rp_parts p)))"

lemma resolve_one_parts_distinct:
  assumes "parts_distinct ps" "resolve_one U dec ps = (ps', cs)"
  shows "parts_distinct ps'"
proof -
  obtain i d where dec: "dec = (i, d)" by force
  let ?m = "person_matches U ps (name_parts_of d) (md_gender (c_metadata (d_candidate d)))"
  have new: "distinct (map fst (rp_parts (absorb U (new_person n g) i c g' a)))" for n g c g' a
    by (rule conjunct1 [OF absorb_parts]) (simp add: new_person_def)
  show ?thesis
  proof (cases "\<exists>k a. ?m = [(k, a)]")
    case True
    then obtain k a where m: "?m = [(k, a)]" by blast
    then have k: "k < length ps" using person_matches_less [of k a] by (metis list.set_intros(1))
    from assms(2) m obtain c g t where "ps' = ps[k := absorb U (ps ! k) i c g t]"
      by (auto simp: resolve_one_def dec Let_def)
    moreover have "distinct (map fst (rp_parts (absorb U (ps ! k) i c g t)))"
      by (rule conjunct1 [OF absorb_parts]) (use assms(1) k in \<open>simp add: parts_distinct_def\<close>)
    ultimately show ?thesis using assms(1) by (auto simp: parts_distinct_def dest!: set_update_subset_insert [THEN subsetD])
  next
    case False
    with assms new show ?thesis
      by (auto simp: resolve_one_def dec Let_def parts_distinct_def split: list.splits prod.splits)
  qed
qed

section \<open>Properties\<close>

text \<open>
  C27. Entity resolution partitions the name mentions: every mention belongs to exactly one person,
  and the persons are numbered from 1 in the order of their first mention.
\<close>

theorem resolve_person_entities_partition:
  assumes "resolve_person_entities U decs = (ps, ann)"
  shows "mset (concat (map rp_decisions ps)) = mset (map fst decs) \<and>
    map rp_ordinal ps = map Suc [0..<length ps]"
  using resolve_person_entities_ok [OF assms] by (simp add: persons_ok_def all_decisions_def)

definition sample_word :: "str \<Rightarrow> role \<Rightarrow> nat \<Rightarrow> name_component" where
  "sample_word w r i = \<lparr>nc_kind = WordComp, nc_surface = w, nc_offset_start = i, nc_offset_end = i + length w,
     nc_role = Some r, nc_normalized = Some w, nc_letter = None\<rparr>"

definition sample_mention :: "name_component list \<Rightarrow> nat \<Rightarrow> privacy_decision" where
  "sample_mention cs i = \<lparr>d_candidate = \<lparr>c_type = FULL_NAME, c_value = [], c_start = i, c_end = i + 9,
     c_detector = [], c_confidence = 1,
     c_metadata = no_metadata\<lparr>md_name_parts := Some cs, md_gender := Some masc\<rparr>\<rparr>,
     d_decision = MASK, d_confidence = 1, d_reasons = []\<rparr>"

lemma resolve_person_entities_partition_witness:
  "let (ps, ann) = resolve_person_entities ucd_ru
         [(0, sample_mention [sample_word [1] First 0, sample_word [2] Surname 3] 10),
          (1, sample_mention [sample_word [1] First 0, sample_word [2] Surname 3] 30),
          (2, sample_mention [sample_word [5] First 0, sample_word [2] Surname 3] 50)]
   in mset (concat (map rp_decisions ps)) = mset [0, 1, 2]"
  using resolve_person_entities_partition [of ucd_ru
      "[(0, sample_mention [sample_word [1] First 0, sample_word [2] Surname 3] 10),
        (1, sample_mention [sample_word [1] First 0, sample_word [2] Surname 3] 30),
        (2, sample_mention [sample_word [5] First 0, sample_word [2] Surname 3] 50)]"]
  by (simp split: prod.splits)

text \<open>
  C28. A false merge needs matching evidence: a mention joins an existing person only if their
  genders do not conflict, a full word equals the person's known surname, no labelled word contradicts
  a known part, and a full word equals the known first name or patronymic, or, for a mention with
  initials, each initial is the first letter of the known part it stands for. A surname alone is
  never enough; nothing known about the person is overwritten by the merge.
\<close>

theorem merge_needs_evidence:
  assumes "parts_distinct ps" "resolve_one U (i, d) ps = (ps', cs)" "k < length ps" "i \<in> set (rp_decisions (ps' ! k))"
    and "i \<notin> set (rp_decisions (ps ! k))"
  shows "\<not> gender_conflict (rp_gender (ps ! k)) (md_gender (c_metadata (d_candidate d))) \<and>
    word_evidence (rp_parts (ps ! k)) (mention_words (name_parts_of d)) Surname \<and>
    no_contradiction (rp_parts (ps ! k)) (mention_words (name_parts_of d)) \<and>
    (if mention_initials (name_parts_of d) = []
     then word_evidence (rp_parts (ps ! k)) (mention_words (name_parts_of d)) First \<or>
          word_evidence (rp_parts (ps ! k)) (mention_words (name_parts_of d)) Patronymic
     else initials_agree U (rp_parts (ps ! k)) (mention_initials (name_parts_of d))) \<and>
    map_of (rp_parts (ps ! k)) \<subseteq>\<^sub>m map_of (rp_parts (ps' ! k))"
proof -
  let ?m = "person_matches U ps (name_parts_of d) (md_gender (c_metadata (d_candidate d)))"
  have dist: "distinct (map fst (rp_parts (ps ! k)))" using assms(1,3) by (simp add: parts_distinct_def)
  have "\<exists>k' a. ?m = [(k', a)]"
  proof (rule ccontr)
    assume "\<not> (\<exists>k' a. ?m = [(k', a)])"
    then obtain q where "ps' = ps @ [q]"
      using assms(2) by (auto simp: resolve_one_def Let_def split: list.splits prod.splits)
    with assms(3-5) show False by (simp add: nth_append)
  qed
  then obtain k' a where m: "?m = [(k', a)]" by blast
  with assms(2) obtain c g t where ps': "ps' = ps[k' := absorb U (ps ! k') i c g t]"
    by (auto simp: resolve_one_def Let_def)
  with assms(3-5) have k: "k' = k" by (metis nth_list_update_neq)
  with m have "compatible U (ps ! k) (name_parts_of d) (md_gender (c_metadata (d_candidate d))) = Some a"
    using person_matches_less [of k a U ps] by (metis list.set_intros(1))
  from compatible_evidence [OF this dist] absorb_parts [OF dist] ps' k assms(3) show ?thesis by simp
qed

lemma merge_needs_evidence_witness:
  "let p = (new_person 1 (Some masc))\<lparr>rp_decisions := [0], rp_parts := [(First, [1]), (Surname, [2])]\<rparr>;
       d = sample_mention [sample_word [1] First 0, sample_word [2] Surname 3] 30;
       (ps', cs) = resolve_one ucd_ru (1, d) [p]
   in rp_decisions (ps' ! 0) = [0, 1] \<and> word_evidence (rp_parts p) (mention_words (name_parts_of d)) Surname"
proof -
  let ?p = "(new_person 1 (Some masc))\<lparr>rp_decisions := [0], rp_parts := [(First, [1]), (Surname, [2])]\<rparr>"
  let ?d = "sample_mention [sample_word [1] First 0, sample_word [2] Surname 3] 30"
  obtain ps' cs where r: "resolve_one ucd_ru (1, ?d) [?p] = (ps', cs)" by force
  have "fst (resolve_one ucd_ru (1, ?d) [?p]) = ps'" by (simp only: r fst_conv)
  then have d: "rp_decisions (ps' ! 0) = [0, 1]"
    by (auto simp: resolve_one_def sample_mention_def sample_word_def name_parts_of_def person_matches_def
        List.map_filter_def compatible_def gender_conflict_def mention_words_def truthy_def assign_word_def
        index_of_def take_role_def no_match_def mention_initials_def new_person_def Let_def)
  have "parts_distinct [?p]" by (simp add: parts_distinct_def)
  from merge_needs_evidence [OF this r, of 0] d show ?thesis unfolding Let_def r by (simp add: new_person_def)
qed

end
