(* ===== verification/Regex.thy ===== *)
theory Regex
  imports Models
begin

text \<open>
  The part of Python's \<^verbatim>\<open>re\<close> module the sources use: a backtracking matcher for patterns with
  classes, sequences, alternatives, greedy bounded repetition, groups, back references and one
  character of negative look-around. The matcher returns all ways to match in the order in which
  backtracking tries them; the first one is the match. \<open>finditer\<close> and \<open>search\<close> scan from left to
  right. A repetition only goes on after an iteration that consumed something: every repeated
  pattern of the sources consumes at least one character, so this cuts nothing off.
\<close>

datatype re =
    RChar "uchar \<Rightarrow> bool"
  | REps
  | RSeq re re
  | RAlt re re
  | RRep re nat "nat option"
  | RGroup nat re
  | RBackref nat
  | RNotAhead "uchar \<Rightarrow> bool"
  | RNotBehind "uchar \<Rightarrow> bool"

type_synonym groups = "nat \<Rightarrow> span option"
type_synonym mstate = "nat \<times> groups"

section \<open>Matching\<close>

text \<open>Greedy repetition: first one more iteration, then the end of the repetition.\<close>

fun rep_matches :: "(mstate \<Rightarrow> mstate list) \<Rightarrow> nat \<Rightarrow> nat \<Rightarrow> nat option \<Rightarrow> mstate \<Rightarrow> mstate list" where
  "rep_matches body 0 lo hi x = (if lo = 0 then [x] else [])"
| "rep_matches body (Suc fuel) lo hi x =
     (if hi = Some 0 then []
      else concat (map (\<lambda>y. if fst x < fst y
                            then rep_matches body fuel (lo - 1) (map_option (\<lambda>n. n - 1) hi) y
                            else []) (body x))) @
     (if lo = 0 then [x] else [])"

primrec matches :: "re \<Rightarrow> str \<Rightarrow> mstate \<Rightarrow> mstate list" where
  "matches (RChar P) s = (\<lambda>(i, g). if i < length s \<and> P (s ! i) then [(Suc i, g)] else [])"
| "matches REps s = (\<lambda>x. [x])"
| "matches (RSeq a b) s = (\<lambda>x. concat (map (matches b s) (matches a s x)))"
| "matches (RAlt a b) s = (\<lambda>x. matches a s x @ matches b s x)"
| "matches (RRep r lo hi) s = (\<lambda>x. rep_matches (matches r s) (Suc (length s)) lo hi x)"
| "matches (RGroup k r) s =
     (\<lambda>x. map (\<lambda>(j, g). (j, g(k \<mapsto> (fst x, j)))) (matches r s x))"
| "matches (RBackref k) s =
     (\<lambda>(i, g). case g k of
        None \<Rightarrow> []
      | Some (a, b) \<Rightarrow>
          (if i + (b - a) \<le> length s \<and> slice s i (i + (b - a)) = slice s a b
           then [(i + (b - a), g)] else []))"
| "matches (RNotAhead P) s = (\<lambda>(i, g). if i < length s \<and> P (s ! i) then [] else [(i, g)])"
| "matches (RNotBehind P) s = (\<lambda>(i, g). if 0 < i \<and> P (s ! (i - 1)) then [] else [(i, g)])"

definition match_at :: "re \<Rightarrow> str \<Rightarrow> nat \<Rightarrow> mstate option" where
  "match_at r s i = (case matches r s (i, \<lambda>_. None) of [] \<Rightarrow> None | x # _ \<Rightarrow> Some x)"

text \<open>\<open>pattern.search(s, i)\<close>: the start and the end of the leftmost match, with its groups.\<close>

function search_from :: "re \<Rightarrow> str \<Rightarrow> nat \<Rightarrow> (nat \<times> mstate) option" where
  "search_from r s i =
     (if length s < i then None
      else case match_at r s i of
             Some x \<Rightarrow> Some (i, x)
           | None \<Rightarrow> search_from r s (Suc i))"
  by pat_completeness auto
termination
  by (relation "measure (\<lambda>(r, s, i). Suc (length s) - i)") auto

declare search_from.simps [simp del]

definition re_search :: "re \<Rightarrow> str \<Rightarrow> bool" where
  "re_search r s \<longleftrightarrow> search_from r s 0 \<noteq> None"

record re_match =
  m_start :: nat
  m_end :: nat
  m_groups :: groups

definition m_span :: "re_match \<Rightarrow> span" where
  "m_span m = (m_start m, m_end m)"

text \<open>\<open>pattern.finditer(s)\<close>: matches that do not overlap, from left to right.\<close>

fun finditer_loop :: "re \<Rightarrow> str \<Rightarrow> nat \<Rightarrow> nat \<Rightarrow> re_match list" where
  "finditer_loop r s 0 i = []"
| "finditer_loop r s (Suc fuel) i =
     (case search_from r s i of
        None \<Rightarrow> []
      | Some (k, j, g) \<Rightarrow>
          \<lparr>m_start = k, m_end = j, m_groups = g\<rparr> #
          finditer_loop r s fuel (if k < j then j else Suc j))"

definition finditer :: "re \<Rightarrow> str \<Rightarrow> re_match list" where
  "finditer r s = finditer_loop r s (Suc (Suc (length s))) 0"

section \<open>Pattern notation\<close>

definition is_char :: "uchar \<Rightarrow> uchar \<Rightarrow> bool" where
  "is_char c d \<longleftrightarrow> d = c"

fun RStr :: "str \<Rightarrow> re" where
  "RStr [] = REps"
| "RStr [c] = RChar (is_char c)"
| "RStr (c # d # cs) = RSeq (RChar (is_char c)) (RStr (d # cs))"

fun RSeqs :: "re list \<Rightarrow> re" where
  "RSeqs [] = REps"
| "RSeqs [r] = r"
| "RSeqs (r # q # rs) = RSeq r (RSeqs (q # rs))"

fun RAlts :: "re \<Rightarrow> re list \<Rightarrow> re" where
  "RAlts r [] = r"
| "RAlts r (q # rs) = RAlt r (RAlts q rs)"

abbreviation ROpt :: "re \<Rightarrow> re" where "ROpt r \<equiv> RRep r 0 (Some 1)"
abbreviation RPlus :: "re \<Rightarrow> re" where "RPlus r \<equiv> RRep r 1 None"
abbreviation RStar :: "re \<Rightarrow> re" where "RStar r \<equiv> RRep r 0 None"
abbreviation RTimes :: "re \<Rightarrow> nat \<Rightarrow> re" where "RTimes r n \<equiv> RRep r n (Some n)"

section \<open>Positions only move forward and stay inside the text\<close>

lemma rep_matches_bounds:
  assumes "\<And>x y. y \<in> set (body x) \<Longrightarrow> fst x \<le> n \<Longrightarrow> fst x \<le> fst y \<and> fst y \<le> n"
    and "y \<in> set (rep_matches body fuel lo hi x)" "fst x \<le> n"
  shows "fst x \<le> fst y \<and> fst y \<le> n"
  using assms(2,3)
proof (induction fuel arbitrary: lo hi x)
  case 0
  then show ?case by (simp split: if_splits)
next
  case (Suc fuel)
  from Suc.prems(1) consider "y = x"
    | z where "z \<in> set (body x)" "y \<in> set (rep_matches body fuel (lo - 1) (map_option (\<lambda>n. n - 1) hi) z)"
    by (auto split: if_splits)
  then show ?case
  proof cases
    case 1
    with Suc.prems(2) show ?thesis by simp
  next
    case (2 z)
    have "fst x \<le> fst z" "fst z \<le> n" using assms(1) [OF 2(1) Suc.prems(2)] by simp_all
    with Suc.IH [OF 2(2)] show ?thesis by simp
  qed
qed

lemma matches_bounds:
  "y \<in> set (matches r s x) \<Longrightarrow> fst x \<le> length s \<Longrightarrow> fst x \<le> fst y \<and> fst y \<le> length s"
proof (induction r arbitrary: x y)
  case (RSeq a b)
  then obtain z where z: "z \<in> set (matches a s x)" "y \<in> set (matches b s z)" by auto
  have "fst x \<le> fst z" "fst z \<le> length s" using RSeq.IH(1) [OF z(1) RSeq.prems(2)] by simp_all
  with RSeq.IH(2) [OF z(2)] show ?case by simp
next
  case (RAlt a b)
  from RAlt.prems(1) have "y \<in> set (matches a s x) \<or> y \<in> set (matches b s x)" by simp
  then show ?case using RAlt.IH RAlt.prems(2) by blast
next
  case (RRep r lo hi)
  then show ?case
    using rep_matches_bounds [of "matches r s" "length s" y "Suc (length s)" lo hi x]
    by (simp del: rep_matches.simps)
next
  case (RGroup k r)
  then obtain z where "z \<in> set (matches r s x)" "fst y = fst z" by auto
  with RGroup.IH [of z x] RGroup.prems(2) show ?case by simp
qed (auto split: if_splits option.splits)

lemma match_at_bounds:
  assumes "match_at r s i = Some (j, g)" "i \<le> length s"
  shows "i \<le> j \<and> j \<le> length s"
  using assms matches_bounds [of "(j, g)" r s "(i, \<lambda>_. None)"]
  by (auto simp: match_at_def split: list.splits)

lemma search_from_SomeD:
  assumes "search_from r s i = Some (k, j, g)"
  shows "i \<le> k \<and> k \<le> j \<and> j \<le> length s \<and> match_at r s k = Some (j, g)"
  using assms
proof (induction r s i rule: search_from.induct)
  case (1 r s i)
  show ?case
  proof (cases "match_at r s i")
    case None
    with 1 have "i \<le> length s" "search_from r s (Suc i) = Some (k, j, g)"
      by (auto simp: search_from.simps [of r s i] split: if_splits)
    with "1.IH" None show ?thesis by fastforce
  next
    case (Some x)
    with "1.prems" match_at_bounds [of r s i] show ?thesis
      by (auto simp: search_from.simps [of r s i] split: if_splits)
  qed
qed

lemma search_from_finds:
  assumes "i \<le> k" "k \<le> length s" "match_at r s k \<noteq> None"
  shows "search_from r s i \<noteq> None"
  using assms
proof (induction r s i rule: search_from.induct)
  case (1 r s i)
  show ?case
  proof (cases "match_at r s i")
    case None
    with "1.prems" have "Suc i \<le> k" by (metis le_eq_less_or_eq Suc_leI)
    with 1 None show ?thesis by (simp add: search_from.simps [of r s i])
  next
    case (Some x)
    with "1.prems" show ?thesis by (simp add: search_from.simps [of r s i])
  qed
qed

section \<open>The matches of finditer\<close>

lemma finditer_loop_bounds:
  "m \<in> set (finditer_loop r s fuel i) \<Longrightarrow>
   i \<le> m_start m \<and> m_start m \<le> m_end m \<and> m_end m \<le> length s \<and>
   match_at r s (m_start m) = Some (m_end m, m_groups m)"
proof (induction fuel arbitrary: i)
  case (Suc fuel)
  show ?case
  proof (cases "search_from r s i")
    case None
    with Suc.prems show ?thesis by simp
  next
    case (Some x)
    obtain k j g where x: "x = (k, j, g)" by (cases x) auto
    note found = search_from_SomeD [OF Some [unfolded x]]
    from Suc.prems Some x consider "m = \<lparr>m_start = k, m_end = j, m_groups = g\<rparr>"
      | "m \<in> set (finditer_loop r s fuel (if k < j then j else Suc j))" by auto
    then show ?thesis
    proof cases
      case 1
      with found show ?thesis by simp
    next
      case 2
      from Suc.IH [OF this] found show ?thesis by (auto split: if_splits)
    qed
  qed
qed simp

lemma finditer_loop_sorted:
  "sorted_wrt (\<lambda>a b. m_end a \<le> m_start b) (finditer_loop r s fuel i)"
proof (induction fuel arbitrary: i)
  case (Suc fuel)
  show ?case
  proof (cases "search_from r s i")
    case (Some x)
    obtain k j g where x: "x = (k, j, g)" by (cases x) auto
    have "\<forall>m \<in> set (finditer_loop r s fuel (if k < j then j else Suc j)). j \<le> m_start m"
      using finditer_loop_bounds [of _ r s fuel "if k < j then j else Suc j"] by (fastforce split: if_splits)
    with Some Suc.IH x show ?thesis by simp
  qed simp
qed simp

lemma finditer_bounds:
  "m \<in> set (finditer r s) \<Longrightarrow> m_start m \<le> m_end m \<and> m_end m \<le> length s \<and>
   match_at r s (m_start m) = Some (m_end m, m_groups m)"
  unfolding finditer_def by (drule finditer_loop_bounds) simp

lemma finditer_sorted: "sorted_wrt (\<lambda>a b. m_end a \<le> m_start b) (finditer r s)"
  unfolding finditer_def by (rule finditer_loop_sorted)

section \<open>A repeated character class\<close>

lemma rep_class_matches:
  assumes "i + k \<le> length s" "\<forall>m < k. P (s ! (i + m))" "lo \<le> k" "k \<le> fuel"
  shows "(i + k, g) \<in> set (rep_matches (matches (RChar P) s) fuel lo None (i, g))"
  using assms
proof (induction fuel arbitrary: i k lo)
  case 0
  then show ?case by simp
next
  case (Suc fuel)
  show ?case
  proof (cases k)
    case 0
    with Suc.prems show ?thesis by simp
  next
    case (Suc k')
    have "\<forall>m < k'. P (s ! (Suc i + m))" using Suc.prems(2) Suc by force
    then have "(Suc i + k', g) \<in> set (rep_matches (matches (RChar P) s) fuel (lo - 1) None (Suc i, g))"
      using Suc.prems Suc by (intro Suc.IH) auto
    with Suc.prems Suc show ?thesis by force
  qed
qed

lemma rep_class_prefix:
  assumes "xs \<noteq> []" "\<forall>c \<in> set xs. P c"
  shows "(length pre + length xs, g) \<in> set (matches (RPlus (RChar P)) (pre @ xs @ post) (length pre, g))"
proof -
  have "\<forall>m < length xs. P ((pre @ xs @ post) ! (length pre + m))"
    using assms(2) by (simp add: nth_append)
  moreover have "1 \<le> length xs" using assms(1) by (cases xs) auto
  ultimately have "(length pre + length xs, g) \<in> set (rep_matches (matches (RChar P) (pre @ xs @ post))
      (Suc (length (pre @ xs @ post))) 1 None (length pre, g))"
    by (intro rep_class_matches) auto
  then show ?thesis by simp
qed

section \<open>What a match is sure to consume and to capture\<close>

primrec min_len :: "re \<Rightarrow> nat" where
  "min_len (RChar P) = 1"
| "min_len REps = 0"
| "min_len (RSeq a b) = min_len a + min_len b"
| "min_len (RAlt a b) = min (min_len a) (min_len b)"
| "min_len (RRep r lo hi) = lo * min_len r"
| "min_len (RGroup k r) = min_len r"
| "min_len (RBackref k) = 0"
| "min_len (RNotAhead P) = 0"
| "min_len (RNotBehind P) = 0"

lemma rep_matches_min:
  assumes "\<And>x y. y \<in> set (body x) \<Longrightarrow> fst x + n \<le> fst y" "y \<in> set (rep_matches body fuel lo hi x)"
  shows "fst x + lo * n \<le> fst y"
  using assms(2)
proof (induction fuel arbitrary: lo hi x)
  case (Suc fuel)
  from Suc.prems consider "y = x" "lo = 0"
    | z where "z \<in> set (body x)" "y \<in> set (rep_matches body fuel (lo - 1) (map_option (\<lambda>n. n - 1) hi) z)"
    by (auto split: if_splits)
  then show ?case
  proof cases
    case (2 z)
    have "fst x + n \<le> fst z" "fst z + (lo - 1) * n \<le> fst y" using assms(1) [OF 2(1)] Suc.IH [OF 2(2)] by simp_all
    then show ?thesis by (cases lo) simp_all
  qed simp
qed (simp split: if_splits)

lemma matches_min: "y \<in> set (matches r s x) \<Longrightarrow> fst x + min_len r \<le> fst y"
proof (induction r arbitrary: x y)
  case (RSeq a b)
  then obtain z where "z \<in> set (matches a s x)" "y \<in> set (matches b s z)" by auto
  with RSeq.IH(1) [of z x] RSeq.IH(2) [of y z] show ?case by simp
next
  case (RAlt a b)
  from RAlt.prems have "y \<in> set (matches a s x) \<or> y \<in> set (matches b s x)" by simp
  then show ?case using RAlt.IH [of y x] by auto
next
  case (RRep r lo hi)
  then show ?case using rep_matches_min [of "matches r s" "min_len r" y "Suc (length s)" lo hi x]
    by (simp del: rep_matches.simps)
next
  case (RGroup k r)
  then obtain z where "z \<in> set (matches r s x)" "fst y = fst z" by auto
  with RGroup.IH [of z x] show ?case by simp
qed (auto split: if_splits option.splits)

text \<open>Every group of the pattern captures at least as much as \<open>L\<close> says for its number.\<close>

primrec group_min :: "(nat \<Rightarrow> nat) \<Rightarrow> re \<Rightarrow> bool" where
  "group_min L (RChar P) \<longleftrightarrow> True"
| "group_min L REps \<longleftrightarrow> True"
| "group_min L (RSeq a b) \<longleftrightarrow> group_min L a \<and> group_min L b"
| "group_min L (RAlt a b) \<longleftrightarrow> group_min L a \<and> group_min L b"
| "group_min L (RRep r lo hi) \<longleftrightarrow> group_min L r"
| "group_min L (RGroup k r) \<longleftrightarrow> L k \<le> min_len r \<and> group_min L r"
| "group_min L (RBackref k) \<longleftrightarrow> True"
| "group_min L (RNotAhead P) \<longleftrightarrow> True"
| "group_min L (RNotBehind P) \<longleftrightarrow> True"

definition groups_at :: "nat \<Rightarrow> (nat \<Rightarrow> nat) \<Rightarrow> mstate \<Rightarrow> bool" where
  "groups_at i L x \<longleftrightarrow> i \<le> fst x \<and> (\<forall>k a b. snd x k = Some (a, b) \<longrightarrow> i \<le> a \<and> a + L k \<le> b \<and> b \<le> fst x)"

lemma groups_at_later: "groups_at i L (p, g) \<Longrightarrow> p \<le> p' \<Longrightarrow> groups_at i L (p', g)"
  by (fastforce simp: groups_at_def)

lemma rep_matches_keep:
  assumes "\<And>x y. y \<in> set (body x) \<Longrightarrow> Q x \<Longrightarrow> Q y" "y \<in> set (rep_matches body fuel lo hi x)" "Q x"
  shows "Q y"
  using assms(2,3)
proof (induction fuel arbitrary: lo hi x)
  case (Suc fuel)
  from Suc.prems(1) consider "y = x"
    | z where "z \<in> set (body x)" "y \<in> set (rep_matches body fuel (lo - 1) (map_option (\<lambda>n. n - 1) hi) z)"
    by (auto split: if_splits)
  then show ?case using Suc.prems(2) Suc.IH assms(1) by cases blast+
qed (simp split: if_splits)

lemma matches_groups_at:
  "y \<in> set (matches r s x) \<Longrightarrow> group_min L r \<Longrightarrow> groups_at i L x \<Longrightarrow> groups_at i L y"
proof (induction r arbitrary: x y)
  case (RSeq a b)
  from RSeq.prems(1) obtain z where z: "z \<in> set (matches a s x)" "y \<in> set (matches b s z)" by auto
  have "groups_at i L z" using RSeq.IH(1) [OF z(1)] RSeq.prems(2,3) by simp
  then show ?case using RSeq.IH(2) [OF z(2)] RSeq.prems(2) by simp
next
  case (RAlt a b)
  from RAlt.prems(1) have "y \<in> set (matches a s x) \<or> y \<in> set (matches b s x)" by simp
  then show ?case using RAlt.IH [of y x] RAlt.prems(2,3) by auto
next
  case (RRep r lo hi)
  then show ?case using rep_matches_keep [of "matches r s" "groups_at i L" y "Suc (length s)" lo hi x]
    by (simp del: rep_matches.simps)
next
  case (RGroup k r)
  from RGroup.prems(1) obtain j g where z: "(j, g) \<in> set (matches r s x)" "y = (j, g(k \<mapsto> (fst x, j)))" by auto
  have "groups_at i L (j, g)" using RGroup.IH [OF z(1)] RGroup.prems by simp
  moreover have "fst x + L k \<le> j" "i \<le> fst x"
    using matches_min [OF z(1)] RGroup.prems by (auto simp: groups_at_def)
  ultimately show ?case by (auto simp: groups_at_def z(2))
qed (auto split: if_splits option.splits intro: groups_at_later)

primrec sets_group :: "nat \<Rightarrow> re \<Rightarrow> bool" where
  "sets_group n (RChar P) \<longleftrightarrow> False"
| "sets_group n REps \<longleftrightarrow> False"
| "sets_group n (RSeq a b) \<longleftrightarrow> sets_group n a \<or> sets_group n b"
| "sets_group n (RAlt a b) \<longleftrightarrow> sets_group n a \<and> sets_group n b"
| "sets_group n (RRep r lo hi) \<longleftrightarrow> 0 < lo \<and> sets_group n r"
| "sets_group n (RGroup k r) \<longleftrightarrow> n = k \<or> sets_group n r"
| "sets_group n (RBackref k) \<longleftrightarrow> False"
| "sets_group n (RNotAhead P) \<longleftrightarrow> False"
| "sets_group n (RNotBehind P) \<longleftrightarrow> False"

lemma matches_keep_group: "y \<in> set (matches r s x) \<Longrightarrow> snd x n \<noteq> None \<Longrightarrow> snd y n \<noteq> None"
proof (induction r arbitrary: x y)
  case (RRep r lo hi)
  then show ?case using rep_matches_keep [of "matches r s" "\<lambda>x. snd x n \<noteq> None" y "Suc (length s)" lo hi x]
    by (simp del: rep_matches.simps)
qed (fastforce split: if_splits option.splits)+

lemma rep_matches_first:
  "y \<in> set (rep_matches body (Suc fuel) lo hi x) \<Longrightarrow> 0 < lo \<Longrightarrow>
   \<exists>z \<in> set (body x). y \<in> set (rep_matches body fuel (lo - 1) (map_option (\<lambda>n. n - 1) hi) z)"
  by (auto split: if_splits)

lemma matches_set_group: "y \<in> set (matches r s x) \<Longrightarrow> sets_group n r \<Longrightarrow> snd y n \<noteq> None"
proof (induction r arbitrary: x y)
  case (RSeq a b)
  from RSeq.prems(1) obtain z where z: "z \<in> set (matches a s x)" "y \<in> set (matches b s z)" by auto
  from RSeq.prems(2) have "sets_group n a \<or> sets_group n b" by simp
  then show ?case
    using RSeq.IH(1) [OF z(1)] RSeq.IH(2) [OF z(2)] matches_keep_group [OF z(2), of n] by blast
next
  case (RRep r lo hi)
  then have "0 < lo" "y \<in> set (rep_matches (matches r s) (Suc (length s)) lo hi x)"
    by (simp_all del: rep_matches.simps)
  then obtain z where z: "z \<in> set (matches r s x)"
    "y \<in> set (rep_matches (matches r s) (length s) (lo - 1) (map_option (\<lambda>n. n - 1) hi) z)"
    using rep_matches_first by blast
  have "snd z n \<noteq> None" using RRep.IH [OF z(1)] RRep.prems(2) by simp
  with rep_matches_keep [of "matches r s" "\<lambda>x. snd x n \<noteq> None", OF matches_keep_group z(2)]
  show ?case by (simp del: rep_matches.simps)
next
  case (RAlt a b)
  from RAlt.prems(1) have "y \<in> set (matches a s x) \<or> y \<in> set (matches b s x)" by simp
  then show ?case using RAlt.IH [of y x] RAlt.prems(2) by auto
next
  case (RGroup k r)
  from RGroup.prems(1) obtain j g where z: "(j, g) \<in> set (matches r s x)" "y = (j, g(k \<mapsto> (fst x, j)))" by auto
  show ?case using RGroup.IH [OF z(1)] RGroup.prems(2) z(2) by (cases "n = k") simp_all
qed simp_all

lemma finditer_match: "m \<in> set (finditer r s) \<Longrightarrow> (m_end m, m_groups m) \<in> set (matches r s (m_start m, \<lambda>_. None))"
  by (drule finditer_bounds) (auto simp: match_at_def split: list.splits)

lemma finditer_min: "m \<in> set (finditer r s) \<Longrightarrow> m_start m + min_len r \<le> m_end m"
  using matches_min [OF finditer_match, of m r s] by simp

lemma finditer_group_bounds:
  "m \<in> set (finditer r s) \<Longrightarrow> group_min L r \<Longrightarrow> m_groups m k = Some (a, b) \<Longrightarrow>
   m_start m \<le> a \<and> a + L k \<le> b \<and> b \<le> m_end m"
  using matches_groups_at [OF finditer_match, of m r s L "m_start m"] by (auto simp: groups_at_def)

lemma finditer_group_set: "m \<in> set (finditer r s) \<Longrightarrow> sets_group k r \<Longrightarrow> m_groups m k \<noteq> None"
  using matches_set_group [OF finditer_match, of m r s k] by simp

end
