(* ===== verification/Tokens.thy ===== *)
theory Tokens
  imports Demasker Regex
begin

text \<open>
  Entity identifiers and tokens, \<^verbatim>\<open>replacement/tokens.py\<close>, and the pattern by which
  \<^verbatim>\<open>core/process_service.py\<close> recognises issued tokens. The lemmas show that every token the
  service issues is shaped as the demasker expects and is recognised by the pattern wherever it
  stands in a text.
\<close>

fun TOKEN_PREFIX :: "pii_type \<Rightarrow> str" where
  "TOKEN_PREFIX FULL_NAME = asc ''PERSON''"
| "TOKEN_PREFIX BIRTH_DATE = asc ''BIRTH_DATE''"
| "TOKEN_PREFIX BIRTH_PLACE = asc ''BIRTH_PLACE''"
| "TOKEN_PREFIX PASSPORT = asc ''PASSPORT''"
| "TOKEN_PREFIX CITIZENSHIP = asc ''CITIZENSHIP''"
| "TOKEN_PREFIX PASSPORT_ISSUER = asc ''PASSPORT_ISSUER''"
| "TOKEN_PREFIX DEPARTMENT_CODE = asc ''DEPARTMENT_CODE''"
| "TOKEN_PREFIX PASSPORT_ISSUE_DATE = asc ''PASSPORT_ISSUE_DATE''"
| "TOKEN_PREFIX DRIVER_LICENSE = asc ''DRIVER_LICENSE''"
| "TOKEN_PREFIX ADDRESS = asc ''ADDRESS''"
| "TOKEN_PREFIX EMAIL = asc ''EMAIL''"
| "TOKEN_PREFIX PHONE = asc ''PHONE''"
| "TOKEN_PREFIX INN = asc ''INN''"
| "TOKEN_PREFIX CARD_NUMBER = asc ''CARD''"
| "TOKEN_PREFIX CVV = asc ''CVV''"
| "TOKEN_PREFIX PIN = asc ''PIN''"
| "TOKEN_PREFIX CARDHOLDER = asc ''CARDHOLDER''"

definition token_for :: "str \<Rightarrow> str" where
  "token_for entity_id = asc ''<'' @ entity_id @ asc ''>''"

text \<open>The identifier \<open>f"{prefix}_{counters[prefix]}"\<close> of \<^verbatim>\<open>replacement/identity.py\<close>.\<close>

definition entity_id_for :: "str \<Rightarrow> nat \<Rightarrow> str" where
  "entity_id_for prefix n = prefix @ asc ''_'' @ nat_str n"

text \<open>\<open>_TOKEN_PATTERN\<close>: \<open><[A-Z_]+_\d+>\<close>.\<close>

definition upper_or_underscore :: "uchar \<Rightarrow> bool" where
  "upper_or_underscore c \<longleftrightarrow> ascii_upper c \<or> c = 95"

definition TOKEN_PATTERN :: "ucd \<Rightarrow> re" where
  "TOKEN_PATTERN U = RSeqs [RChar (is_char 60), RPlus (RChar upper_or_underscore), RChar (is_char 95),
     RPlus (RChar (u_isdecimal U)), RChar (is_char 62)]"

section \<open>Shape and uniqueness\<close>

lemma asc_brackets [simp]: "asc ''<'' = [60]" "asc ''>'' = [62]" "asc ''_'' = [95]"
  by (simp_all add: asc_def)

lemma TOKEN_PREFIX_chars: "c \<in> set (TOKEN_PREFIX t) \<Longrightarrow> upper_or_underscore c"
  by (cases t) (auto simp: asc_def upper_or_underscore_def ascii_upper_def)

lemma TOKEN_PREFIX_not_Nil: "TOKEN_PREFIX t \<noteq> []"
  by (cases t) (simp_all add: asc_def)

lemma TOKEN_PREFIX_inject: "TOKEN_PREFIX s = TOKEN_PREFIX t \<longleftrightarrow> s = t"
  by (cases s; cases t) (simp_all add: asc_def)

lemma entity_id_chars:
  assumes "c \<in> set (entity_id_for (TOKEN_PREFIX t) n)"
  shows "upper_or_underscore c \<or> ascii_digit c"
  using assms TOKEN_PREFIX_chars nat_str_digits
  by (auto simp: entity_id_for_def upper_or_underscore_def)

lemma token_for_shape: "token_shape (token_for (entity_id_for (TOKEN_PREFIX t) n))"
  using entity_id_chars [of 60 t n] entity_id_chars [of 62 t n]
  by (auto simp: token_shape_def token_for_def upper_or_underscore_def ascii_upper_def ascii_digit_def)

lemma token_for_inject [simp]: "token_for a = token_for b \<longleftrightarrow> a = b"
  by (simp add: token_for_def)

text \<open>The number of an identifier is what follows its last underscore.\<close>

lemma entity_id_for_inject:
  assumes "entity_id_for p n = entity_id_for q m"
  shows "p = q \<and> n = m"
proof -
  have no: "95 \<notin> set (nat_str k)" for k
    using nat_str_digits [of 95 k] by (auto simp: ascii_digit_def)
  from assms have "rev (nat_str n) @ 95 # rev p = rev (nat_str m) @ 95 # rev q"
    by (simp add: entity_id_for_def) (metis append.assoc append_Cons append_Nil rev.simps(2) rev_append)
  moreover have "takeWhile (\<lambda>c. c \<noteq> 95) (rev (nat_str k) @ 95 # x) = rev (nat_str k)" for k x
    using no by (subst takeWhile_append2) (auto simp: in_set_conv_decomp)
  ultimately have "rev (nat_str n) = rev (nat_str m)" by metis
  then have "n = m" by simp
  with assms show ?thesis by (simp add: entity_id_for_def)
qed

section \<open>The pattern recognises every issued token\<close>

lemma matches_char_at:
  "P c \<Longrightarrow> matches (RChar P) (pre @ c # post) (length pre, g) = [(Suc (length pre), g)]"
  by (simp add: nth_append)

lemma matches_seqI: "y \<in> set (matches a s x) \<Longrightarrow> z \<in> set (matches b s y) \<Longrightarrow> z \<in> set (matches (RSeq a b) s x)"
  by auto

lemma TOKEN_PATTERN_matches:
  assumes "xs \<noteq> []" "\<forall>c \<in> set xs. upper_or_underscore c" "ds \<noteq> []" "\<forall>c \<in> set ds. u_isdecimal U c"
  shows "\<exists>y. y \<in> set (matches (TOKEN_PATTERN U) (a @ [60] @ xs @ [95] @ ds @ [62] @ b) (length a, g))"
proof -
  let ?s = "a @ [60] @ xs @ [95] @ ds @ [62] @ b"
  let ?p1 = "a @ [60]" and ?p2 = "a @ [60] @ xs" and ?p3 = "a @ [60] @ xs @ [95]"
    and ?p4 = "a @ [60] @ xs @ [95] @ ds"
  have 1: "(length ?p1, g) \<in> set (matches (RChar (is_char 60)) ?s (length a, g))"
    using matches_char_at [of "is_char 60" 60 a "xs @ [95] @ ds @ [62] @ b" g] by (simp add: is_char_def)
  have 2: "(length ?p2, g) \<in> set (matches (RPlus (RChar upper_or_underscore)) ?s (length ?p1, g))"
    using rep_class_prefix [OF assms(1,2), of ?p1 g "[95] @ ds @ [62] @ b"]
    by (simp del: matches.simps rep_matches.simps)
  have 3: "(length ?p3, g) \<in> set (matches (RChar (is_char 95)) ?s (length ?p2, g))"
    using matches_char_at [of "is_char 95" 95 ?p2 "ds @ [62] @ b" g] by (simp add: is_char_def)
  have 4: "(length ?p4, g) \<in> set (matches (RPlus (RChar (u_isdecimal U))) ?s (length ?p3, g))"
    using rep_class_prefix [OF assms(3,4), of ?p3 g "[62] @ b"]
    by (simp add: ac_simps del: matches.simps rep_matches.simps)
  have 5: "(Suc (length ?p4), g) \<in> set (matches (RChar (is_char 62)) ?s (length ?p4, g))"
    using matches_char_at [of "is_char 62" 62 ?p4 b g] by (simp add: is_char_def)
  show ?thesis
    unfolding TOKEN_PATTERN_def RSeqs.simps
    by (intro exI matches_seqI) (rule 1, rule 2, rule 3, rule 4, rule 5)
qed

lemma TOKEN_PATTERN_search:
  assumes "unicode_db U" "str_in (token_for (entity_id_for (TOKEN_PREFIX t) n)) s"
  shows "re_search (TOKEN_PATTERN U) s"
proof -
  obtain a b where s: "s = a @ [60] @ TOKEN_PREFIX t @ [95] @ nat_str n @ [62] @ b"
    using assms(2) by (auto simp: str_in_iff token_for_def entity_id_for_def)
  have "\<forall>c \<in> set (nat_str n). u_isdecimal U c"
    using nat_str_digits unicode_db.ascii_decimal [OF assms(1)] by blast
  then obtain y where "y \<in> set (matches (TOKEN_PATTERN U) s (length a, \<lambda>_. None))"
    using TOKEN_PATTERN_matches [OF TOKEN_PREFIX_not_Nil, of t "nat_str n"] TOKEN_PREFIX_chars
    unfolding s by (metis nat_str_not_Nil)
  then have "match_at (TOKEN_PATTERN U) s (length a) \<noteq> None"
    by (auto simp: match_at_def simp del: matches.simps split: list.splits)
  with search_from_finds [of 0 "length a" s] show ?thesis
    by (simp add: re_search_def s)
qed

section \<open>Properties\<close>

text \<open>
  C35. Issued tokens are recognised: a text that contains a token of any entity identifier is found
  by the pattern the service uses to detect mask traces, wherever the token stands.
\<close>

theorem token_pattern_finds_issued_tokens:
  assumes "unicode_db U" "str_in (token_for (entity_id_for (TOKEN_PREFIX t) n)) s"
  shows "re_search (TOKEN_PATTERN U) s"
  by (rule TOKEN_PATTERN_search [OF assms])

lemma token_pattern_finds_issued_tokens_witness: "re_search (TOKEN_PATTERN ucd_ru) (asc ''to <CARD_1>!'')"
proof (rule token_pattern_finds_issued_tokens [OF ucd_ru.unicode_db_axioms, of CARD_NUMBER 1])
  show "str_in (token_for (entity_id_for (TOKEN_PREFIX CARD_NUMBER) 1)) (asc ''to <CARD_1>!'')"
    unfolding str_in_iff
    by (rule exI [of _ "asc ''to ''"], rule exI [of _ "asc ''!''"])
      (simp add: token_for_def entity_id_for_def nat_str.simps asc_def)
qed

end
