(* ===== verification/Identity.thy ===== *)
theory Identity
  imports Resolver Tokens
begin

text \<open>
  \<^verbatim>\<open>replacement/identity.py\<close>: grouping the decisions to mask into entities. One group per
  identity key, numbered per type prefix in order of first appearance. Decisions are known by their
  position, as in the resolver. The lemmas show that the groups partition the decisions by key, and
  that keys and entity identifiers are unique, so a token names one entity.
\<close>

text \<open>\<open>s.strip()\<close>\<close>

definition str_strip :: "ucd \<Rightarrow> str \<Rightarrow> str" where
  "str_strip U s = rev (dropWhile (u_isspace U) (rev (dropWhile (u_isspace U) s)))"

record entity_group =
  eg_entity_id :: str
  eg_identity_key :: str
  eg_decisions :: "idecision list"
  eg_resolved :: "resolved_person option"

definition eg_first :: "entity_group \<Rightarrow> candidate" where
  "eg_first g = d_candidate (snd (hd (eg_decisions g)))"

definition eg_type :: "entity_group \<Rightarrow> pii_type" where
  "eg_type g = c_type (eg_first g)"

text \<open>The first value of a metadata key that is true in Python's sense, over the group's decisions.\<close>

definition first_metadata :: "(metadata \<Rightarrow> str option) \<Rightarrow> entity_group \<Rightarrow> str option" where
  "first_metadata f g =
     (case find (\<lambda>(i, d). truthy (f (c_metadata (d_candidate d)))) (eg_decisions g) of
        Some (i, d) \<Rightarrow> f (c_metadata (d_candidate d))
      | None \<Rightarrow> None)"

definition eg_gender :: "entity_group \<Rightarrow> str option" where
  "eg_gender g =
     (case eg_resolved g of
        Some p \<Rightarrow> if truthy (rp_gender p) then rp_gender p else first_metadata md_gender g
      | None \<Rightarrow> first_metadata md_gender g)"

definition eg_original_nominal :: "entity_group \<Rightarrow> str" where
  "eg_original_nominal g =
     (let from_metadata = (case first_metadata md_nominal_form g of
                             Some n \<Rightarrow> n | None \<Rightarrow> c_value (eg_first g))
      in case eg_resolved g of
           Some p \<Rightarrow> if person_nominal p \<noteq> [] then person_nominal p else from_metadata
         | None \<Rightarrow> from_metadata)"

definition identity_key_for :: "ucd \<Rightarrow> privacy_decision \<Rightarrow> str" where
  "identity_key_for U d =
     or_else (md_identity_key (c_metadata (d_candidate d)))
       (pii_value (c_type (d_candidate d)) @ asc '':'' @ u_lower U (str_strip U (c_value (d_candidate d))))"

section \<open>Grouping\<close>

definition resolved_by_decision :: "resolved_person list \<Rightarrow> nat \<Rightarrow> resolved_person option" where
  "resolved_by_decision persons i = find (\<lambda>p. i \<in> set (rp_decisions p)) persons"

definition group_key :: "ucd \<Rightarrow> resolved_person list \<Rightarrow> idecision \<Rightarrow> str" where
  "group_key U persons dec =
     (case resolved_by_decision persons (fst dec) of
        Some p \<Rightarrow> person_key p
      | None \<Rightarrow> identity_key_for U (snd dec))"

type_synonym grouping = "entity_group list \<times> (str \<Rightarrow> nat)"

definition group_step :: "ucd \<Rightarrow> resolved_person list \<Rightarrow> grouping \<Rightarrow> idecision \<Rightarrow> grouping" where
  "group_step U persons st dec =
     (let (groups, counters) = st; key = group_key U persons dec in
      case find_index (\<lambda>g. eg_identity_key g = key) groups of
        Some k \<Rightarrow> (groups[k := (groups ! k)\<lparr>eg_decisions := eg_decisions (groups ! k) @ [dec]\<rparr>], counters)
      | None \<Rightarrow>
          (let prefix = TOKEN_PREFIX (c_type (d_candidate (snd dec)));
               n = counters prefix + 1
           in (groups @ [\<lparr>eg_entity_id = entity_id_for prefix n, eg_identity_key = key,
                          eg_decisions = [dec], eg_resolved = resolved_by_decision persons (fst dec)\<rparr>],
               counters(prefix := n))))"

definition personal_decisions :: "privacy_decision list \<Rightarrow> idecision list" where
  "personal_decisions decisions = filter (\<lambda>(i, d). is_personal d) (enumerate 0 decisions)"

definition has_name_parts :: "privacy_decision \<Rightarrow> bool" where
  "has_name_parts d \<longleftrightarrow> c_type (d_candidate d) = FULL_NAME \<and> name_parts_of d \<noteq> []"

definition with_parts :: "name_component list \<Rightarrow> privacy_decision \<Rightarrow> privacy_decision" where
  "with_parts cs d = d\<lparr>d_candidate := (d_candidate d)\<lparr>c_metadata :=
     (c_metadata (d_candidate d))\<lparr>md_name_parts := Some cs\<rparr>\<rparr>\<rparr>"

fun write_parts :: "(nat \<times> name_component list) list \<Rightarrow> privacy_decision list \<Rightarrow> privacy_decision list" where
  "write_parts [] ds = ds"
| "write_parts ((i, cs) # ann) ds = write_parts ann (ds[i := with_parts cs (ds ! i)])"

text \<open>The groups, and the decisions with the roles the resolver wrote into their components.\<close>

definition group_personal_decisions ::
  "ucd \<Rightarrow> privacy_decision list \<Rightarrow> entity_group list \<times> privacy_decision list" where
  "group_personal_decisions U decisions =
     (let (persons, ann) =
            resolve_person_entities U (filter (\<lambda>(i, d). has_name_parts d) (personal_decisions decisions));
          decisions' = write_parts ann decisions;
          ordered = sort_key (\<lambda>(i, d). c_start (d_candidate d)) (personal_decisions decisions')
      in (fst (foldl (group_step U persons) ([], \<lambda>_. 0) ordered), decisions'))"

section \<open>Groups partition the decisions\<close>

definition groups_ok :: "(idecision \<Rightarrow> str) \<Rightarrow> grouping \<Rightarrow> bool" where
  "groups_ok key = (\<lambda>(groups, counters).
     distinct (map eg_identity_key groups) \<and> distinct (map eg_entity_id groups) \<and>
     (\<forall>g \<in> set groups. eg_decisions g \<noteq> [] \<and> (\<forall>x \<in> set (eg_decisions g). key x = eg_identity_key g) \<and>
        (\<exists>t n. eg_entity_id g = entity_id_for (TOKEN_PREFIX t) n \<and> n \<le> counters (TOKEN_PREFIX t))))"

lemma find_index_None: "find_index P xs = None \<longleftrightarrow> (\<forall>x \<in> set xs. \<not> P x)"
  by (auto simp: find_index_def find_None_iff in_set_enumerate_eq) (metis in_set_conv_nth)

lemma group_step_ok:
  assumes "groups_ok (group_key U ps) st"
  shows "groups_ok (group_key U ps) (group_step U ps st dec) \<and>
    mset (concat (map eg_decisions (fst (group_step U ps st dec)))) =
      add_mset dec (mset (concat (map eg_decisions (fst st))))"
proof -
  obtain groups counters where st: "st = (groups, counters)" by force
  let ?key = "group_key U ps dec"
  show ?thesis
  proof (cases "find_index (\<lambda>g. eg_identity_key g = ?key) groups")
    case None
    define p where "p = TOKEN_PREFIX (c_type (d_candidate (snd dec)))"
    have new: "entity_id_for p (counters p + 1) \<noteq> eg_entity_id g" if "g \<in> set groups" for g
    proof
      assume e: "entity_id_for p (counters p + 1) = eg_entity_id g"
      from that assms st obtain t n where g: "eg_entity_id g = entity_id_for (TOKEN_PREFIX t) n"
        "n \<le> counters (TOKEN_PREFIX t)" by (auto simp: groups_ok_def)
      with e have "p = TOKEN_PREFIX t" "counters p + 1 = n" using entity_id_for_inject by metis+
      with g show False by simp
    qed
    from None have fresh: "?key \<notin> eg_identity_key ` set groups" by (auto simp: find_index_None)
    have "\<exists>t n. eg_entity_id g = entity_id_for (TOKEN_PREFIX t) n \<and>
        n \<le> (counters(p := counters p + 1)) (TOKEN_PREFIX t)" if "g \<in> set groups" for g
      using assms that st by (fastforce simp: groups_ok_def)
    with new fresh assms None show ?thesis
      by (auto simp: st group_step_def Let_def groups_ok_def p_def [symmetric]) (auto simp: p_def)
  next
    case (Some k)
    let ?g = "groups ! k"
    let ?g' = "?g\<lparr>eg_decisions := eg_decisions ?g @ [dec]\<rparr>"
    from find_index_less [OF Some] have k: "k < length groups" "eg_identity_key ?g = ?key" by auto
    have same: "map eg_identity_key (groups[k := ?g']) = map eg_identity_key groups"
      "map eg_entity_id (groups[k := ?g']) = map eg_entity_id groups"
      using k(1) by (metis (mono_tags, lifting) entity_group.simps(3,4,5,6) entity_group.select_convs(1,2)
          entity_group.surjective entity_group.update_convs(3) list_update_id map_update nth_map)+
    have "mset (concat (map eg_decisions (groups[k := ?g']))) =
        add_mset dec (mset (concat (map eg_decisions groups)))"
      using k(1)
    proof (induction groups arbitrary: k)
      case (Cons g gs)
      then show ?case by (cases k) auto
    qed simp
    moreover have "?g \<in> set groups" using k(1) by simp
    moreover from this have "\<forall>x \<in> set (eg_decisions ?g). group_key U ps x = ?key"
      using assms k(2) by (auto simp: groups_ok_def st)
    ultimately show ?thesis
      using assms Some same k
      by (auto simp: st group_step_def Let_def groups_ok_def dest!: set_update_subset_insert [THEN subsetD])
  qed
qed

lemma group_steps_ok:
  assumes "groups_ok (group_key U ps) st"
  shows "groups_ok (group_key U ps) (foldl (group_step U ps) st decs) \<and>
    mset (concat (map eg_decisions (fst (foldl (group_step U ps) st decs)))) =
      mset (concat (map eg_decisions (fst st))) + mset decs"
  using assms
proof (induction decs arbitrary: st)
  case (Cons d decs)
  from group_step_ok [OF Cons.prems, of d] Cons.IH [of "group_step U ps st d"] show ?case by simp
qed simp

lemma groups_ok_Nil: "groups_ok key ([], \<lambda>_. 0)"
  by (simp add: groups_ok_def)

section \<open>The resolver's updates leave everything but the components alone\<close>

lemma with_parts_frame [simp]:
  "is_personal (with_parts cs d) = is_personal d" "d_decision (with_parts cs d) = d_decision d"
  "c_type (d_candidate (with_parts cs d)) = c_type (d_candidate d)"
  "c_start (d_candidate (with_parts cs d)) = c_start (d_candidate d)"
  "c_end (d_candidate (with_parts cs d)) = c_end (d_candidate d)"
  "c_value (d_candidate (with_parts cs d)) = c_value (d_candidate d)"
  by (simp_all add: with_parts_def is_personal_def)

text \<open>What of a decision the replacement engine uses besides the components.\<close>

definition decision_core :: "privacy_decision \<Rightarrow> bool \<times> pii_type \<times> nat \<times> nat \<times> str" where
  "decision_core d = (is_personal d, c_type (d_candidate d), c_start (d_candidate d), c_end (d_candidate d),
     c_value (d_candidate d))"

lemma decision_core_with_parts [simp]: "decision_core (with_parts cs d) = decision_core d"
  by (simp add: decision_core_def)

lemma write_parts_core: "map decision_core (write_parts ann ds) = map decision_core ds"
proof (induction ann ds rule: write_parts.induct)
  case (2 i cs ann ds)
  have "map decision_core (ds[i := with_parts cs (ds ! i)]) = map decision_core ds"
    by (cases "i < length ds") (simp_all add: map_update list_update_same_conv list_update_beyond)
  with 2 show ?case by simp
qed simp

lemma length_write_parts [simp]: "length (write_parts ann ds) = length ds"
  by (metis length_map write_parts_core)

lemma write_parts_nth: "i < length ds \<Longrightarrow> decision_core (write_parts ann ds ! i) = decision_core (ds ! i)"
  by (metis length_map nth_map write_parts_core)

lemma personal_decisions_set:
  "(i, d) \<in> set (personal_decisions ds) \<longleftrightarrow> i < length ds \<and> d = ds ! i \<and> is_personal d"
  by (auto simp: personal_decisions_def in_set_enumerate_eq)

text \<open>The groups of a batch: keys, identifiers and the partition of the decisions to mask.\<close>

lemma group_personal_decisions_ok:
  assumes "group_personal_decisions U ds = (groups, ds')"
  obtains key counters where "groups_ok key (groups, counters)"
    "mset (concat (map eg_decisions groups)) = mset (personal_decisions ds')"
    "map decision_core ds' = map decision_core ds"
proof -
  obtain ps ann where r: "resolve_person_entities U (filter (\<lambda>(i, d). has_name_parts d) (personal_decisions ds)) = (ps, ann)"
    by force
  define ordered where "ordered = sort_key (\<lambda>(i, d). c_start (d_candidate d)) (personal_decisions ds')"
  from assms r have g: "groups = fst (foldl (group_step U ps) ([], \<lambda>_. 0) ordered)" "ds' = write_parts ann ds"
    by (auto simp: group_personal_decisions_def ordered_def Let_def)
  obtain counters where c: "foldl (group_step U ps) ([], \<lambda>_. 0) ordered = (groups, counters)"
    using g(1) by (metis prod.collapse)
  show thesis
    by (rule that [of "group_key U ps" counters])
      (use group_steps_ok [OF groups_ok_Nil, of U ps ordered] c g(2) write_parts_core
        in \<open>simp_all add: ordered_def\<close>)
qed

lemma entity_tokens_distinct:
  "groups_ok key (groups, counters) \<Longrightarrow> distinct (map (\<lambda>g. token_for (eg_entity_id g)) groups)"
  by (auto simp: groups_ok_def distinct_map inj_on_def)

lemma entity_tokens_shape:
  "groups_ok key (groups, counters) \<Longrightarrow> g \<in> set groups \<Longrightarrow> token_shape (token_for (eg_entity_id g))"
  using token_for_shape by (fastforce simp: groups_ok_def)

section \<open>Properties\<close>

text \<open>
  C26. Grouping gives every decision to mask exactly one entity, and entities are unique: the groups
  partition the personal decisions, no two groups share an identity key or an entity identifier, and
  no group is empty; masking decisions, types and positions are left as they were.
\<close>

theorem groups_partition_and_unique_ids:
  assumes "group_personal_decisions U decisions = (groups, decisions')"
  shows "mset (concat (map eg_decisions groups)) = mset (personal_decisions decisions') \<and>
    distinct (map eg_identity_key groups) \<and> distinct (map eg_entity_id groups) \<and>
    [] \<notin> set (map eg_decisions groups) \<and> map decision_core decisions' = map decision_core decisions"
proof -
  obtain key counters where "groups_ok key (groups, counters)"
    "mset (concat (map eg_decisions groups)) = mset (personal_decisions decisions')"
    "map decision_core decisions' = map decision_core decisions"
    by (rule group_personal_decisions_ok [OF assms])
  then show ?thesis by (auto simp: groups_ok_def)
qed

lemma groups_partition_and_unique_ids_witness:
  "let (groups, ds) = group_personal_decisions ucd_ru
         [sample_mention [sample_word [1] First 0, sample_word [2] Surname 3] 10,
          sample_mention [sample_word [1] First 0, sample_word [2] Surname 3] 30]
   in distinct (map eg_entity_id groups) \<and> length (concat (map eg_decisions groups)) = 2"
proof -
  let ?ds = "[sample_mention [sample_word [1] First 0, sample_word [2] Surname 3] 10,
          sample_mention [sample_word [1] First 0, sample_word [2] Surname 3] 30]"
  obtain groups ds where g: "group_personal_decisions ucd_ru ?ds = (groups, ds)" by force
  note props = groups_partition_and_unique_ids [OF g]
  from props have core: "map decision_core ds = map decision_core ?ds" by blast
  then obtain d1 d2 where ds: "ds = [d1, d2]" "decision_core d1 = decision_core (?ds ! 0)" "decision_core d2 = decision_core (?ds ! 1)"
    by (auto simp: map_eq_Cons_conv)
  then have "length (personal_decisions ds) = 2"
    by (simp add: personal_decisions_def decision_core_def sample_mention_def is_personal_def)
  moreover have "length (concat (map eg_decisions groups)) = length (personal_decisions ds)"
    using props by (metis size_mset)
  ultimately show ?thesis using props by (simp add: g)
qed

end
