(* ===== verification/Checksums.thy ===== *)
theory Checksums
  imports Models
begin

text \<open>
  Check digits: the validators of \<^verbatim>\<open>detectors/checksums.py\<close> (Luhn for card numbers, the
  weighted sums of 10- and 12-digit INNs) and the generators of
  \<^verbatim>\<open>replacement/synthetic_values.py\<close> that complete synthetic numbers. The lemmas show
  that the generators and the validators agree and what kind of errors Luhn detects.
\<close>

text \<open>\<open>s.isdigit()\<close>: not empty and every character a digit.\<close>

definition str_isdigit :: "ucd \<Rightarrow> str \<Rightarrow> bool" where
  "str_isdigit U s \<longleftrightarrow> s \<noteq> [] \<and> list_all (u_isdigit U) s"

text \<open>\<open>[int(ch) for ch in s]\<close>; \<open>None\<close> when \<open>int\<close> refuses a character.\<close>

definition py_ints :: "ucd \<Rightarrow> str \<Rightarrow> nat list option" where
  "py_ints U s = those (map (u_digit U) s)"

section \<open>Luhn\<close>

definition luhn_digit :: "nat \<Rightarrow> nat \<Rightarrow> nat \<Rightarrow> nat" where
  "luhn_digit parity i d =
     (if i mod 2 = parity then (let d2 = d * 2 in if d2 > 9 then d2 - 9 else d2) else d)"

fun luhn_loop :: "nat \<Rightarrow> nat \<Rightarrow> nat \<Rightarrow> nat list \<Rightarrow> nat" where
  "luhn_loop parity i tot [] = tot"
| "luhn_loop parity i tot (d # ds) = luhn_loop parity (Suc i) (tot + luhn_digit parity i d) ds"

definition luhn_total :: "nat list \<Rightarrow> nat" where
  "luhn_total ds = luhn_loop (length ds mod 2) 0 0 ds"

definition luhn_valid :: "ucd \<Rightarrow> str \<Rightarrow> bool result" where
  "luhn_valid U digits =
     (if \<not> str_isdigit U digits then Inr False
      else case py_ints U digits of
             None \<Rightarrow> Inl ValueError
           | Some ds \<Rightarrow> Inr (luhn_total ds mod 10 = 0))"

definition luhn_check_digit :: "ucd \<Rightarrow> str \<Rightarrow> str result" where
  "luhn_check_digit U prefix =
     (case py_ints U prefix of
        None \<Rightarrow> Inl ValueError
      | Some ds \<Rightarrow> Inr (nat_str (nat ((- int (luhn_total (ds @ [0]))) mod 10))))"

section \<open>INN\<close>

definition weighted_sum :: "nat list \<Rightarrow> nat list \<Rightarrow> nat" where
  "weighted_sum ds ws = sum_list (map (\<lambda>(a, b). a * b) (zip ds ws))"

definition inn10_weights :: "nat list" where
  "inn10_weights = [2, 4, 10, 3, 5, 9, 4, 6, 8]"

definition inn11_weights :: "nat list" where
  "inn11_weights = [7, 2, 4, 10, 3, 5, 9, 4, 6, 8]"

definition inn12_weights :: "nat list" where
  "inn12_weights = [3, 7, 2, 4, 10, 3, 5, 9, 4, 6, 8]"

definition inn10_checksum :: "nat list \<Rightarrow> nat" where
  "inn10_checksum digits9 = weighted_sum digits9 inn10_weights mod 11 mod 10"

definition inn12_checks :: "nat list \<Rightarrow> nat \<times> nat" where
  "inn12_checks digits10 =
     (let d11 = weighted_sum digits10 inn11_weights mod 11 mod 10;
          d12 = weighted_sum (digits10 @ [d11]) inn12_weights mod 11 mod 10
      in (d11, d12))"

text \<open>
  \<open>inn_valid\<close>. The source converts the digits inside each sum; all of them are converted on every
  path that reaches a comparison, so one conversion up front raises in the same cases.
\<close>

definition inn_valid :: "ucd \<Rightarrow> str \<Rightarrow> bool result" where
  "inn_valid U digits =
     (if \<not> str_isdigit U digits then Inr False
      else if length digits = 10 then
        (case py_ints U digits of
           None \<Rightarrow> Inl ValueError
         | Some ds \<Rightarrow> Inr (weighted_sum (take 9 ds) inn10_weights mod 11 mod 10 = ds ! 9))
      else if length digits = 12 then
        (case py_ints U digits of
           None \<Rightarrow> Inl ValueError
         | Some ds \<Rightarrow>
             (let d11 = weighted_sum (take 10 ds) inn11_weights mod 11 mod 10;
                  d12 = weighted_sum (take 10 ds @ [d11]) inn12_weights mod 11 mod 10
              in Inr (d11 = ds ! 10 \<and> d12 = ds ! 11)))
      else Inr False)"

text \<open>Digits as the ASCII characters that \<open>str\<close> renders.\<close>

definition digit_chars :: "nat list \<Rightarrow> str" where
  "digit_chars ds = map (\<lambda>d. 48 + int d) ds"

text \<open>
  The completion in \<open>SyntheticGenerator.inn\<close>: from \<open>length - 1\<close> drawn digits, the 10-digit form
  appends its check digit and the 12-digit form replaces the last drawn digit by both checks.
\<close>

definition inn_complete :: "nat \<Rightarrow> nat list \<Rightarrow> nat list" where
  "inn_complete len digits =
     (if len = 10 then digits @ [inn10_checksum digits]
      else if len = 12 then
        (case inn12_checks (take 10 digits) of (d11, d12) \<Rightarrow> take 10 digits @ [d11, d12])
      else digits)"

section \<open>Parsing rendered digits\<close>

abbreviation digits_ok :: "nat list \<Rightarrow> bool" where
  "digits_ok ds \<equiv> \<forall>d \<in> set ds. d < 10"

lemma nat_str_small: "n < 10 \<Longrightarrow> nat_str n = [48 + int n]"
  by (simp add: nat_str.simps)

lemma digit_chars_append [simp]: "digit_chars (xs @ ys) = digit_chars xs @ digit_chars ys"
  by (simp add: digit_chars_def)

lemma digit_chars_single: "d < 10 \<Longrightarrow> digit_chars [d] = nat_str d"
  by (simp add: digit_chars_def nat_str_small)

lemma those_map_Some: "\<forall>x \<in> set xs. f (g x) = Some (h x) \<Longrightarrow> those (map (f \<circ> g) xs) = Some (map h xs)"
  by (induction xs) auto

context unicode_db
begin

lemma ascii_digit_char: "d < 10 \<Longrightarrow> ascii_digit (48 + int d)"
  by (simp add: ascii_digit_def)

lemma py_ints_digit_chars:
  assumes "digits_ok ds"
  shows "py_ints U (digit_chars ds) = Some ds"
proof -
  have "\<forall>d \<in> set ds. u_digit U (48 + int d) = Some (id d)"
    using assms ascii_decimal ascii_digit_char by fastforce
  from those_map_Some [of ds "u_digit U" "\<lambda>d. 48 + int d" id, OF this] show ?thesis
    by (simp add: py_ints_def digit_chars_def)
qed

lemma str_isdigit_digit_chars: "digits_ok ds \<Longrightarrow> ds \<noteq> [] \<Longrightarrow> str_isdigit U (digit_chars ds)"
  using ascii_digit_char ascii_digit_isdigit by (auto simp: str_isdigit_def digit_chars_def list_all_iff)

lemma luhn_valid_digit_chars:
  "digits_ok ds \<Longrightarrow> ds \<noteq> [] \<Longrightarrow> luhn_valid U (digit_chars ds) = Inr (luhn_total ds mod 10 = 0)"
  by (simp add: luhn_valid_def str_isdigit_digit_chars py_ints_digit_chars)

end

section \<open>Luhn as a sum over positions\<close>

lemma luhn_loop_sum:
  "luhn_loop parity i tot ds = tot + (\<Sum>k < length ds. luhn_digit parity (i + k) (ds ! k))"
proof (induction ds arbitrary: i tot)
  case (Cons d ds)
  have "(\<Sum>k < length (d # ds). luhn_digit parity (i + k) ((d # ds) ! k)) =
      luhn_digit parity i d + (\<Sum>k < length ds. luhn_digit parity (Suc i + k) (ds ! k))"
    by (simp add: sum.lessThan_Suc_shift del: sum.lessThan_Suc)
  then show ?case by (simp add: Cons.IH)
qed simp

lemma luhn_total_sum: "luhn_total ds = (\<Sum>k < length ds. luhn_digit (length ds mod 2) k (ds ! k))"
  by (simp add: luhn_total_def luhn_loop_sum)

lemma luhn_total_snoc: "luhn_total (ds @ [d]) = luhn_total (ds @ [0]) + d"
proof -
  have odd: "length ds mod 2 \<noteq> Suc (length ds) mod 2" by presburger
  then have "luhn_digit (Suc (length ds) mod 2) (length ds) x = x" for x
    by (simp add: luhn_digit_def)
  then show ?thesis
    by (simp add: luhn_total_sum nth_append)
qed

text \<open>Doubling is injective on digits, also modulo 10.\<close>

lemma luhn_digit_cases:
  "d < 10 \<Longrightarrow> luhn_digit p i d mod 10 =
    (if i mod 2 \<noteq> p then d else if d < 5 then 2 * d else 2 * d - 9)"
  by (simp add: luhn_digit_def Let_def) presburger

lemma luhn_digit_inject:
  assumes "a < 10" "b < 10" "luhn_digit p i a mod 10 = luhn_digit p i b mod 10"
  shows "a = b"
  using assms by (simp add: luhn_digit_cases split: if_splits) presburger+

lemma luhn_total_update:
  assumes "i < length ds"
  shows "luhn_total (ds[i := d]) + luhn_digit (length ds mod 2) i (ds ! i) =
    luhn_total ds + luhn_digit (length ds mod 2) i d"
proof -
  let ?p = "length ds mod 2"
  have split: "(\<Sum>k < length ds. f k) = f i + (\<Sum>k \<in> {..<length ds} - {i}. f k)"
    for f :: "nat \<Rightarrow> nat"
    using assms by (simp add: sum.remove)
  have "(\<Sum>k \<in> {..<length ds} - {i}. luhn_digit ?p k (ds[i := d] ! k)) =
      (\<Sum>k \<in> {..<length ds} - {i}. luhn_digit ?p k (ds ! k))"
    by (intro sum.cong) auto
  then show ?thesis
    using assms by (simp add: luhn_total_sum split)
qed

lemma luhn_detects_single_error:
  assumes "digits_ok ds" "d < 10" "i < length ds" "d \<noteq> ds ! i" "luhn_total ds mod 10 = 0"
  shows "luhn_total (ds[i := d]) mod 10 \<noteq> 0"
proof
  let ?p = "length ds mod 2"
  assume "luhn_total (ds[i := d]) mod 10 = 0"
  with assms(5) luhn_total_update [OF assms(3), of d]
  have "luhn_digit ?p i (ds ! i) mod 10 = luhn_digit ?p i d mod 10"
    by (metis mod_add_left_eq mod_add_right_eq add_0)
  with assms luhn_digit_inject show False by (metis nth_mem)
qed

section \<open>INN check digits\<close>

lemma mod_11_10_less: "(n::nat) mod 11 mod 10 < 10"
  by simp

lemma inn10_checksum_less: "inn10_checksum ds < 10"
  by (simp add: inn10_checksum_def)

lemma inn_complete_length:
  "length digits = len - 1 \<Longrightarrow> len = 10 \<or> len = 12 \<Longrightarrow> length (inn_complete len digits) = len"
  by (auto simp: inn_complete_def inn12_checks_def Let_def)

lemma inn_complete_digits: "digits_ok digits \<Longrightarrow> digits_ok (inn_complete len digits)"
  by (auto simp: inn_complete_def inn12_checks_def Let_def inn10_checksum_def dest: in_set_takeD)

lemma luhn_total_check:
  "(luhn_total (ds @ [nat ((- int (luhn_total (ds @ [0]))) mod 10)])) mod 10 = 0"
proof -
  let ?t = "luhn_total (ds @ [0])"
  have "int (?t + nat ((- int ?t) mod 10)) mod 10 = 0" by (simp add: mod_simps)
  then have "(?t + nat ((- int ?t) mod 10)) mod 10 = 0" by presburger
  then show ?thesis by (simp add: luhn_total_snoc [of ds "nat ((- int ?t) mod 10)"])
qed

lemma inn_complete_12:
  assumes "length digits = 11"
  shows "inn_complete 12 digits ! 10 = fst (inn12_checks (take 10 digits))"
    "inn_complete 12 digits ! 11 = snd (inn12_checks (take 10 digits))"
    "take 10 (inn_complete 12 digits) = take 10 digits"
  using assms by (simp_all add: inn_complete_def nth_append split: prod.splits)

lemma inn_complete_accepted:
  assumes "unicode_db U" "digits_ok digits" "len = 10 \<or> len = 12" "length digits = len - 1"
  shows "inn_valid U (digit_chars (inn_complete len digits)) = Inr True"
proof -
  let ?ds = "inn_complete len digits"
  have len: "length ?ds = len" using inn_complete_length [OF assms(4,3)] .
  have ok: "digits_ok ?ds" using inn_complete_digits [OF assms(2)] .
  have ne: "?ds \<noteq> []" using len assms(3) by auto
  have isd: "str_isdigit U (digit_chars ?ds)"
    by (rule unicode_db.str_isdigit_digit_chars [OF assms(1) ok ne])
  have ints: "py_ints U (digit_chars ?ds) = Some ?ds"
    by (rule unicode_db.py_ints_digit_chars [OF assms(1) ok])
  have dlen: "length (digit_chars ?ds) = len" using len by (simp add: digit_chars_def)
  from assms(3) show ?thesis
  proof
    assume "len = 10"
    then show ?thesis using isd ints dlen assms(4)
      by (simp add: inn_valid_def inn_complete_def inn10_checksum_def nth_append)
  next
    assume "len = 12"
    then show ?thesis using isd ints dlen inn_complete_12 [of digits] assms(4)
      by (simp add: inn_valid_def inn12_checks_def Let_def)
  qed
qed

section \<open>Properties\<close>

text \<open>
  C39. Luhn validation detects every single-digit error: changing one digit of a number the validator
  accepts gives a number it rejects.
\<close>

theorem luhn_rejects_single_error:
  assumes "unicode_db U" "digits_ok ds" "luhn_valid U (digit_chars ds) = Inr True"
    and "i < length ds" "d < 10" "d \<noteq> ds ! i"
  shows "luhn_valid U (digit_chars (ds[i := d])) = Inr False"
proof -
  have ne: "ds \<noteq> []" using assms(4) by auto
  have ok: "digits_ok (ds[i := d])" using assms(2,5) by (auto dest: set_update_subset_insert [THEN subsetD])
  have "luhn_total ds mod 10 = 0"
    using unicode_db.luhn_valid_digit_chars [OF assms(1,2) ne] assms(3) by simp
  from luhn_detects_single_error [OF assms(2,5,4,6) this] unicode_db.luhn_valid_digit_chars [OF assms(1) ok] ne
  show ?thesis by simp
qed

lemma luhn_rejects_single_error_witness:
  "luhn_valid ucd_ru (digit_chars [4, 5, 3, 9, 1, 4, 8, 8, 0, 3, 4, 3, 6, 4, 6, 7]) = Inr True \<and>
   luhn_valid ucd_ru (digit_chars [4, 5, 3, 9, 1, 4, 8, 8, 0, 3, 4, 3, 6, 4, 6, 2]) = Inr False"
proof -
  have valid: "luhn_valid ucd_ru (digit_chars [4, 5, 3, 9, 1, 4, 8, 8, 0, 3, 4, 3, 6, 4, 6, 7]) = Inr True"
    by (simp add: ucd_ru.luhn_valid_digit_chars luhn_total_def luhn_digit_def)
  from luhn_rejects_single_error [OF ucd_ru.unicode_db_axioms _ this, of 15 2] valid show ?thesis by simp
qed

text \<open>
  The generator's check digit is the one the validator expects: a digit string completed by
  \<open>_luhn_check_digit\<close> passes \<open>luhn_valid\<close>.
\<close>

lemma luhn_check_digit_valid:
  assumes "unicode_db U" "digits_ok ds"
  shows "\<exists>check. luhn_check_digit U (digit_chars ds) = Inr check \<and>
    luhn_valid U (digit_chars ds @ check) = Inr True"
proof -
  define c where "c = nat ((- int (luhn_total (ds @ [0]))) mod 10)"
  have c: "c < 10" unfolding c_def by (simp add: nat_less_iff)
  have "luhn_check_digit U (digit_chars ds) = Inr (nat_str c)"
    by (simp add: luhn_check_digit_def unicode_db.py_ints_digit_chars [OF assms] c_def)
  moreover have "luhn_valid U (digit_chars (ds @ [c])) = Inr True"
    using unicode_db.luhn_valid_digit_chars [OF assms(1), of "ds @ [c]"] assms(2) c luhn_total_check [of ds]
    by (simp add: c_def)
  ultimately show ?thesis using digit_chars_single [OF c] by simp
qed

text \<open>
  A synthetic INN of either length passes the detector's own validation: the digits drawn by
  \<open>SyntheticGenerator.inn\<close>, completed by its checksums, are accepted by \<open>inn_valid\<close>.
\<close>

lemma inn_complete_valid:
  assumes "unicode_db U" "digits_ok digits" "len = 10 \<or> len = 12" "length digits = len - 1"
  shows "inn_valid U (digit_chars (inn_complete len digits)) = Inr True"
  by (rule inn_complete_accepted [OF assms])

end
