(* ===== verification/Russian.thy ===== *)
theory Russian
  imports Py_Prelude
begin

text \<open>
  Russian literals. The sources are written in Cyrillic, the theories in ASCII, so a Cyrillic
  literal is written letter by letter in Latin letters: one Latin letter stands for one Cyrillic
  letter, and a caret makes the next letter a capital. \<open>ru\<close> turns the transcription into code
  points; any other character stands for itself. The transcription of the alphabet is
  \<^verbatim>\<open>abvgdewzijklmnoprstufxcCSWQyqAUI\<close> in alphabetical order, and \<^verbatim>\<open>E\<close> for the letter io.
  Also here: \<^verbatim>\<open>core/ru_text.py\<close>.
\<close>

definition ru_letters :: "(char \<times> uchar) list" where
  "ru_letters = (CHR ''E'', 1105) # zip ''abvgdewzijklmnoprstufxcCSWQyqAUI'' [1072..1103]"

definition ru_letter :: "char \<Rightarrow> uchar" where
  "ru_letter c = (case map_of ru_letters c of Some u \<Rightarrow> u | None \<Rightarrow> of_char c)"

fun ru :: "string \<Rightarrow> str" where
  "ru [] = []"
| "ru (c # cs) =
     (if c = CHR ''^'' then (case ru cs of [] \<Rightarrow> [] | u # us \<Rightarrow> ru_to_upper u # us)
      else ru_letter c # ru cs)"

definition GENITIVE_MONTHS :: "str list" where
  "GENITIVE_MONTHS =
    map ru [''InvarI'', ''fevralI'', ''marta'', ''aprelI'', ''maI'', ''iUnI'', ''iUlI'', ''avgusta'',
     ''sentIbrI'', ''oktIbrI'', ''noIbrI'', ''dekabrI'']"

lemma GENITIVE_MONTHS_length: "length GENITIVE_MONTHS = 12"
  by (simp add: GENITIVE_MONTHS_def)

end
