(* ===== verification/Synthetic.thy ===== *)
theory Synthetic
  imports Checksums Regex Russian Morphology
begin

text \<open>
  \<^verbatim>\<open>replacement/synthetic_values.py\<close>: the deterministic generator of synthetic values. Draws come
  from SHA-256 in counter mode; the hash is the parameter \<open>H\<close>, the number in the first eight bytes
  of the digest of a string. Rejection sampling may in principle run forever, so a generator is a
  function of the counter with three outcomes: no return (\<open>None\<close>), an exception, or a value and the
  next counter. The lemmas show that draws are uniform in their range, that sampling returns as soon
  as the stream has an acceptable draw, that digit surrogates keep the shape of the original and
  always differ from it, and that synthetic card numbers and INNs pass the detectors' checks.
\<close>

named_theorems gen_simps \<open>what a successful generator run consists of\<close>

type_synonym 'a gen = "nat \<Rightarrow> ('a \<times> nat) result option"

definition gret :: "'a \<Rightarrow> 'a gen" where
  "gret x = (\<lambda>n. Some (Inr (x, n)))"

definition gfail :: "exn \<Rightarrow> 'a gen" where
  "gfail e = (\<lambda>n. Some (Inl e))"

definition gbind :: "'a gen \<Rightarrow> ('a \<Rightarrow> 'b gen) \<Rightarrow> 'b gen" where
  "gbind m f = (\<lambda>n. case m n of
     None \<Rightarrow> None
   | Some (Inl e) \<Rightarrow> Some (Inl e)
   | Some (Inr (x, n')) \<Rightarrow> f x n')"

definition gmap :: "('a \<Rightarrow> 'b) \<Rightarrow> 'a gen \<Rightarrow> 'b gen" where
  "gmap f m = gbind m (\<lambda>x. gret (f x))"

fun gsequence :: "'a gen list \<Rightarrow> 'a list gen" where
  "gsequence [] = gret []"
| "gsequence (m # ms) = gbind m (\<lambda>x. gbind (gsequence ms) (\<lambda>xs. gret (x # xs)))"

text \<open>
  \<open>for _ in range(n): x = m(); if ok(x): break\<close>, and then \<open>x\<close>: the first acceptable draw, or the
  last of \<open>n\<close> draws.
\<close>

fun retry :: "nat \<Rightarrow> ('a \<Rightarrow> bool) \<Rightarrow> 'a gen \<Rightarrow> 'a gen" where
  "retry n ok m = gbind m (\<lambda>x. if ok x \<or> n \<le> 1 then gret x else retry (n - 1) ok m)"

declare retry.simps [simp del]

section \<open>The stream\<close>

type_synonym hash8 = "str \<Rightarrow> nat"

partial_function (option) randbelow_loop :: "hash8 \<Rightarrow> str \<Rightarrow> nat \<Rightarrow> nat \<Rightarrow> (nat \<times> nat) option" where
  "randbelow_loop H prefix n counter =
     (let val = H (prefix @ asc '':'' @ nat_str counter) in
      if val < 2 ^ 64 div n * n then Some (val mod n, counter + 1)
      else randbelow_loop H prefix n (counter + 1))"

text \<open>A stream is the hash and the decimal rendering of its seed.\<close>

type_synonym stream = "hash8 \<times> str"

definition randbelow :: "stream \<Rightarrow> nat \<Rightarrow> nat gen" where
  "randbelow R n = (\<lambda>counter.
     case randbelow_loop (fst R) (snd R) n counter of
       None \<Rightarrow> None
     | Some (v, counter') \<Rightarrow> Some (Inr (v, counter')))"

definition randint :: "stream \<Rightarrow> nat \<Rightarrow> nat \<Rightarrow> nat gen" where
  "randint R low high = gmap (\<lambda>v. low + v) (randbelow R (high - low + 1))"

definition choice :: "stream \<Rightarrow> 'a list \<Rightarrow> 'a gen" where
  "choice R seq = gmap (\<lambda>i. seq ! i) (randbelow R (length seq))"

definition new_stream :: "hash8 \<Rightarrow> nat \<Rightarrow> stream" where
  "new_stream H seed = (H, nat_str seed)"

section \<open>Pools\<close>

definition MALE_FIRST :: "str list" where
  "MALE_FIRST =
    map ru [''^ivan'', ''^aleksandr'', ''^dmitrij'', ''^aleksej'', ''^sergej'', ''^mixail'',
     ''^nikolaj'', ''^andrej'', ''^pavel'', ''^maksim'', ''^anton'', ''^Urij'', ''^pEtr'',
     ''^lev'', ''^roman'', ''^viktor'']"

definition FEMALE_FIRST :: "str list" where
  "FEMALE_FIRST =
    map ru [''^anna'', ''^mariI'', ''^elena'', ''^olqga'', ''^natalqI'', ''^ekaterina'', ''^irina'',
     ''^alina'', ''^darqI'', ''^svetlana'', ''^tatqIna'', ''^UliI'', ''^polina'',
     ''^viktoriI'', ''^kseniI'']"

definition MALE_LAST :: "str list" where
  "MALE_LAST =
    map ru [''^ivanov'', ''^petrov'', ''^smirnov'', ''^kuznecov'', ''^sokolov'', ''^popov'',
     ''^lebedev'', ''^kozlov'', ''^novikov'', ''^morozov'', ''^volkov'', ''^egorov'',
     ''^zaxarov'', ''^frolov'']"

definition FEMALE_LAST :: "str list" where
  "FEMALE_LAST = map (\<lambda>s. s @ ru ''a'') MALE_LAST"

definition MALE_PATR :: "str list" where
  "MALE_PATR =
    map ru [''^ivanoviC'', ''^aleksandroviC'', ''^sergeeviC'', ''^petroviC'', ''^alekseeviC'',
     ''^mixajloviC'', ''^nikolaeviC'', ''^andreeviC'', ''^dmitrieviC'', ''^viktoroviC'']"

definition FEMALE_PATR :: "str list" where
  "FEMALE_PATR =
    map ru [''^ivanovna'', ''^aleksandrovna'', ''^sergeevna'', ''^petrovna'', ''^alekseevna'',
     ''^mixajlovna'', ''^nikolaevna'', ''^andreevna'', ''^dmitrievna'', ''^viktorovna'']"

definition CITIES :: "str list" where
  "CITIES =
    map ru [''^moskva'', ''^sankt-^peterburg'', ''^kazanq'', ''^ekaterinburg'', ''^novosibirsk'',
     ''^samara'', ''^voronew'', ''^permq'']"

definition STREETS :: "str list" where
  "STREETS =
    map ru [''^lenina'', ''^mira'', ''^gagarina'', ''^sadovaI'', ''^sovetskaI'', ''^pobedy'',
     ''^lesnaI'', ''^centralqnaI'']"

definition COUNTRIES :: "str list" where
  "COUNTRIES =
    map ru [''^rossiI'', ''^rossijskaI ^federaciI'', ''^belarusq'', ''^kazaxstan'', ''^armeniI'',
     ''^kyrgyzstan'', ''^uzbekistan'', ''^tadwikistan'', ''^azerbajdwan'', ''^moldova'',
     ''^turkmenistan'', ''^gruziI'']"

definition EMAIL_LOCAL_POOL :: "str list" where
  "EMAIL_LOCAL_POOL =
    map asc [''ivan'', ''alex'', ''maria'', ''anna'', ''dmitry'', ''client'', ''user'', ''info'']"

definition EMAIL_DOMAIN_POOL :: "str list" where
  "EMAIL_DOMAIN_POOL =
    map asc [''mail.ru'', ''example.com'', ''yandex.ru'', ''inbox.ru'', ''gmail.com'']"

definition ISSUER_PREFIXES :: "str list" where
  "ISSUER_PREFIXES =
    map ru [''^g^u ^m^v^d ^rossii po g.'', ''^u^m^v^d ^rossii po g.'',
     ''^otdelom ^m^v^d ^rossii po g.'']"

section \<open>Names\<close>

definition first_word :: "ucd \<Rightarrow> str \<Rightarrow> str result" where
  "first_word U s =
     (if s = [] then Inr [] else case split_ws U s of [] \<Rightarrow> Inl IndexError | w # _ \<Rightarrow> Inr w)"

definition person_draw :: "stream \<Rightarrow> str \<Rightarrow> (str \<times> str \<times> str) gen" where
  "person_draw R gender =
     (let (first_pool, last_pool, patr_pool) =
            (if gender = masc then (MALE_FIRST, MALE_LAST, MALE_PATR)
             else (FEMALE_FIRST, FEMALE_LAST, FEMALE_PATR))
      in gbind (choice R first_pool) (\<lambda>first_name.
         gbind (choice R last_pool) (\<lambda>last_name.
         gbind (choice R patr_pool) (\<lambda>patr. gret (last_name, first_name, patr)))))"

fun nominal_of :: "str \<times> str \<times> str \<Rightarrow> str" where
  "nominal_of (last_name, first_name, patr) = last_name @ asc '' '' @ first_name @ asc '' '' @ patr"

definition person :: "ucd \<Rightarrow> analyzer \<Rightarrow> stream \<Rightarrow> str \<Rightarrow> str option \<Rightarrow> name_identity gen" where
  "person U A R original_nominal gender0 =
     (case (if truthy gender0 then Inr (the gender0)
            else case first_word U original_nominal of
                   Inl e \<Rightarrow> Inl e | Inr w \<Rightarrow> Inr (guess_gender A w)) of
        Inl e \<Rightarrow> gfail e
      | Inr gender \<Rightarrow>
          gmap (\<lambda>(last_name, first_name, patr).
                  \<lparr>ni_surname = Some last_name, ni_first = Some first_name, ni_patronymic = Some patr,
                   ni_gender = Some gender, ni_nominal = Some (nominal_of (last_name, first_name, patr))\<rparr>)
            (retry 10 (\<lambda>p. nominal_of p \<noteq> original_nominal) (person_draw R gender)))"

definition full_name_in_case ::
  "ucd \<Rightarrow> analyzer \<Rightarrow> stream \<Rightarrow> str \<Rightarrow> str option \<Rightarrow> str \<Rightarrow> (str \<times> name_identity) gen" where
  "full_name_in_case U A R original_nominal gender case_name =
     gmap (\<lambda>identity. (inflect_full_name U A (ni_surname identity) (ni_first identity)
                         (ni_patronymic identity) case_name (ni_gender identity), identity))
       (person U A R original_nominal gender)"

section \<open>Dates\<close>

definition is_leap :: "nat \<Rightarrow> bool" where
  "is_leap y \<longleftrightarrow> y mod 4 = 0 \<and> (y mod 100 \<noteq> 0 \<or> y mod 400 = 0)"

definition days_in_month :: "nat \<Rightarrow> nat \<Rightarrow> nat" where
  "days_in_month y m =
     (if m = 2 then (if is_leap y then 29 else 28) else if m \<in> {4, 6, 9, 11} then 30 else 31)"

definition days_in_year :: "nat \<Rightarrow> nat" where
  "days_in_year y = (if is_leap y then 366 else 365)"

text \<open>The date \<open>n\<close> days after the first of January of \<open>y\<close>, year by year and month by month.\<close>

function day_of_year :: "nat \<Rightarrow> nat \<Rightarrow> nat \<times> nat" where
  "day_of_year y n = (if n < days_in_year y then (y, n) else day_of_year (y + 1) (n - days_in_year y))"
  by pat_completeness auto
termination
  by (relation "measure (\<lambda>(y, n). n)") (auto simp: days_in_year_def)

fun month_of_day :: "nat \<Rightarrow> nat list \<Rightarrow> nat \<Rightarrow> nat \<times> nat" where
  "month_of_day y [] n = (12, n + 1)"
| "month_of_day y (m # ms) n =
     (if n < days_in_month y m then (m, n + 1) else month_of_day y ms (n - days_in_month y m))"

definition date_after :: "nat \<Rightarrow> nat \<Rightarrow> nat \<times> nat \<times> nat" where
  "date_after y0 n =
     (let (y, r) = day_of_year y0 n; (m, d) = month_of_day y [1..<13] r in (y, m, d))"

text \<open>\<open>(date(2008, 12, 31) - date(1945, 1, 1)).days\<close>\<close>

definition date_range_days :: nat where
  "date_range_days = sum_list (map days_in_year [1945..<2009]) - 1"

datatype date_format = DotDMY | SlashDMY | DashDMY | IsoYMD | TextDate

definition pad :: "nat \<Rightarrow> nat \<Rightarrow> str" where
  "pad width n = replicate (width - length (nat_str n)) 48 @ nat_str n"

text \<open>
  The directives of \<open>datetime.strptime\<close> as the standard library compiles them, each in its group;
  the parsed numbers must form a date.
\<close>

definition digit_in :: "string \<Rightarrow> re" where
  "digit_in cs = RChar (\<lambda>c. c \<in> set (asc cs))"

definition re_d :: "ucd \<Rightarrow> re" where
  "re_d U = RGroup 1 (RAlts (RSeq (RChar (is_char 51)) (digit_in ''01''))
     [RSeq (digit_in ''12'') (RChar (u_isdecimal U)), RSeq (RChar (is_char 48)) (digit_in ''123456789''),
      digit_in ''123456789'', RSeq (RChar (is_char 32)) (digit_in ''123456789'')])"

definition re_m :: re where
  "re_m = RGroup 2 (RAlts (RSeq (RChar (is_char 49)) (digit_in ''012''))
     [RSeq (RChar (is_char 48)) (digit_in ''123456789''), digit_in ''123456789''])"

definition re_Y :: "ucd \<Rightarrow> re" where
  "re_Y U = RGroup 3 (RTimes (RChar (u_isdecimal U)) 4)"

fun strptime_re :: "ucd \<Rightarrow> date_format \<Rightarrow> re" where
  "strptime_re U DotDMY = RSeqs [re_d U, RChar (is_char 46), re_m, RChar (is_char 46), re_Y U]"
| "strptime_re U SlashDMY = RSeqs [re_d U, RChar (is_char 47), re_m, RChar (is_char 47), re_Y U]"
| "strptime_re U DashDMY = RSeqs [re_d U, RChar (is_char 45), re_m, RChar (is_char 45), re_Y U]"
| "strptime_re U IsoYMD = RSeqs [re_Y U, RChar (is_char 45), re_m, RChar (is_char 45), re_d U]"
| "strptime_re U TextDate = REps"

definition group_text :: "str \<Rightarrow> groups \<Rightarrow> nat \<Rightarrow> str" where
  "group_text s g k = (case g k of Some (a, b) \<Rightarrow> slice s a b | None \<Rightarrow> [])"

definition digits_value :: "ucd \<Rightarrow> str \<Rightarrow> nat" where
  "digits_value U s = foldl (\<lambda>n c. 10 * n + (case u_digit U c of Some d \<Rightarrow> d | None \<Rightarrow> 0)) 0
     (filter (\<lambda>c. c \<noteq> 32) s)"

definition strptime_ok :: "ucd \<Rightarrow> date_format \<Rightarrow> str \<Rightarrow> bool" where
  "strptime_ok U fmt s =
     (case match_at (strptime_re U fmt) s 0 of
        None \<Rightarrow> False
      | Some (j, g) \<Rightarrow>
          (let y = digits_value U (group_text s g 3); m = digits_value U (group_text s g 2);
               d = digits_value U (group_text s g 1)
           in j = length s \<and> 1 \<le> y \<and> d \<le> days_in_month y m))"

definition detect_date_format :: "ucd \<Rightarrow> str \<Rightarrow> date_format" where
  "detect_date_format U v =
     (case find (\<lambda>fmt. strptime_ok U fmt v) [DotDMY, SlashDMY, DashDMY, IsoYMD] of
        Some fmt \<Rightarrow> fmt | None \<Rightarrow> TextDate)"

fun format_date :: "nat \<times> nat \<times> nat \<Rightarrow> date_format \<Rightarrow> str" where
  "format_date (y, m, d) TextDate =
     nat_str d @ asc '' '' @ GENITIVE_MONTHS ! (m - 1) @ asc '' '' @ nat_str y"
| "format_date (y, m, d) DotDMY = pad 2 d @ asc ''.'' @ pad 2 m @ asc ''.'' @ pad 4 y"
| "format_date (y, m, d) SlashDMY = pad 2 d @ asc ''/'' @ pad 2 m @ asc ''/'' @ pad 4 y"
| "format_date (y, m, d) DashDMY = pad 2 d @ asc ''-'' @ pad 2 m @ asc ''-'' @ pad 4 y"
| "format_date (y, m, d) IsoYMD = pad 4 y @ asc ''-'' @ pad 2 m @ asc ''-'' @ pad 2 d"

definition date_like :: "ucd \<Rightarrow> stream \<Rightarrow> str \<Rightarrow> str gen" where
  "date_like U R v =
     (let fmt = detect_date_format U v in
      retry 10 (\<lambda>c. c \<noteq> v)
        (gmap (\<lambda>n. format_date (date_after 1945 n) fmt) (randint R 0 date_range_days)))"

section \<open>Numbers\<close>

fun digits_loop :: "ucd \<Rightarrow> stream \<Rightarrow> nat \<Rightarrow> nat \<Rightarrow> str \<Rightarrow> str gen" where
  "digits_loop U R keep seen [] = gret []"
| "digits_loop U R keep seen (ch # cs) =
     (if u_isdecimal U ch
      then gbind (if seen < keep then gret ch else gmap (\<lambda>d. 48 + int d) (randint R 0 9)) (\<lambda>out.
           gbind (digits_loop U R keep (seen + 1) cs) (\<lambda>rest. gret (out # rest)))
      else gbind (digits_loop U R keep seen cs) (\<lambda>rest. gret (ch # rest)))"

definition decimal_positions :: "ucd \<Rightarrow> str \<Rightarrow> nat list" where
  "decimal_positions U v = filter (\<lambda>i. u_isdecimal U (v ! i)) [0..<length v]"

definition digits_like :: "ucd \<Rightarrow> stream \<Rightarrow> str \<Rightarrow> nat \<Rightarrow> str gen" where
  "digits_like U R v keep_prefix_digits =
     gbind (digits_loop U R keep_prefix_digits 0 v) (\<lambda>out.
       if out \<noteq> v then gret out
       else
         (let mutable_at = drop keep_prefix_digits (decimal_positions U v) in
          if mutable_at = [] then gfail ValueError
          else
            (let index = last mutable_at in
             case u_digit U (v ! index) of
               None \<Rightarrow> gfail ValueError
             | Some d \<Rightarrow> gret (out[index := 48 + int ((d + 1) mod 10)]))))"

definition gen_email :: "stream \<Rightarrow> str \<Rightarrow> str gen" where
  "gen_email R v =
     retry 10 (\<lambda>c. c \<noteq> v)
       (gbind (choice R EMAIL_LOCAL_POOL) (\<lambda>local.
        gbind (randint R 10 99999) (\<lambda>n.
        gbind (choice R EMAIL_DOMAIN_POOL) (\<lambda>domain.
        gret (local @ nat_str n @ asc ''@'' @ domain)))))"

definition gen_phone :: "ucd \<Rightarrow> stream \<Rightarrow> str \<Rightarrow> str gen" where
  "gen_phone U R v = digits_like U R v 1"

definition draw_digits :: "stream \<Rightarrow> nat \<Rightarrow> nat list gen" where
  "draw_digits R n = gsequence (replicate n (randint R 0 9))"

definition gen_inn :: "ucd \<Rightarrow> stream \<Rightarrow> str \<Rightarrow> str gen" where
  "gen_inn U R v =
     (let len = length (filter (u_isdecimal U) v) in
      gmap (\<lambda>digits. digit_chars (inn_complete len digits)) (draw_digits R (len - 1)))"

definition chunks4 :: "str \<Rightarrow> str list" where
  "chunks4 digits = map (\<lambda>i. slice digits i (i + 4)) [0, 4, 8, 12]"

definition card_layout :: "str \<Rightarrow> str \<Rightarrow> str" where
  "card_layout v digits =
     (if str_in (asc ''-'') v then str_join (asc ''-'') (chunks4 digits)
      else if str_in (asc '' '') v then str_join (asc '' '') (chunks4 digits)
      else digits)"

definition card_number :: "ucd \<Rightarrow> stream \<Rightarrow> str \<Rightarrow> str gen" where
  "card_number U R v =
     gbind (choice R [4, 5, 2]) (\<lambda>d0.
     gbind (draw_digits R 14) (\<lambda>ds.
       (let body = digit_chars (d0 # ds) in
        case luhn_check_digit U body of
          Inl e \<Rightarrow> gfail e
        | Inr check \<Rightarrow> gret (card_layout v (body @ check)))))"

definition department_code :: "stream \<Rightarrow> str \<Rightarrow> str gen" where
  "department_code R v =
     retry 10 (\<lambda>c. c \<noteq> v)
       (gbind (randint R 0 999) (\<lambda>a. gbind (randint R 0 999) (\<lambda>b.
        gret (pad 3 a @ asc ''-'' @ pad 3 b))))"

definition citizenship :: "stream \<Rightarrow> str \<Rightarrow> str gen" where
  "citizenship R v =
     (let options = filter (\<lambda>c. c \<noteq> v) COUNTRIES in
      choice R (if options = [] then COUNTRIES else options))"

definition passport_issuer :: "stream \<Rightarrow> str \<Rightarrow> str gen" where
  "passport_issuer R v =
     retry 10 (\<lambda>c. c \<noteq> v)
       (gbind (choice R ISSUER_PREFIXES) (\<lambda>p. gbind (choice R CITIES) (\<lambda>city.
        gret (p @ asc '' '' @ city))))"

definition birth_place :: "ucd \<Rightarrow> stream \<Rightarrow> str \<Rightarrow> str gen" where
  "birth_place U R v =
     (let others = filter (\<lambda>c. \<not> str_in c v) CITIES in
      gmap (\<lambda>city.
        if starts_with (ru ''g.'') (u_lower U v) then ru ''g. '' @ city
        else if starts_with (ru ''gorod'') (u_lower U v) then ru ''gorod '' @ city
        else if str_in (ru ''rossiI'') (u_lower U v) then city @ asc '', '' @ ru ''^rossiI'' else city)
        (choice R (if others = [] then CITIES else others)))"

definition gen_address :: "stream \<Rightarrow> str \<Rightarrow> str gen" where
  "gen_address R v =
     gbind (choice R CITIES) (\<lambda>city. gbind (choice R STREETS) (\<lambda>street.
     gbind (randint R 1 250) (\<lambda>house. gbind (randint R 1 500) (\<lambda>flat.
     gbind (randint R 100000 699999) (\<lambda>index.
     gret (nat_str index @ ru '', g. '' @ city @ ru '', ul. '' @ street @ ru '', d. '' @ nat_str house @
           ru '', kv. '' @ nat_str flat))))))"

definition short_code :: "ucd \<Rightarrow> stream \<Rightarrow> str \<Rightarrow> nat \<Rightarrow> str gen" where
  "short_code U R v len =
     (let digits_only = filter (u_isdecimal U) v;
          n = (if digits_only = [] then len else length digits_only)
      in retry 10 (\<lambda>c. c \<noteq> digits_only) (gmap digit_chars (draw_digits R n)))"

fun generic :: "ucd \<Rightarrow> stream \<Rightarrow> pii_type \<Rightarrow> str \<Rightarrow> str gen" where
  "generic U R BIRTH_DATE v = date_like U R v"
| "generic U R PASSPORT_ISSUE_DATE v = date_like U R v"
| "generic U R PASSPORT v = digits_like U R v 0"
| "generic U R DRIVER_LICENSE v = digits_like U R v 0"
| "generic U R DEPARTMENT_CODE v = department_code R v"
| "generic U R CITIZENSHIP v = citizenship R v"
| "generic U R PASSPORT_ISSUER v = passport_issuer R v"
| "generic U R BIRTH_PLACE v = birth_place U R v"
| "generic U R ADDRESS v = gen_address R v"
| "generic U R EMAIL v = gen_email R v"
| "generic U R PHONE v = gen_phone U R v"
| "generic U R INN v = gen_inn U R v"
| "generic U R CARD_NUMBER v = card_number U R v"
| "generic U R CVV v = short_code U R v 3"
| "generic U R PIN v = short_code U R v 4"
| "generic U R _ v = gfail KeyError"

section \<open>Possible values of a generator\<close>

definition can :: "'a gen \<Rightarrow> 'a \<Rightarrow> bool" where
  "can m x \<longleftrightarrow> (\<exists>n n'. m n = Some (Inr (x, n')))"

lemma gbind_run [gen_simps]:
  "gbind m f n = Some (Inr (y, k)) \<longleftrightarrow> (\<exists>x j. m n = Some (Inr (x, j)) \<and> f x j = Some (Inr (y, k)))"
  by (auto simp: gbind_def split: option.splits sum.splits)

lemma gret_run [gen_simps]: "gret x n = Some (Inr (y, k)) \<longleftrightarrow> y = x \<and> k = n"
  by (auto simp: gret_def)

lemma can_gret [simp]: "can (gret x) y \<longleftrightarrow> y = x"
  by (auto simp: can_def gen_simps)

lemma can_gfail [simp]: "\<not> can (gfail e) y"
  by (simp add: can_def gfail_def)

lemma can_gbindD: "can (gbind m f) y \<Longrightarrow> \<exists>x. can m x \<and> can (f x) y"
  by (auto simp: can_def gen_simps)

lemma can_gmapD: "can (gmap f m) y \<Longrightarrow> \<exists>x. can m x \<and> y = f x"
  by (auto simp: gmap_def dest!: can_gbindD)

lemma can_gsequenceD: "can (gsequence ms) ys \<Longrightarrow> list_all2 can ms ys"
proof (induction ms arbitrary: ys)
  case (Cons m ms)
  then show ?case by (auto dest!: can_gbindD)
qed simp

lemma can_retryD: "can (retry n ok m) x \<Longrightarrow> can m x"
proof (induction n ok m rule: retry.induct)
  case (1 n ok m)
  from "1.prems" obtain y where "can m y" "can (if ok y \<or> n \<le> 1 then gret y else retry (n - 1) ok m) x"
    unfolding retry.simps [of n ok m] by (auto dest: can_gbindD)
  then show ?case using "1.IH" [of y] by (auto split: if_splits)
qed

section \<open>Draws\<close>

lemma randbelow_loop_less:
  assumes "randbelow_loop H prefix n c = Some y"
  shows "fst y < n \<and> c < snd y"
proof (rule randbelow_loop.raw_induct [where P = "\<lambda>H prefix n c y. fst y < n \<and> c < snd y", OF _ assms])
  fix loop and H :: hash8 and prefix :: str and n c :: nat and y
  assume IH: "\<And>H prefix n c y. loop H prefix n c = Some y \<Longrightarrow> fst y < n \<and> c < snd y"
    and step: "(let val = H (prefix @ asc '':'' @ nat_str c) in
      if val < 2 ^ 64 div n * n then Some (val mod n, c + 1) else loop H prefix n (c + 1)) = Some y"
  show "fst y < n \<and> c < snd y"
  proof (cases "H (prefix @ asc '':'' @ nat_str c) < 2 ^ 64 div n * n")
    case True
    then have "0 < n" by (cases n) auto
    with True step show ?thesis by (auto simp: Let_def)
  next
    case False
    with step have "loop H prefix n (c + 1) = Some y" by (simp add: Let_def)
    from IH [OF this] show ?thesis by simp
  qed
qed

lemma can_randbelow: "can (randbelow R n) v \<Longrightarrow> v < n"
  using randbelow_loop_less [of "fst R" "snd R" n] by (fastforce simp: can_def randbelow_def split: option.splits)

lemma can_randint: "can (randint R low high) v \<Longrightarrow> low \<le> v \<and> v \<le> low + (high - low)"
  by (auto simp: randint_def dest!: can_gmapD can_randbelow)

lemma can_choice: "can (choice R xs) x \<Longrightarrow> x \<in> set xs"
  by (auto simp: choice_def dest!: can_gmapD can_randbelow)

lemma can_draw_digits: "can (draw_digits R n) ds \<Longrightarrow> length ds = n \<and> digits_ok ds"
proof -
  assume "can (draw_digits R n) ds"
  then have "list_all2 can (replicate n (randint R 0 9)) ds"
    by (auto simp: draw_digits_def dest: can_gsequenceD)
  then have "length ds = n" "\<forall>i < n. can (randint R 0 9) (ds ! i)"
    by (auto simp: list_all2_conv_all_nth)
  then show ?thesis using can_randint [of R 0 9] by (fastforce simp: in_set_conv_nth)
qed

text \<open>Sampling is uniform: each residue has the same number of acceptable 64-bit draws.\<close>

lemma accepted_residues:
  assumes "r < n"
  shows "card {v. v < m * n \<and> v mod n = r} = (m :: nat)"
proof -
  have "{v. v < m * n \<and> v mod n = r} = (\<lambda>q. q * n + r) ` {..<m}"
  proof (intro equalityI subsetI)
    fix v assume "v \<in> {v. v < m * n \<and> v mod n = r}"
    then have "v div n < m" "v = v div n * n + r" using assms
      by (auto simp: less_mult_imp_div_less)
    then show "v \<in> (\<lambda>q. q * n + r) ` {..<m}" by blast
  next
    fix v assume "v \<in> (\<lambda>q. q * n + r) ` {..<m}"
    then obtain q where q: "q < m" "v = q * n + r" by auto
    have "v < Suc q * n" using assms q(2) by simp
    also have "\<dots> \<le> m * n" using q(1) by (intro mult_le_mono1) simp
    finally show "v \<in> {v. v < m * n \<and> v mod n = r}" using q assms by simp
  qed
  moreover have "inj_on (\<lambda>q. q * n + r) {..<m}" using assms by (auto simp: inj_on_def)
  ultimately show ?thesis by (simp add: card_image)
qed

section \<open>Sampling returns\<close>

definition total_gen :: "'a gen \<Rightarrow> bool" where
  "total_gen m \<longleftrightarrow> (\<forall>n. m n \<noteq> None)"

text \<open>A stream with an acceptable draw from every counter on, for every range.\<close>

definition fair_stream :: "stream \<Rightarrow> bool" where
  "fair_stream R \<longleftrightarrow> (\<forall>n c. 0 < n \<and> n < 2 ^ 64 \<longrightarrow>
     (\<exists>k \<ge> c. fst R (snd R @ asc '':'' @ nat_str k) < 2 ^ 64 div n * n))"

lemma randbelow_loop_returns:
  assumes "H (prefix @ asc '':'' @ nat_str (c + d)) < 2 ^ 64 div n * n"
  shows "randbelow_loop H prefix n c \<noteq> None"
  using assms
proof (induction d arbitrary: c)
  case 0
  then show ?case by (subst randbelow_loop.simps) simp
next
  case (Suc d)
  then have "randbelow_loop H prefix n (c + 1) \<noteq> None" by simp
  then show ?case by (subst randbelow_loop.simps) (simp add: Let_def)
qed

lemma total_randbelow: "fair_stream R \<Longrightarrow> 0 < n \<Longrightarrow> n < 2 ^ 64 \<Longrightarrow> total_gen (randbelow R n)"
proof -
  assume R: "fair_stream R" "0 < n" "n < 2 ^ 64"
  have "randbelow_loop (fst R) (snd R) n c \<noteq> None" for c
  proof -
    obtain k where k: "c \<le> k" "fst R (snd R @ asc '':'' @ nat_str k) < 2 ^ 64 div n * n"
      using R by (auto simp: fair_stream_def)
    then show ?thesis using randbelow_loop_returns [of "fst R" "snd R" c "k - c" n] by simp
  qed
  then show ?thesis by (auto simp: total_gen_def randbelow_def split: option.splits)
qed

lemma total_gret [simp]: "total_gen (gret x)"
  by (simp add: total_gen_def gret_def)

lemma total_gfail [simp]: "total_gen (gfail e)"
  by (simp add: total_gen_def gfail_def)

lemma total_gbind: "total_gen m \<Longrightarrow> (\<And>x. total_gen (f x)) \<Longrightarrow> total_gen (gbind m f)"
  by (auto simp: total_gen_def gbind_def split: option.splits sum.splits)

lemma total_gmap: "total_gen m \<Longrightarrow> total_gen (gmap f m)"
  by (simp add: gmap_def total_gbind)

lemma total_gsequence: "\<forall>m \<in> set ms. total_gen m \<Longrightarrow> total_gen (gsequence ms)"
  by (induction ms) (simp_all add: total_gbind)

lemma total_retry: "total_gen m \<Longrightarrow> total_gen (retry n ok m)"
proof (induction n ok m rule: retry.induct)
  case (1 n ok m)
  have "total_gen (if ok x \<or> n \<le> 1 then gret x else retry (n - 1) ok m)" for x
    using "1.IH" [of x] "1.prems" by auto
  with "1.prems" show ?case by (subst retry.simps) (rule total_gbind)
qed

lemma total_randint: "fair_stream R \<Longrightarrow> high - low + 1 < 2 ^ 64 \<Longrightarrow> total_gen (randint R low high)"
  unfolding randint_def by (rule total_gmap, rule total_randbelow) simp_all

lemma total_choice: "fair_stream R \<Longrightarrow> xs \<noteq> [] \<Longrightarrow> length xs < 2 ^ 64 \<Longrightarrow> total_gen (choice R xs)"
  unfolding choice_def by (rule total_gmap, rule total_randbelow) simp_all

lemma total_draw_digits: "fair_stream R \<Longrightarrow> total_gen (draw_digits R n)"
  unfolding draw_digits_def by (rule total_gsequence) (simp add: total_randint)

lemma total_digits_loop: "fair_stream R \<Longrightarrow> total_gen (digits_loop U R keep seen v)"
  by (induction v arbitrary: seen) (auto intro!: total_gbind total_gmap total_randint)

lemmas pool_defs = CITIES_def STREETS_def COUNTRIES_def EMAIL_LOCAL_POOL_def EMAIL_DOMAIN_POOL_def
  ISSUER_PREFIXES_def MALE_FIRST_def FEMALE_FIRST_def MALE_LAST_def FEMALE_LAST_def MALE_PATR_def FEMALE_PATR_def

lemma pool_length [simp]:
  "length CITIES = 8" "length STREETS = 8" "length COUNTRIES = 12" "length EMAIL_LOCAL_POOL = 8"
  "length EMAIL_DOMAIN_POOL = 5" "length ISSUER_PREFIXES = 3" "length MALE_FIRST = 16"
  "length FEMALE_FIRST = 15" "length MALE_LAST = 14" "length FEMALE_LAST = 14" "length MALE_PATR = 10"
  "length FEMALE_PATR = 10"
  by (simp_all add: pool_defs)

lemma pool_not_Nil [simp]:
  "CITIES \<noteq> []" "STREETS \<noteq> []" "COUNTRIES \<noteq> []" "EMAIL_LOCAL_POOL \<noteq> []" "EMAIL_DOMAIN_POOL \<noteq> []"
  "ISSUER_PREFIXES \<noteq> []"
  by (simp_all add: pool_defs)

lemma total_pool: "fair_stream R \<Longrightarrow> 0 < length xs \<Longrightarrow> length xs < 100 \<Longrightarrow> total_gen (choice R xs)"
  by (rule total_choice) auto

lemma total_filtered_pool:
  "fair_stream R \<Longrightarrow> 0 < length xs \<Longrightarrow> length xs < 100 \<Longrightarrow>
   total_gen (choice R (if filter P xs = [] then xs else filter P xs))"
  using length_filter_le [of P xs] by (intro total_pool) (auto simp del: length_filter_le)

lemma date_range_days_eq: "date_range_days = 23375"
  by (simp add: date_range_days_def days_in_year_def is_leap_def upt_rec)

lemmas total_intros = total_gbind total_gmap total_retry total_filtered_pool total_randint
  total_draw_digits total_digits_loop

lemma total_generic: "fair_stream R \<Longrightarrow> total_gen (generic U R t v)"
proof (cases t)
  case BIRTH_PLACE
  assume "fair_stream R"
  then show ?thesis using BIRTH_PLACE total_filtered_pool [of R CITIES]
    by (simp add: birth_place_def Let_def total_gmap)
next
  case CITIZENSHIP
  assume "fair_stream R"
  then show ?thesis using CITIZENSHIP total_filtered_pool [of R COUNTRIES]
    by (simp add: citizenship_def Let_def)
qed (auto simp: date_like_def digits_like_def department_code_def passport_issuer_def
      gen_address_def gen_email_def gen_phone_def gen_inn_def card_number_def short_code_def
      Let_def date_range_days_eq intro!: total_intros total_pool split: option.splits sum.splits)

section \<open>Digit surrogates\<close>

text \<open>Same layout: digits stay digits, every other character stays itself.\<close>

definition same_layout :: "ucd \<Rightarrow> str \<Rightarrow> str \<Rightarrow> bool" where
  "same_layout U v out \<longleftrightarrow> list_all2 (\<lambda>a b. if u_isdecimal U a then u_isdecimal U b else b = a) v out"

text \<open>The first \<open>keep\<close> digits are untouched: a position with fewer digits before it keeps its character.\<close>

definition prefix_kept :: "ucd \<Rightarrow> nat \<Rightarrow> str \<Rightarrow> str \<Rightarrow> bool" where
  "prefix_kept U keep v out \<longleftrightarrow>
     (\<forall>i < length v. length (filter (u_isdecimal U) (take i v)) < keep \<longrightarrow> out ! i = v ! i)"

lemma decimal_positions_rank:
  assumes "j < length (decimal_positions U v)" "p = decimal_positions U v ! j"
  shows "p < length v \<and> u_isdecimal U (v ! p) \<and> length (filter (u_isdecimal U) (take p v)) = j"
proof -
  let ?P = "\<lambda>i. u_isdecimal U (v ! i)"
  have mem: "p \<in> set (decimal_positions U v)" using assms by simp
  then have p: "p < length v" "?P p" by (auto simp: decimal_positions_def)
  have split: "[0..<length v] = [0..<p] @ p # [Suc p..<length v]"
    using upt_add_eq_append [of 0 p "length v - p"] p(1) by (simp add: upt_conv_Cons)
  then have eq: "decimal_positions U v = filter ?P [0..<p] @ p # filter ?P [Suc p..<length v]"
    using p(2) by (simp add: decimal_positions_def)
  have "distinct (decimal_positions U v)" by (simp add: decimal_positions_def)
  moreover have "decimal_positions U v ! length (filter ?P [0..<p]) = p" by (simp add: eq nth_append)
  moreover have "length (filter ?P [0..<p]) < length (decimal_positions U v)" by (simp add: eq)
  ultimately have "j = length (filter ?P [0..<p])"
    using assms nth_eq_iff_index_eq [of "decimal_positions U v" j "length (filter ?P [0..<p])"] by simp
  moreover have "take p v = map ((!) v) [0..<p]" by (rule nth_equalityI) (use p(1) in simp_all)
  then have "filter (u_isdecimal U) (take p v) = map ((!) v) (filter ?P [0..<p])"
    by (simp add: filter_map comp_def)
  ultimately show ?thesis using p by simp
qed

context unicode_db
begin

lemma digit_char_decimal: "d \<le> 9 \<Longrightarrow> u_isdecimal U (48 + int d)"
  using ascii_decimal [of "48 + int d"] by (simp add: ascii_digit_def)

lemma digits_loop_layout:
  "can (digits_loop U R keep seen v) out \<Longrightarrow> same_layout U v out \<and>
     (\<forall>i < length v. seen + length (filter (u_isdecimal U) (take i v)) < keep \<longrightarrow> out ! i = v ! i)"
proof (induction v arbitrary: seen out)
  case (Cons ch v)
  show ?case
  proof (cases "u_isdecimal U ch")
    case True
    with Cons.prems obtain o1 rest where o: "out = o1 # rest" "can (digits_loop U R keep (seen + 1) v) rest"
      "can (if seen < keep then gret ch else gmap (\<lambda>d. 48 + int d) (randint R 0 9)) o1"
      by (auto dest!: can_gbindD)
    have "u_isdecimal U o1 \<and> (seen < keep \<longrightarrow> o1 = ch)"
      using o(3) True digit_char_decimal can_randint [of R 0 9]
      by (auto split: if_splits dest!: can_gmapD)
    then show ?thesis using Cons.IH [OF o(2)] True o(1)
      by (auto simp: same_layout_def nth_Cons split: nat.splits)
  next
    case False
    with Cons.prems obtain rest where o: "out = ch # rest" "can (digits_loop U R keep seen v) rest"
      by (auto dest!: can_gbindD)
    then show ?thesis using Cons.IH [OF o(2)] False
      by (auto simp: same_layout_def nth_Cons split: nat.splits)
  qed
qed (simp add: same_layout_def)

lemma next_digit_differs:
  assumes "u_isdecimal U c" "u_digit U c = Some d"
  shows "48 + int ((d + 1) mod 10) \<noteq> c"
proof
  assume e: "48 + int ((d + 1) mod 10) = c"
  define k where "k = (d + 1) mod 10"
  have k: "k < 10" "c = 48 + int k" using e by (simp_all add: k_def)
  then have "u_digit U c = Some k" using ascii_decimal [of c] by (simp add: ascii_digit_def)
  with assms(2) have "d = (d + 1) mod 10" by (simp add: k_def)
  then show False by presburger
qed

lemma digits_like_surrogate:
  assumes "can (digits_like U R v keep) out"
  shows "out \<noteq> v \<and> same_layout U v out \<and> prefix_kept U keep v out"
proof -
  from assms obtain o1 where o1: "can (digits_loop U R keep 0 v) o1"
    and rest: "can (if o1 \<noteq> v then gret o1 else
         (let mutable_at = drop keep (decimal_positions U v) in
          if mutable_at = [] then gfail ValueError
          else (let index = last mutable_at in
             case u_digit U (v ! index) of None \<Rightarrow> gfail ValueError
             | Some d \<Rightarrow> gret (o1[index := 48 + int ((d + 1) mod 10)])))) out"
    by (auto simp: digits_like_def dest!: can_gbindD)
  note layout = digits_loop_layout [OF o1]
  show ?thesis
  proof (cases "o1 = v")
    case False
    with rest layout show ?thesis by (simp add: prefix_kept_def)
  next
    case True
    define ps where "ps = decimal_positions U v"
    from rest True have ne: "drop keep ps \<noteq> []" by (auto simp: ps_def Let_def split: if_splits)
    define p where "p = last (drop keep ps)"
    have p: "p = ps ! (length ps - 1)" "keep \<le> length ps - 1" "length ps - 1 < length ps"
      using ne by (auto simp: p_def last_drop last_conv_nth)
    from decimal_positions_rank [of "length ps - 1" U v p] p
    have r: "p < length v" "u_isdecimal U (v ! p)" "length (filter (u_isdecimal U) (take p v)) = length ps - 1"
      by (simp_all add: ps_def)
    from rest True ne obtain d where d: "u_digit U (v ! p) = Some d" "out = v[p := 48 + int ((d + 1) mod 10)]"
      by (auto simp: p_def ps_def Let_def split: option.splits if_splits)
    have "out ! p \<noteq> v ! p" using d(2) r(1) next_digit_differs [OF r(2) d(1)] by simp
    then have "out \<noteq> v" by metis
    moreover have "same_layout U v out"
      using d(2) r digit_char_decimal [of "(d + 1) mod 10"]
      by (auto simp: same_layout_def list_all2_conv_all_nth nth_list_update)
    moreover have "prefix_kept U keep v out"
      unfolding prefix_kept_def
    proof (intro allI impI)
      fix i
      assume "length (filter (u_isdecimal U) (take i v)) < keep"
      with r(3) p(2) have "i \<noteq> p" by auto
      then show "out ! i = v ! i" by (simp add: d(2))
    qed
    ultimately show ?thesis by blast
  qed
qed

end

section \<open>Card numbers and INNs\<close>

lemma luhn_check_digit_digits:
  assumes "unicode_db U" "digits_ok ds"
  obtains c where "c < 10" "luhn_check_digit U (digit_chars ds) = Inr (digit_chars [c])" "luhn_total (ds @ [c]) mod 10 = 0"
proof
  let ?c = "nat ((- int (luhn_total (ds @ [0]))) mod 10)"
  show c: "?c < 10" by (simp add: nat_less_iff)
  show "luhn_check_digit U (digit_chars ds) = Inr (digit_chars [?c])"
    using digit_chars_single [OF c] by (simp add: luhn_check_digit_def unicode_db.py_ints_digit_chars [OF assms])
  show "luhn_total (ds @ [?c]) mod 10 = 0" by (rule luhn_total_check)
qed

section \<open>Dates\<close>

text \<open>Days from the first of January of \<open>y0\<close> to a date.\<close>

definition day_number :: "nat \<Rightarrow> nat \<times> nat \<times> nat \<Rightarrow> nat" where
  "day_number y0 = (\<lambda>(y, m, d). sum_list (map days_in_year [y0..<y]) +
     sum_list (map (days_in_month y) [1..<m]) + (d - 1))"

lemma day_of_year_spec:
  "day_of_year y0 n = (y, r) \<Longrightarrow> y0 \<le> y \<and> r < days_in_year y \<and> n = sum_list (map days_in_year [y0..<y]) + r"
proof (induction y0 n rule: day_of_year.induct)
  case (1 y0 n)
  show ?case
  proof (cases "n < days_in_year y0")
    case True
    with "1.prems" show ?thesis by (subst (asm) day_of_year.simps) simp
  next
    case False
    with "1.prems" have rec: "day_of_year (y0 + 1) (n - days_in_year y0) = (y, r)"
      by (subst (asm) day_of_year.simps) simp
    from "1.IH" [OF False rec] have "y0 + 1 \<le> y" "r < days_in_year y"
      "n - days_in_year y0 = sum_list (map days_in_year [y0 + 1..<y]) + r" by auto
    with False show ?thesis by (simp add: upt_conv_Cons)
  qed
qed

lemma month_of_day_spec:
  assumes "month_of_day y [k..<13] n = (m, d)" "1 \<le> k" "k \<le> 12" "n < sum_list (map (days_in_month y) [k..<13])"
  shows "k \<le> m \<and> m \<le> 12 \<and> 1 \<le> d \<and> d \<le> days_in_month y m \<and> n = sum_list (map (days_in_month y) [k..<m]) + (d - 1)"
  using assms
proof (induction "12 - k" arbitrary: k n)
  case 0
  then have "k = 12" by simp
  with 0 show ?case by (auto simp: upt_rec split: if_splits)
next
  case (Suc j)
  then have k: "k < 12" by simp
  then have up: "[k..<13] = k # [Suc k..<13]" by (simp add: upt_conv_Cons)
  show ?case
  proof (cases "n < days_in_month y k")
    case True
    with Suc.prems up k show ?thesis by auto
  next
    case False
    with Suc.prems up have rec: "month_of_day y [Suc k..<13] (n - days_in_month y k) = (m, d)" by simp
    have "n - days_in_month y k < sum_list (map (days_in_month y) [Suc k..<13])"
      using Suc.prems(4) up False by simp
    from Suc.hyps(1) [OF _ rec _ _ this] Suc.hyps(2) k
    have "Suc k \<le> m" "m \<le> 12" "1 \<le> d" "d \<le> days_in_month y m"
      "n - days_in_month y k = sum_list (map (days_in_month y) [Suc k..<m]) + (d - 1)" by auto
    with False show ?thesis by (simp add: upt_conv_Cons)
  qed
qed

lemma months_of_year: "sum_list (map (days_in_month y) [1..<13]) = days_in_year y"
  by (simp add: upt_rec days_in_month_def days_in_year_def)

lemma date_after_spec:
  assumes "date_after y0 n = (y, m, d)"
  shows "y0 \<le> y \<and> 1 \<le> m \<and> m \<le> 12 \<and> 1 \<le> d \<and> d \<le> days_in_month y m \<and> day_number y0 (y, m, d) = n"
proof -
  obtain y1 r where y1: "day_of_year y0 n = (y1, r)" by (cases "day_of_year y0 n")
  obtain m1 d1 where m1: "month_of_day y1 [1..<13] r = (m1, d1)" by (cases "month_of_day y1 [1..<13] r")
  from assms y1 m1 have "y1 = y" "m1 = m" "d1 = d" by (simp_all only: date_after_def Let_def prod.case prod.inject)
  with y1 m1 have r: "day_of_year y0 n = (y, r)" "month_of_day y [1..<13] r = (m, d)" by (simp_all only:)
  from day_of_year_spec [OF r(1)] have y: "y0 \<le> y" "r < days_in_year y" "n = sum_list (map days_in_year [y0..<y]) + r"
    by auto
  from y(2) have "r < sum_list (map (days_in_month y) [1..<13])" by (simp only: months_of_year)
  from month_of_day_spec [OF r(2) _ _ this]
  have "1 \<le> m" "m \<le> 12" "1 \<le> d" "d \<le> days_in_month y m" "r = sum_list (map (days_in_month y) [1..<m]) + (d - 1)"
    by simp_all
  with y(1,3) show ?thesis by (simp only: day_number_def prod.case) simp
qed

lemma sum_years_mono: "y0 \<le> y \<Longrightarrow> y \<le> y' \<Longrightarrow> sum_list (map days_in_year [y0..<y]) \<le> sum_list (map days_in_year [y0..<y'])"
proof -
  assume y: "y0 \<le> y" "y \<le> y'"
  then have up: "[y0..<y'] = [y0..<y] @ [y..<y']"
    using upt_add_eq_append [of y0 y "y' - y"] by (simp only: le_add_diff_inverse)
  show ?thesis by (simp only: up map_append sum_list_append le_add1)
qed

text \<open>A digest that never changes and is small is acceptable for every range.\<close>

lemma constant_stream_fair: "v < 2 ^ 63 \<Longrightarrow> fair_stream (\<lambda>_. v, p)"
proof -
  assume v: "v < 2 ^ 63"
  have "v < 2 ^ 64 div n * n" if n: "n < 2 ^ 64" "0 < n" for n :: nat
  proof -
    define x where "x = 2 ^ 64 div n * n"
    have "2 ^ 64 < x + n"
      using n(2) unfolding x_def by (metis div_mult_mod_eq mod_less_divisor add_less_cancel_left)
    moreover have "0 < (2 :: nat) ^ 64 div n" using n unfolding div_greater_zero_iff by simp
    then have "n \<le> x" unfolding x_def by (cases "(2 :: nat) ^ 64 div n") simp_all
    moreover have "(2 :: nat) ^ 64 = 2 * 2 ^ 63" by simp
    ultimately show "v < 2 ^ 64 div n * n" using v unfolding x_def [symmetric] by linarith
  qed
  then show ?thesis by (auto simp: fair_stream_def intro!: exI)
qed

lemma constant_stream: "v < 2 ^ 64 div n * n \<Longrightarrow> randbelow (\<lambda>_. v, p) n c = Some (Inr (v mod n, c + 1))"
  by (simp add: randbelow_def randbelow_loop.simps Let_def)

section \<open>Properties\<close>



text \<open>
  The generator always comes to an end: on a stream that never runs out of acceptable draws it
  returns for every type and every value, with a value or an exception, in particular for texts
  without digits, where the bounded fallback raises instead of drawing again.
\<close>

lemma generic_terminates:
  assumes "fair_stream R"
  shows "\<exists>res. generic U R t v c = Some res"
  using total_generic [OF assms] by (simp add: total_gen_def)

text \<open>
  C37. A digit surrogate looks like the original and never is the original: digits are replaced by
  digits, every other character and the kept leading digits stay, and the result differs from the
  original value.
\<close>

theorem digits_like_keeps_shape:
  assumes "unicode_db U" "digits_like U R v keep c = Some (Inr (out, c'))"
  shows "out \<noteq> v \<and> same_layout U v out \<and> prefix_kept U keep v out"
proof -
  have "can (digits_like U R v keep) out" using assms(2) by (auto simp: can_def)
  then show ?thesis by (rule unicode_db.digits_like_surrogate [OF assms(1)])
qed

lemma digits_like_keeps_shape_witness:
  "\<exists>out c'. digits_like ucd_ru (\<lambda>_. 7, []) (asc ''+7 (7)'') 1 0 = Some (Inr (out, c')) \<and> out \<noteq> asc ''+7 (7)''"
proof -
  have loop: "randbelow_loop (\<lambda>_. 7) [] 10 c = Some (7, Suc c)" for c
    by (subst randbelow_loop.simps) simp
  have "digits_like ucd_ru (\<lambda>_. 7, []) (asc ''+7 (7)'') 1 0 = Some (Inr (asc ''+7 (8)'', 1))"
    by (simp add: digits_like_def gbind_def gret_def gmap_def asc_def ucd_ru_def ascii_digit_def randint_def
        randbelow_def loop decimal_positions_def upt_rec Let_def)
  with digits_like_keeps_shape [OF ucd_ru.unicode_db_axioms this] show ?thesis by blast
qed

text \<open>
  C38. Synthetic numbers are plausible: a synthetic card number has sixteen digits, in the grouping
  of the original, that pass the Luhn check; a synthetic INN for a value of ten or twelve digits has
  as many digits and passes the INN check.
\<close>

theorem synthetic_numbers_valid:
  assumes "unicode_db U"
  shows "(card_number U R v c = Some (Inr (out, c')) \<longrightarrow>
      (\<exists>digits. out = card_layout v digits \<and> length digits = 16 \<and> luhn_valid U digits = Inr True)) \<and>
    (gen_inn U R v c = Some (Inr (out, c')) \<and> length (filter (u_isdecimal U) v) \<in> {10, 12} \<longrightarrow>
      length out = length (filter (u_isdecimal U) v) \<and> inn_valid U out = Inr True)"
proof (intro conjI impI)
  assume "card_number U R v c = Some (Inr (out, c'))"
  then have "can (card_number U R v) out" by (auto simp: can_def)
  then obtain d0 ds where d: "d0 \<in> set [4, 5, 2]" "length ds = 14" "digits_ok ds"
    "can (case luhn_check_digit U (digit_chars (d0 # ds)) of Inl e \<Rightarrow> gfail e
          | Inr check \<Rightarrow> gret (card_layout v (digit_chars (d0 # ds) @ check))) out"
    by (fastforce simp: card_number_def Let_def dest!: can_gbindD can_choice can_draw_digits)
  then have ok: "digits_ok (d0 # ds)" by auto
  obtain k where k: "k < 10" "luhn_check_digit U (digit_chars (d0 # ds)) = Inr (digit_chars [k])"
    "luhn_total ((d0 # ds) @ [k]) mod 10 = 0"
    by (rule luhn_check_digit_digits [OF assms ok])
  let ?all = "(d0 # ds) @ [k]"
  have "digits_ok ?all" using ok k(1) by auto
  then have "luhn_valid U (digit_chars ?all) = Inr True"
    using unicode_db.luhn_valid_digit_chars [OF assms, of ?all] k(3) by simp
  moreover have "out = card_layout v (digit_chars ?all)" using d(4) k(2) by (simp flip: digit_chars_append)
  ultimately show "\<exists>digits. out = card_layout v digits \<and> length digits = 16 \<and> luhn_valid U digits = Inr True"
    using d(2) by (intro exI [of _ "digit_chars ?all"]) (simp add: digit_chars_def)
next
  define len where "len = length (filter (u_isdecimal U) v)"
  assume "gen_inn U R v c = Some (Inr (out, c')) \<and> length (filter (u_isdecimal U) v) \<in> {10, 12}"
  then have "can (gen_inn U R v) out" and len: "len = 10 \<or> len = 12" by (auto simp: can_def len_def)
  then obtain ds where ds: "length ds = len - 1" "digits_ok ds" "out = digit_chars (inn_complete len ds)"
    by (auto simp: gen_inn_def Let_def len_def dest!: can_gmapD can_draw_digits)
  from inn_complete_accepted [OF assms ds(2) len ds(1)] inn_complete_length [OF ds(1) len] ds(3)
  show "length out = length (filter (u_isdecimal U) v)" "inn_valid U out = Inr True"
    by (simp_all add: digit_chars_def flip: len_def)
qed

lemma synthetic_numbers_valid_witness:
  "\<exists>out c'. gen_inn ucd_ru (\<lambda>_. 7, []) (replicate 10 48) 0 = Some (Inr (out, c')) \<and> inn_valid ucd_ru out = Inr True"
proof -
  have loop: "randbelow_loop (\<lambda>_. 7) [] 10 c = Some (7, Suc c)" for c
    by (subst randbelow_loop.simps) simp
  have "randint (\<lambda>_. 7, []) 0 9 c = Some (Inr (7, Suc c))" for c
    by (simp add: randint_def gmap_def gbind_def gret_def randbelow_def loop)
  then have "gsequence (replicate k (randint (\<lambda>_. 7, []) 0 9)) c = Some (Inr (replicate k 7, c + k))" for k c
    by (induction k arbitrary: c) (simp_all add: gbind_def gret_def)
  then have run: "\<exists>out c'. gen_inn ucd_ru (\<lambda>_. 7, []) (replicate 10 48) 0 = Some (Inr (out, c'))"
    by (simp add: gen_inn_def draw_digits_def gmap_def gbind_def gret_def Let_def)
  have len: "length (filter (u_isdecimal ucd_ru) (replicate 10 48)) \<in> {10, 12}"
    by (simp add: ucd_ru_def ascii_digit_def)
  from run obtain out c' where o: "gen_inn ucd_ru (\<lambda>_. 7, []) (replicate 10 48) 0 = Some (Inr (out, c'))" by blast
  with synthetic_numbers_valid [OF ucd_ru.unicode_db_axioms, of "(\<lambda>_. 7, [])" "replicate 10 48" 0 out c'] len
  show ?thesis by blast
qed

text \<open>
  Synthetic dates are real dates of the intended range: the date drawn for a day number between
  0 and the number of days of the range is a calendar date from 1945-01-01 to 2008-12-31, exactly that
  many days after 1945-01-01.
\<close>

lemma synthetic_dates_in_range:
  assumes "n \<le> date_range_days" "date_after 1945 n = (y, m, d)"
  shows "1945 \<le> y \<and> y \<le> 2008 \<and> 1 \<le> m \<and> m \<le> 12 \<and> 1 \<le> d \<and> d \<le> days_in_month y m \<and> day_number 1945 (y, m, d) = n"
proof -
  note spec = date_after_spec [OF assms(2)]
  have "y \<le> 2008"
  proof (rule ccontr)
    assume "\<not> y \<le> 2008"
    then have "sum_list (map days_in_year [1945..<2009]) \<le> sum_list (map days_in_year [1945..<y])"
      by (intro sum_years_mono) auto
    moreover have "sum_list (map days_in_year [1945..<y]) \<le> n" using spec by (auto simp: day_number_def)
    moreover have "sum_list (map days_in_year [1945..<2009]) = 23376"
      by (simp add: days_in_year_def is_leap_def upt_rec)
    ultimately show False using assms(1) by (simp add: date_range_days_eq)
  qed
  with spec show ?thesis by auto
qed

end
