(* ===== verification/Partial.thy ===== *)
theory Partial
  imports Models
begin

text \<open>
  The PARTIAL masking mode, \<^verbatim>\<open>replacement/partial.py\<close>: one masker per kind of value, all
  of which overwrite characters with \<open>*\<close> in place, except the masker of names, which abbreviates.
  The lemmas count what a partial mask still shows.
\<close>

abbreviation star :: uchar where "star \<equiv> 42"

definition mask_alnum :: "ucd \<Rightarrow> str \<Rightarrow> str" where
  "mask_alnum U v = map (\<lambda>ch. if u_isalnum U ch then star else ch) v"

definition name_initial :: "ucd \<Rightarrow> str \<Rightarrow> str" where
  "name_initial U p =
     (case find (u_isalpha U) p of Some c \<Rightarrow> u_upper U [c] | None \<Rightarrow> u_upper U [star]) @ asc ''.''"

definition mask_name :: "ucd \<Rightarrow> str \<Rightarrow> str" where
  "mask_name U v = str_join (asc '' '') (map (name_initial U) (split_ws U v))"

text \<open>\<open>value.rsplit("@", 1)\<close> for a value that contains the separator.\<close>

definition rsplit_at :: "uchar \<Rightarrow> str \<Rightarrow> str \<times> str" where
  "rsplit_at c s =
     (rev (tl (dropWhile (\<lambda>x. x \<noteq> c) (rev s))), rev (takeWhile (\<lambda>x. x \<noteq> c) (rev s)))"

definition mask_email :: "ucd \<Rightarrow> str \<Rightarrow> str" where
  "mask_email U v =
     (if 64 \<notin> set v then mask_alnum U v
      else case rsplit_at 64 v of
             (local, domain) \<Rightarrow> mask_alnum U local @ [64] @ mask_alnum U domain)"

definition digit_positions :: "ucd \<Rightarrow> str \<Rightarrow> nat list" where
  "digit_positions U v = filter (\<lambda>i. u_isdigit U (v ! i)) [0..<length v]"

text \<open>\<open>positions[-n:]\<close>; a count of 0 keeps the whole list, as Python's \<open>[-0:]\<close> does.\<close>

definition last_n :: "nat \<Rightarrow> 'a list \<Rightarrow> 'a list" where
  "last_n n xs = (if n = 0 then xs else drop (length xs - n) xs)"

fun star_loop :: "nat list \<Rightarrow> nat list \<Rightarrow> str \<Rightarrow> str" where
  "star_loop keep [] chars = chars"
| "star_loop keep (i # is) chars =
     star_loop keep is (if i \<in> set keep then chars else chars[i := star])"

definition mask_phone :: "ucd \<Rightarrow> str \<Rightarrow> str" where
  "mask_phone U v =
     (let positions = digit_positions U v;
          keep = (if positions = [] then [] else [positions ! 0])
      in star_loop keep positions v)"

definition mask_passport :: "ucd \<Rightarrow> str \<Rightarrow> str" where
  "mask_passport U v =
     (let positions = digit_positions U v;
          keep = take 2 positions @ last_n 2 positions
      in star_loop keep positions v)"

definition mask_card :: "ucd \<Rightarrow> str \<Rightarrow> str" where
  "mask_card U v =
     (let positions = digit_positions U v;
          keep = take 4 positions @ last_n 4 positions
      in star_loop keep positions v)"

definition mask_numeric :: "ucd \<Rightarrow> str \<Rightarrow> nat \<Rightarrow> nat \<Rightarrow> str" where
  "mask_numeric U v n_first n_last =
     (let positions = digit_positions U v;
          keep = (if length positions > n_first + n_last then take n_first positions @ last_n n_last positions
                  else [])
      in star_loop keep positions v)"

fun partial_mask :: "ucd \<Rightarrow> pii_type \<Rightarrow> str \<Rightarrow> str" where
  "partial_mask U FULL_NAME v = mask_name U v"
| "partial_mask U CARDHOLDER v = mask_name U v"
| "partial_mask U EMAIL v = mask_email U v"
| "partial_mask U PHONE v = mask_phone U v"
| "partial_mask U PASSPORT v = mask_passport U v"
| "partial_mask U CARD_NUMBER v = mask_card U v"
| "partial_mask U DRIVER_LICENSE v = mask_numeric U v 2 2"
| "partial_mask U INN v = mask_numeric U v 2 2"
| "partial_mask U _ v = mask_alnum U v"

section \<open>What a partial mask still shows\<close>

text \<open>A mask in place: every character is the original one or a star over an alphanumeric one.\<close>

definition masked_in_place :: "ucd \<Rightarrow> str \<Rightarrow> str \<Rightarrow> bool" where
  "masked_in_place U v masked \<longleftrightarrow>
     length masked = length v \<and>
     (\<forall>i < length v. masked ! i = v ! i \<or> (masked ! i = star \<and> u_isalnum U (v ! i)))"

definition shown_digits :: "ucd \<Rightarrow> str \<Rightarrow> nat" where
  "shown_digits U s = length (filter (u_isdigit U) s)"

text \<open>How many digits each masker may leave readable.\<close>

fun shown_bound :: "pii_type \<Rightarrow> nat" where
  "shown_bound PHONE = 1"
| "shown_bound PASSPORT = 4"
| "shown_bound CARD_NUMBER = 8"
| "shown_bound DRIVER_LICENSE = 4"
| "shown_bound INN = 4"
| "shown_bound _ = 0"

lemma star_loop_length [simp]: "length (star_loop keep is chars) = length chars"
  by (induction keep "is" chars rule: star_loop.induct) auto

lemma star_loop_nth:
  "j < length chars \<Longrightarrow>
   star_loop keep is chars ! j = (if j \<in> set is \<and> j \<notin> set keep then star else chars ! j)"
proof (induction keep "is" chars rule: star_loop.induct)
  case (2 keep i "is" chars)
  then show ?case by (cases "i = j") auto
qed simp

lemma digit_positions_set: "set (digit_positions U v) = {i. i < length v \<and> u_isdigit U (v ! i)}"
  by (auto simp: digit_positions_def)

lemma last_n_set_length: "0 < n \<Longrightarrow> length (last_n n xs) \<le> n"
  by (simp add: last_n_def)

context unicode_db
begin

lemma star_loop_digit:
  assumes "i < length v" "u_isdigit U (star_loop keep (digit_positions U v) v ! i)"
  shows "i \<in> set keep"
proof (rule ccontr)
  assume "i \<notin> set keep"
  with assms(1) have "star_loop keep (digit_positions U v) v ! i =
      (if u_isdigit U (v ! i) then star else v ! i)"
    by (simp add: star_loop_nth digit_positions_set)
  with assms(2) show False by (simp add: star_not_digit split: if_splits)
qed

lemma star_loop_shown_le:
  assumes "length keep \<le> n"
  shows "shown_digits U (star_loop keep (digit_positions U v) v) \<le> n"
proof -
  let ?m = "star_loop keep (digit_positions U v) v"
  have "{i. i < length ?m \<and> u_isdigit U (?m ! i)} \<subseteq> set keep"
    using star_loop_digit by auto
  then have "card {i. i < length ?m \<and> u_isdigit U (?m ! i)} \<le> card (set keep)"
    by (intro card_mono) simp_all
  with assms card_length [of keep] show ?thesis
    unfolding shown_digits_def length_filter_conv_card by linarith
qed

lemma star_loop_in_place: "masked_in_place U v (star_loop keep (digit_positions U v) v)"
  using digit_alnum by (simp add: masked_in_place_def star_loop_nth digit_positions_set)

lemma mask_alnum_in_place: "masked_in_place U v (mask_alnum U v)"
  by (simp add: masked_in_place_def mask_alnum_def)

lemma mask_alnum_none: "c \<in> set (mask_alnum U v) \<Longrightarrow> \<not> u_isalnum U c"
  using star_not_alnum by (auto simp: mask_alnum_def split: if_splits)

lemma mask_alnum_shown: "shown_digits U (mask_alnum U v) = 0"
  using mask_alnum_none [of _ v] digit_alnum
  by (fastforce simp: shown_digits_def filter_empty_conv)

lemma at_sign_not_alnum: "\<not> u_isalnum U 64"
  using ascii_alnum [of 64] by (simp add: ascii_class_defs)

end

lemma rsplit_at_append:
  assumes "c \<in> set s"
  shows "fst (rsplit_at c s) @ [c] @ snd (rsplit_at c s) = s"
proof -
  obtain xs ys where s: "s = xs @ c # ys" "c \<notin> set ys"
    using split_list_last [OF assms] by blast
  have "dropWhile (\<lambda>x. x \<noteq> c) (rev s) = c # rev xs" "takeWhile (\<lambda>x. x \<noteq> c) (rev s) = rev ys"
    using s(2) by (simp_all add: s(1) dropWhile_append takeWhile_append)
  then show ?thesis by (simp add: rsplit_at_def s(1))
qed

lemma mask_alnum_append: "mask_alnum U (xs @ ys) = mask_alnum U xs @ mask_alnum U ys"
  by (simp add: mask_alnum_def)

context unicode_db
begin

text \<open>Splitting the address first changes nothing, because the separator is not alphanumeric.\<close>

lemma mask_email_eq: "mask_email U v = mask_alnum U v"
proof (cases "64 \<in> set v")
  case True
  obtain l d where ld: "rsplit_at 64 v = (l, d)" by force
  with rsplit_at_append [OF True] have "v = l @ [64] @ d" by simp
  then show ?thesis
    using True ld at_sign_not_alnum by (simp add: mask_email_def mask_alnum_def)
qed (simp add: mask_email_def)

lemma partial_mask_in_place:
  "t \<noteq> FULL_NAME \<Longrightarrow> t \<noteq> CARDHOLDER \<Longrightarrow> masked_in_place U v (partial_mask U t v)"
  using star_loop_in_place mask_alnum_in_place
  by (cases t) (simp_all add: mask_email_eq mask_phone_def mask_passport_def mask_card_def
      mask_numeric_def Let_def)

lemma partial_mask_shown:
  "t \<noteq> FULL_NAME \<Longrightarrow> t \<noteq> CARDHOLDER \<Longrightarrow> shown_digits U (partial_mask U t v) \<le> shown_bound t"
  by (cases t) (simp_all add: mask_email_eq mask_alnum_shown mask_phone_def mask_passport_def
      mask_card_def mask_numeric_def Let_def star_loop_shown_le last_n_def)

end

section \<open>Properties\<close>



end
