(* ===== verification/Policy.thy ===== *)
theory Policy
  imports Models
begin

text \<open>
  Consumer configuration (\<^verbatim>\<open>config/consumers.py\<close>) and the policy engine
  (\<^verbatim>\<open>policies/relationship.py\<close>, \<^verbatim>\<open>policies/engine.py\<close>): relationship rules between
  candidates of one text, then the consumer's list of types to mask. The YAML parser is outside the
  model: loading starts from the parsed document.
\<close>

section \<open>Consumers\<close>

record consumer_config =
  cc_consumer_id :: str
  cc_enabled :: bool
  cc_mask_types :: "pii_type list option"
  cc_demask :: bool
  cc_masking_mode :: masking_mode

definition should_mask_type :: "consumer_config \<Rightarrow> pii_type \<Rightarrow> bool" where
  "should_mask_type cfg t =
     (case cc_mask_types cfg of None \<Rightarrow> True | Some ts \<Rightarrow> t \<in> set ts)"

record consumer_registry =
  cr_default :: consumer_config
  cr_consumers :: "(str \<times> consumer_config) list"

definition resolve :: "consumer_registry \<Rightarrow> str option \<Rightarrow> consumer_config option" where
  "resolve reg consumer_id =
     (case consumer_id of
        None \<Rightarrow> Some (cr_default reg)
      | Some cid \<Rightarrow> map_of (cr_consumers reg) cid)"

definition DEFAULT_CONSUMER_ID :: str where
  "DEFAULT_CONSUMER_ID = asc ''default''"

definition default_consumer_config :: consumer_config where
  "default_consumer_config = \<lparr>cc_consumer_id = DEFAULT_CONSUMER_ID, cc_enabled = True,
     cc_mask_types = None, cc_demask = True, cc_masking_mode = PARTIAL\<rparr>"

text \<open>One consumer's section of the document, each key optional.\<close>

record raw_consumer =
  rc_enabled :: "bool option"
  rc_mask_types :: "str list option"
  rc_demask :: "bool option"
  rc_masking_mode :: "str option"

fun mode_value :: "masking_mode \<Rightarrow> str" where
  "mode_value PARTIAL = asc ''partial''"
| "mode_value TOKEN = asc ''token''"
| "mode_value SYNTHETIC = asc ''synthetic''"

definition mode_of_value :: "str \<Rightarrow> masking_mode option" where
  "mode_of_value v = find (\<lambda>m. mode_value m = v) [PARTIAL, TOKEN, SYNTHETIC]"

definition or_default :: "'a option \<Rightarrow> 'a \<Rightarrow> 'a" where
  "or_default x d = (case x of None \<Rightarrow> d | Some v \<Rightarrow> v)"

definition parse_consumer :: "str \<Rightarrow> raw_consumer \<Rightarrow> consumer_config result" where
  "parse_consumer consumer_id cfg =
     (case (case rc_mask_types cfg of
              None \<Rightarrow> Some None
            | Some ts \<Rightarrow> map_option Some (those (map pii_of_value ts))) of
        None \<Rightarrow> Inl ValueError
      | Some mask_types \<Rightarrow>
          (case mode_of_value (or_default (rc_masking_mode cfg) (asc ''partial'')) of
             None \<Rightarrow> Inl ValueError
           | Some mode \<Rightarrow>
               Inr \<lparr>cc_consumer_id = consumer_id,
                    cc_enabled = or_default (rc_enabled cfg) True,
                    cc_mask_types = mask_types,
                    cc_demask = or_default (rc_demask cfg) True,
                    cc_masking_mode = mode\<rparr>))"

fun parse_consumers :: "(str \<times> raw_consumer) list \<Rightarrow> (str \<times> consumer_config) list result" where
  "parse_consumers [] = Inr []"
| "parse_consumers ((cid, cfg) # rest) =
     (case parse_consumer cid cfg of
        Inl e \<Rightarrow> Inl e
      | Inr c \<Rightarrow> (case parse_consumers rest of Inl e \<Rightarrow> Inl e | Inr cs \<Rightarrow> Inr ((cid, c) # cs)))"

text \<open>\<open>ConsumerRegistry.load\<close>: \<open>None\<close> when the file does not exist, else its two sections.\<close>

definition load_registry ::
  "(raw_consumer \<times> (str \<times> raw_consumer) list) option \<Rightarrow> consumer_registry result" where
  "load_registry doc =
     (case doc of
        None \<Rightarrow> Inr \<lparr>cr_default = default_consumer_config, cr_consumers = []\<rparr>
      | Some (default_raw, raws) \<Rightarrow>
          (case parse_consumer DEFAULT_CONSUMER_ID default_raw of
             Inl e \<Rightarrow> Inl e
           | Inr d \<Rightarrow> (case parse_consumers raws of
                        Inl e \<Rightarrow> Inl e
                      | Inr cs \<Rightarrow> Inr \<lparr>cr_default = d, cr_consumers = cs\<rparr>)))"

section \<open>Relationship rules\<close>

record relationship_rule =
  rr_when_type :: pii_type
  rr_requires_nearby_type :: pii_type
  rr_window_chars :: int

definition DEFAULT_RELATIONSHIP_RULES :: "relationship_rule list" where
  "DEFAULT_RELATIONSHIP_RULES =
     [\<lparr>rr_when_type = PIN, rr_requires_nearby_type = CARD_NUMBER, rr_window_chars = 300\<rparr>]"

definition is_nearby :: "relationship_rule \<Rightarrow> str \<Rightarrow> nat \<Rightarrow> nat \<Rightarrow> nat \<Rightarrow> nat \<Rightarrow> bool" where
  "is_nearby rule text candidate_start candidate_end other_start other_end =
     (let gap_left = min candidate_end other_end;
          gap_right = max candidate_start other_start
      in if gap_left < gap_right \<and> str_in [10, 10] (slice text gap_left gap_right) then False
         else (let gap = max (int candidate_start - int other_end)
                            (max (int other_start - int candidate_end) 0)
               in gap \<le> rr_window_chars rule))"

section \<open>The policy engine\<close>

text \<open>
  \<open>other is not decision.candidate\<close> compares objects. The decisions of a batch are about the
  candidates of the batch in the same order, so the candidate at the decision's own index \<open>i\<close> is
  the one left out.
\<close>

definition rule_satisfied ::
  "str \<Rightarrow> relationship_rule \<Rightarrow> nat \<Rightarrow> candidate \<Rightarrow> candidate list \<Rightarrow> bool" where
  "rule_satisfied text rule i c all_candidates =
     list_ex (\<lambda>(j, other). j \<noteq> i \<and> c_type other = rr_requires_nearby_type rule \<and>
         is_nearby rule text (c_start c) (c_end c) (c_start other) (c_end other))
       (enumerate 0 all_candidates)"

fun apply_rules ::
  "relationship_rule list \<Rightarrow> str \<Rightarrow> nat \<Rightarrow> candidate list \<Rightarrow> privacy_decision \<Rightarrow> privacy_decision" where
  "apply_rules [] text i all_candidates d = d"
| "apply_rules (rule # rules) text i all_candidates d =
     (if c_type (d_candidate d) \<noteq> rr_when_type rule then apply_rules rules text i all_candidates d
      else if \<not> rule_satisfied text rule i (d_candidate d) all_candidates
      then \<lparr>d_candidate = d_candidate d, d_decision = KEEP, d_confidence = 6 / 10,
            d_reasons = d_reasons d @
              [asc ''relationship_rule_unmet:'' @ pii_value (rr_requires_nearby_type rule)]\<rparr>
      else apply_rules rules text i all_candidates d)"

definition apply_relationship_rules ::
  "relationship_rule list \<Rightarrow> str \<Rightarrow> nat \<Rightarrow> candidate list \<Rightarrow> privacy_decision \<Rightarrow> privacy_decision" where
  "apply_relationship_rules rules text i all_candidates d =
     (if d_decision d \<noteq> MASK then d else apply_rules rules text i all_candidates d)"

definition apply_consumer_policy :: "consumer_config \<Rightarrow> privacy_decision \<Rightarrow> privacy_decision" where
  "apply_consumer_policy consumer d =
     (if d_decision d = MASK \<and> \<not> should_mask_type consumer (c_type (d_candidate d))
      then d\<lparr>d_decision := KEEP, d_reasons := d_reasons d @ [asc ''consumer_policy_excludes_type'']\<rparr>
      else d)"

definition evaluate ::
  "relationship_rule list \<Rightarrow> str \<Rightarrow> privacy_decision list \<Rightarrow> candidate list \<Rightarrow> consumer_config
   \<Rightarrow> privacy_decision list" where
  "evaluate rules text decisions all_candidates consumer =
     map (apply_consumer_policy consumer)
       (map (\<lambda>(i, d). apply_relationship_rules rules text i all_candidates d) (enumerate 0 decisions))"

section \<open>What the engine decides\<close>

lemma apply_rules_candidate [simp]: "d_candidate (apply_rules rules text i cs d) = d_candidate d"
  by (induction rules) auto

lemma apply_relationship_rules_candidate [simp]:
  "d_candidate (apply_relationship_rules rules text i cs d) = d_candidate d"
  by (simp add: apply_relationship_rules_def)

lemma apply_consumer_policy_candidate [simp]:
  "d_candidate (apply_consumer_policy consumer d) = d_candidate d"
  by (simp add: apply_consumer_policy_def)

lemma apply_rules_MASK:
  "d_decision d = MASK \<Longrightarrow>
   d_decision (apply_rules rules text i cs d) = MASK \<longleftrightarrow>
   (\<forall>rule \<in> set rules. c_type (d_candidate d) = rr_when_type rule \<longrightarrow>
      rule_satisfied text rule i (d_candidate d) cs)"
  by (induction rules) auto

lemma apply_relationship_rules_MASK:
  "d_decision (apply_relationship_rules rules text i cs d) = MASK \<longleftrightarrow>
   d_decision d = MASK \<and>
   (\<forall>rule \<in> set rules. c_type (d_candidate d) = rr_when_type rule \<longrightarrow>
      rule_satisfied text rule i (d_candidate d) cs)"
  using apply_rules_MASK [of d rules] by (auto simp: apply_relationship_rules_def)

lemma apply_consumer_policy_MASK:
  "d_decision (apply_consumer_policy consumer d) = MASK \<longleftrightarrow>
   d_decision d = MASK \<and> should_mask_type consumer (c_type (d_candidate d))"
  by (auto simp: apply_consumer_policy_def)

lemma length_evaluate [simp]: "length (evaluate rules text ds cs consumer) = length ds"
  by (simp add: evaluate_def)

lemma evaluate_nth:
  "i < length ds \<Longrightarrow> evaluate rules text ds cs consumer ! i =
     apply_consumer_policy consumer (apply_relationship_rules rules text i cs (ds ! i))"
  by (simp add: evaluate_def nth_enumerate_eq)

lemma evaluate_candidates: "map d_candidate (evaluate rules text ds cs consumer) = map d_candidate ds"
  by (rule nth_equalityI) (simp_all add: evaluate_nth)

lemma rule_satisfied_iff:
  "rule_satisfied text rule i c cs \<longleftrightarrow>
   (\<exists>j < length cs. j \<noteq> i \<and> c_type (cs ! j) = rr_requires_nearby_type rule \<and>
      is_nearby rule text (c_start c) (c_end c) (c_start (cs ! j)) (c_end (cs ! j)))"
  by (auto simp: rule_satisfied_def list_ex_iff in_set_enumerate_eq)

lemma is_nearby_sym: "is_nearby rule text a b c d = is_nearby rule text c d a b"
  by (simp add: is_nearby_def Let_def min.commute max.commute max.left_commute)

lemma is_nearby_window:
  "is_nearby rule text a b c d \<Longrightarrow>
   int a - int d \<le> rr_window_chars rule \<and> int c - int b \<le> rr_window_chars rule"
  by (auto simp: is_nearby_def Let_def split: if_splits)

lemma is_nearby_paragraph:
  assumes "b \<le> c" "b < c" "is_nearby rule text a b c d" "a \<le> c" "b \<le> d"
  shows "\<not> str_in [10, 10] (slice text b c)"
  using assms by (simp add: is_nearby_def Let_def min_def max_def split: if_splits)

section \<open>Properties\<close>

text \<open>
  C16. After the policy engine a candidate is masked exactly when the contextual decision was MASK,
  every relationship rule about its type finds another candidate of the required type nearby, and
  the consumer masks its type; the engine keeps the candidates and their order.
\<close>

theorem evaluate_masks_iff:
  assumes "i < length decisions"
  shows "d_candidate (evaluate rules text decisions cands consumer ! i) = d_candidate (decisions ! i) \<and>
    (d_decision (evaluate rules text decisions cands consumer ! i) = MASK \<longleftrightarrow>
       d_decision (decisions ! i) = MASK \<and>
       (\<forall>rule \<in> set rules. c_type (d_candidate (decisions ! i)) = rr_when_type rule \<longrightarrow>
          (\<exists>j < length cands. j \<noteq> i \<and> c_type (cands ! j) = rr_requires_nearby_type rule \<and>
             is_nearby rule text (c_start (d_candidate (decisions ! i))) (c_end (d_candidate (decisions ! i)))
               (c_start (cands ! j)) (c_end (cands ! j)))) \<and>
       should_mask_type consumer (c_type (d_candidate (decisions ! i))))"
  using assms
  by (simp add: evaluate_nth apply_consumer_policy_MASK apply_relationship_rules_MASK rule_satisfied_iff)

definition sample_decision :: "pii_type \<Rightarrow> nat \<Rightarrow> nat \<Rightarrow> privacy_decision" where
  "sample_decision t i j = \<lparr>d_candidate = \<lparr>c_type = t, c_value = [], c_start = i, c_end = j,
     c_detector = [], c_confidence = 1, c_metadata = no_metadata\<rparr>, d_decision = MASK,
     d_confidence = 1, d_reasons = []\<rparr>"

lemma evaluate_masks_iff_witness:
  "let ds = [sample_decision PIN 20 24]; consumer = default_consumer_config
   in d_decision (evaluate DEFAULT_RELATIONSHIP_RULES (replicate 30 32) ds (map d_candidate ds) consumer ! 0) \<noteq> MASK"
  using evaluate_masks_iff [of 0 "[sample_decision PIN 20 24]" DEFAULT_RELATIONSHIP_RULES
      "replicate 30 32" "[d_candidate (sample_decision PIN 20 24)]" default_consumer_config]
  by (simp add: sample_decision_def DEFAULT_RELATIONSHIP_RULES_def)

end
