(* ===== verification/Store.thy ===== *)
theory Store
  imports Models
begin

text \<open>
  The mapping store: the record kept per \<open>payload_id\<close> (built in
  \<^verbatim>\<open>core/process_service.py\<close>), the interface \<open>MappingStore\<close> of
  \<^verbatim>\<open>core/interfaces.py\<close> as a record of operations on an explicit state, its in-memory
  implementation \<^verbatim>\<open>storage/memory_store.py\<close>, and the locale \<open>mapping_store\<close> with the
  contract the service relies on. An operation takes the time at which it runs, reads the clock
  once and is atomic, as the lock around each method makes it. Exceptions are \<open>Inl\<close>.
\<close>

record mapping_record =
  mr_version :: int
  mr_state :: mapping_state
  mr_mode :: masking_mode
  mr_original_fp :: str
  mr_transformed_fp :: str
  mr_no_pii :: bool
  mr_demask_enabled :: bool
  mr_mappings :: "mapping_dict list"
  mr_occurrences :: "occurrence list"
  mr_created_at :: time
  mr_demasked_at :: "time option"

section \<open>The interface\<close>

record 's store_ops =
  st_save_if_absent :: "time \<Rightarrow> str \<Rightarrow> mapping_record \<Rightarrow> int \<Rightarrow> 's \<Rightarrow> bool result \<times> 's"
  st_update :: "time \<Rightarrow> str \<Rightarrow> mapping_record \<Rightarrow> int \<Rightarrow> 's \<Rightarrow> unit result \<times> 's"
  st_get :: "time \<Rightarrow> str \<Rightarrow> 's \<Rightarrow> mapping_record option result \<times> 's"
  st_delete :: "time \<Rightarrow> str \<Rightarrow> 's \<Rightarrow> unit result \<times> 's"
  st_mark_demasked :: "time \<Rightarrow> str \<Rightarrow> int \<Rightarrow> 's \<Rightarrow> unit result \<times> 's"

definition to_grace :: "time \<Rightarrow> mapping_record \<Rightarrow> mapping_record" where
  "to_grace now r = r\<lparr>mr_state := DEMASKED_GRACE, mr_demasked_at := Some now\<rparr>"

text \<open>\<open>MappingStore.mark_demasked\<close>, the inherited read-modify-write.\<close>

definition base_mark_demasked ::
  "(time \<Rightarrow> str \<Rightarrow> 's \<Rightarrow> mapping_record option result \<times> 's)
   \<Rightarrow> (time \<Rightarrow> str \<Rightarrow> mapping_record \<Rightarrow> int \<Rightarrow> 's \<Rightarrow> unit result \<times> 's)
   \<Rightarrow> time \<Rightarrow> str \<Rightarrow> int \<Rightarrow> 's \<Rightarrow> unit result \<times> 's" where
  "base_mark_demasked get upd now payload_id grace_seconds s =
     (case get now payload_id s of
        (Inl e, s') \<Rightarrow> (Inl e, s')
      | (Inr None, s') \<Rightarrow> (Inr (), s')
      | (Inr (Some r), s') \<Rightarrow> upd now payload_id (to_grace now r) grace_seconds s')"

section \<open>The in-memory store\<close>

type_synonym memory = "str \<rightharpoonup> (time \<times> mapping_record)"

definition mem_is_expired :: "time \<Rightarrow> time \<Rightarrow> bool" where
  "mem_is_expired now expires_at \<longleftrightarrow> expires_at \<le> now"

definition mem_save_if_absent ::
  "time \<Rightarrow> str \<Rightarrow> mapping_record \<Rightarrow> int \<Rightarrow> memory \<Rightarrow> bool result \<times> memory" where
  "mem_save_if_absent now payload_id record ttl_seconds data =
     (let store = (Inr True, data(payload_id \<mapsto> (now + of_int ttl_seconds, record))) in
      case data payload_id of
        Some (expires_at, _) \<Rightarrow> if \<not> mem_is_expired now expires_at then (Inr False, data) else store
      | None \<Rightarrow> store)"

definition mem_update ::
  "time \<Rightarrow> str \<Rightarrow> mapping_record \<Rightarrow> int \<Rightarrow> memory \<Rightarrow> unit result \<times> memory" where
  "mem_update now payload_id record ttl_seconds data =
     (Inr (), data(payload_id \<mapsto> (now + of_int ttl_seconds, record)))"

definition mem_get :: "time \<Rightarrow> str \<Rightarrow> memory \<Rightarrow> mapping_record option result \<times> memory" where
  "mem_get now payload_id data =
     (case data payload_id of
        None \<Rightarrow> (Inr None, data)
      | Some (expires_at, record) \<Rightarrow>
          if mem_is_expired now expires_at then (Inr None, data(payload_id := None))
          else (Inr (Some record), data))"

definition mem_delete :: "time \<Rightarrow> str \<Rightarrow> memory \<Rightarrow> unit result \<times> memory" where
  "mem_delete now payload_id data = (Inr (), data(payload_id := None))"

definition memory_store :: "memory store_ops" where
  "memory_store = \<lparr>st_save_if_absent = mem_save_if_absent, st_update = mem_update,
     st_get = mem_get, st_delete = mem_delete,
     st_mark_demasked = base_mark_demasked mem_get mem_update\<rparr>"

section \<open>The contract\<close>

text \<open>
  \<open>view t s\<close> is what a reader at time \<open>t\<close> finds in state \<open>s\<close> if nothing is written before;
  \<open>invar t\<close> holds of a state whose backend answers from \<open>t\<close> on. The laws describe every later view.
\<close>

definition put :: "time \<Rightarrow> str \<Rightarrow> mapping_record \<Rightarrow> int \<Rightarrow> time
    \<Rightarrow> (str \<rightharpoonup> mapping_record) \<Rightarrow> (str \<rightharpoonup> mapping_record)" where
  "put now pid r ttl t v = v(pid := (if t < now + of_int ttl then Some r else None))"

text \<open>
  \<open>record_store\<close> is what creation, reading and removal promise; a lifetime has to be positive,
  because Redis refuses any other. \<open>mapping_store\<close> adds that the grace transition acts at once and
  only on a record that is still there.
\<close>

locale record_store =
  fixes S :: "'s store_ops"
    and view :: "time \<Rightarrow> 's \<Rightarrow> str \<rightharpoonup> mapping_record"
    and invar :: "time \<Rightarrow> 's \<Rightarrow> bool"
  assumes invar_later: "invar t s \<Longrightarrow> t \<le> t' \<Longrightarrow> invar t' s"
    and view_expires: "invar t s \<Longrightarrow> view t' s pid = Some r \<Longrightarrow> t \<le> t' \<Longrightarrow> view t s pid = Some r"
    and get_law: "invar now s \<Longrightarrow> \<exists>s'. st_get S now pid s = (Inr (view now s pid), s') \<and> invar now s' \<and>
        (\<forall>t \<ge> now. view t s' = view t s)"
    and save_new_law: "invar now s \<Longrightarrow> view now s pid = None \<Longrightarrow> 0 < ttl \<Longrightarrow>
        \<exists>s'. st_save_if_absent S now pid r ttl s = (Inr True, s') \<and> invar now s' \<and>
          (\<forall>t \<ge> now. view t s' = put now pid r ttl t (view t s))"
    and save_dup_law: "invar now s \<Longrightarrow> view now s pid = Some r0 \<Longrightarrow> 0 < ttl \<Longrightarrow>
        \<exists>s'. st_save_if_absent S now pid r ttl s = (Inr False, s') \<and> invar now s' \<and>
          (\<forall>t \<ge> now. view t s' = view t s)"
    and update_law: "invar now s \<Longrightarrow> 0 < ttl \<Longrightarrow> \<exists>s'. st_update S now pid r ttl s = (Inr (), s') \<and> invar now s' \<and>
        (\<forall>t \<ge> now. view t s' = put now pid r ttl t (view t s))"
    and delete_law: "invar now s \<Longrightarrow> \<exists>s'. st_delete S now pid s = (Inr (), s') \<and> invar now s' \<and>
        (\<forall>t \<ge> now. view t s' = (view t s)(pid := None))"
begin

lemma view_gone: "invar t s \<Longrightarrow> view t s pid = None \<Longrightarrow> t \<le> t' \<Longrightarrow> view t' s pid = None"
  using view_expires by (metis not_None_eq)

text \<open>Of two writers of a fresh key, whatever their order, exactly one is told it created it.\<close>

lemma exactly_one_creator:
  assumes "invar now s" "view now s pid = None" "now \<le> now'" "now' < now + of_int ttl" "0 < ttl'"
    and "st_save_if_absent S now pid r ttl s = (res, s1)"
    and "st_save_if_absent S now' pid r' ttl' s1 = (res', s2)"
  shows "res = Inr True \<and> res' = Inr False \<and> invar now' s2 \<and> view now' s2 pid = Some r"
proof -
  have "0 < ttl" using assms(3,4) by (cases "0 < ttl") auto
  from save_new_law [OF assms(1,2) this, of r] assms(6)
  have s1: "res = Inr True" "invar now s1" "\<forall>t \<ge> now. view t s1 = put now pid r ttl t (view t s)"
    by auto
  with assms(3,4) have "view now' s1 pid = Some r" by (simp add: put_def)
  from save_dup_law [OF invar_later [OF s1(2) assms(3)] this assms(5), of r'] assms(7) this s1(1) show ?thesis by auto
qed

lemma saved_then_read:
  assumes "invar now s" "view now s pid = None" "now \<le> t" "t < now + of_int ttl"
    and "st_save_if_absent S now pid r ttl s = (res, s1)"
  shows "invar now s1 \<and> view t s1 pid = Some r"
proof -
  have "0 < ttl" using assms(3,4) by (cases "0 < ttl") auto
  from save_new_law [OF assms(1,2) this, of r] assms(3-5) show ?thesis by (auto simp: put_def)
qed

end

locale mapping_store = record_store +
  assumes mark_absent_law: "invar now s \<Longrightarrow> view now s pid = None \<Longrightarrow>
        \<exists>s'. st_mark_demasked S now pid grace s = (Inr (), s') \<and> invar now s' \<and>
          (\<forall>t \<ge> now. view t s' = view t s)"
    and mark_law: "invar now s \<Longrightarrow> view now s pid = Some r \<Longrightarrow> 0 < grace \<Longrightarrow>
        \<exists>s'. st_mark_demasked S now pid grace s = (Inr (), s') \<and> invar now s' \<and>
          (\<forall>t \<ge> now. view t s' = put now pid (to_grace now r) grace t (view t s))"

section \<open>The in-memory store meets the contract\<close>

definition mem_view :: "time \<Rightarrow> memory \<Rightarrow> str \<rightharpoonup> mapping_record" where
  "mem_view t data pid =
     (case data pid of
        None \<Rightarrow> None
      | Some (expires_at, record) \<Rightarrow> if expires_at \<le> t then None else Some record)"

lemmas mem_ops_defs = memory_store_def mem_save_if_absent_def mem_update_def mem_get_def
  mem_delete_def base_mark_demasked_def mem_is_expired_def

lemma mem_view_put:
  "mem_view t (data(pid \<mapsto> (now + of_int ttl, r))) = put now pid r ttl t (mem_view t data)"
  by (auto simp: mem_view_def put_def fun_eq_iff)

lemma mem_view_drop: "mem_view t (data(pid := None)) = (mem_view t data)(pid := None)"
  by (auto simp: mem_view_def fun_eq_iff)

lemma mem_view_expired:
  "data pid = Some (e, r) \<Longrightarrow> e \<le> now \<Longrightarrow> now \<le> t \<Longrightarrow> (mem_view t data)(pid := None) = mem_view t data"
  by (auto simp: mem_view_def fun_eq_iff)

lemma put_drop: "put now pid r ttl t (v(pid := None)) = put now pid r ttl t v"
  by (simp add: put_def)

lemma mem_get_view:
  "\<exists>data'. mem_get now pid data = (Inr (mem_view now data pid), data') \<and>
     (\<forall>t \<ge> now. mem_view t data' = mem_view t data)"
  by (auto simp: mem_get_def mem_is_expired_def mem_view_def [of now] mem_view_drop mem_view_expired
      split: option.splits)

lemma mem_mark_view:
  "\<exists>data'. base_mark_demasked mem_get mem_update now pid grace data = (Inr (), data') \<and>
     (\<forall>t \<ge> now. mem_view t data' =
        (case mem_view now data pid of
           None \<Rightarrow> mem_view t data
         | Some r \<Rightarrow> put now pid (to_grace now r) grace t (mem_view t data)))"
proof -
  obtain data' where g: "mem_get now pid data = (Inr (mem_view now data pid), data')"
    and same: "\<forall>t \<ge> now. mem_view t data' = mem_view t data"
    using mem_get_view by blast
  then show ?thesis
    by (cases "mem_view now data pid") (auto simp: base_mark_demasked_def mem_update_def mem_view_put)
qed

lemma mem_save_dup:
  "mem_view now data pid = Some r0 \<Longrightarrow> mem_save_if_absent now pid r ttl data = (Inr False, data)"
  by (auto simp: mem_save_if_absent_def mem_is_expired_def mem_view_def split: option.splits if_splits)

interpretation memory: mapping_store memory_store mem_view "\<lambda>_ _. True"
proof
  fix s now pid and r r0 :: mapping_record and ttl grace :: int and t t' :: time
  show "mem_view t' s pid = Some r \<Longrightarrow> t \<le> t' \<Longrightarrow> mem_view t s pid = Some r"
    by (auto simp: mem_view_def split: option.splits if_splits)
  show "\<exists>s'. st_get memory_store now pid s = (Inr (mem_view now s pid), s') \<and> True \<and>
      (\<forall>t \<ge> now. mem_view t s' = mem_view t s)"
    using mem_get_view by (simp add: memory_store_def)
  show "\<exists>s'. st_update memory_store now pid r ttl s = (Inr (), s') \<and> True \<and>
      (\<forall>t \<ge> now. mem_view t s' = put now pid r ttl t (mem_view t s))"
    by (simp add: memory_store_def mem_update_def mem_view_put)
  show "\<exists>s'. st_delete memory_store now pid s = (Inr (), s') \<and> True \<and>
      (\<forall>t \<ge> now. mem_view t s' = (mem_view t s)(pid := None))"
    by (simp add: memory_store_def mem_delete_def mem_view_drop)
  show "mem_view now s pid = None \<Longrightarrow>
      \<exists>s'. st_save_if_absent memory_store now pid r ttl s = (Inr True, s') \<and> True \<and>
        (\<forall>t \<ge> now. mem_view t s' = put now pid r ttl t (mem_view t s))"
    by (auto simp: memory_store_def mem_save_if_absent_def mem_is_expired_def mem_view_def [of now]
        mem_view_put split: option.splits if_splits)
  show "mem_view now s pid = Some r0 \<Longrightarrow>
      \<exists>s'. st_save_if_absent memory_store now pid r ttl s = (Inr False, s') \<and> True \<and>
        (\<forall>t \<ge> now. mem_view t s' = mem_view t s)"
    by (simp add: memory_store_def mem_save_dup)
  show "mem_view now s pid = None \<Longrightarrow>
      \<exists>s'. st_mark_demasked memory_store now pid grace s = (Inr (), s') \<and> True \<and>
        (\<forall>t \<ge> now. mem_view t s' = mem_view t s)"
    using mem_mark_view [of now pid grace s] by (auto simp: memory_store_def)
  show "mem_view now s pid = Some r \<Longrightarrow>
      \<exists>s'. st_mark_demasked memory_store now pid grace s = (Inr (), s') \<and> True \<and>
        (\<forall>t \<ge> now. mem_view t s' = put now pid (to_grace now r) grace t (mem_view t s))"
    using mem_mark_view [of now pid grace s] by (auto simp: memory_store_def)
qed

section \<open>Properties\<close>

text \<open>
  Creation is atomic in the in-memory store: of two requests that save under the same free
  identifier exactly the first is told that it created the record, and until the record expires
  every reader finds the first one's record.
\<close>

lemma memory_store_one_creator:
  assumes "mem_view now s pid = None" "now \<le> now'" "now' < now + of_int ttl"
    and "st_save_if_absent memory_store now pid r ttl s = (res, s1)"
    and "st_save_if_absent memory_store now' pid r' ttl' s1 = (res', s2)"
  shows "res = Inr True \<and> res' = Inr False \<and> fst (st_get memory_store now' pid s2) = Inr (Some r)"
proof -
  have "0 < ttl" using assms(2,3) by (cases "0 < ttl") auto
  from memory.save_new_law [OF TrueI assms(1) this, of r] assms(4)
  have s1: "res = Inr True" "\<forall>t \<ge> now. mem_view t s1 = put now pid r ttl t (mem_view t s)" by auto
  with assms(2,3) have "mem_view now' s1 pid = Some r" by (simp add: put_def)
  with mem_save_dup [of now' s1 pid r r' ttl'] mem_get_view [of now' pid s1] assms(5) s1(1)
  show ?thesis by (auto simp: memory_store_def)
qed

definition sample_record :: "str \<Rightarrow> mapping_record" where
  "sample_record fp = \<lparr>mr_version = 2, mr_state = ACTIVE, mr_mode = TOKEN, mr_original_fp = fp,
     mr_transformed_fp = fp, mr_no_pii = True, mr_demask_enabled = True, mr_mappings = [],
     mr_occurrences = [], mr_created_at = 0, mr_demasked_at = None\<rparr>"

end
