(* ===== verification/Breaker.thy ===== *)
theory Breaker
  imports Models
begin

text \<open>
  \<open>CircuitBreaker\<close> of \<^verbatim>\<open>storage/resilient_store.py\<close> as a state machine. The abstract
  specification looks at the history of recorded outcomes: how many failures in a row end it and
  when the last one happened. The machine, which keeps a counter and a time stamp, refines it.
\<close>

datatype circuit = Closed | HalfOpen | Open

record breaker =
  br_threshold :: int
  br_cooldown :: time
  br_failures :: int
  br_opened_at :: "time option"

definition new_breaker :: "int \<Rightarrow> time \<Rightarrow> breaker" where
  "new_breaker threshold cooldown =
     \<lparr>br_threshold = threshold, br_cooldown = cooldown, br_failures = 0, br_opened_at = None\<rparr>"

definition breaker_state :: "time \<Rightarrow> breaker \<Rightarrow> circuit" where
  "breaker_state now b =
     (if br_failures b < br_threshold b then Closed
      else (let opened_at = (case br_opened_at b of Some t \<Rightarrow> t | None \<Rightarrow> now) in
            if now - opened_at \<ge> br_cooldown b then HalfOpen else Open))"

definition allow :: "time \<Rightarrow> breaker \<Rightarrow> bool" where
  "allow now b \<longleftrightarrow> breaker_state now b \<noteq> Open"

definition record_success :: "breaker \<Rightarrow> breaker" where
  "record_success b = b\<lparr>br_failures := 0, br_opened_at := None\<rparr>"

definition record_failure :: "time \<Rightarrow> breaker \<Rightarrow> breaker" where
  "record_failure now b =
     (let b' = b\<lparr>br_failures := br_failures b + 1\<rparr> in
      if br_failures b' \<ge> br_threshold b' \<and> br_opened_at b' = None
      then b'\<lparr>br_opened_at := Some now\<rparr>
      else if br_failures b' \<ge> br_threshold b' then b'\<lparr>br_opened_at := Some now\<rparr>
      else b')"

section \<open>The machine and its history\<close>

datatype outcome_event = Succeeded time | Failed time

fun breaker_step :: "breaker \<Rightarrow> outcome_event \<Rightarrow> breaker" where
  "breaker_step b (Succeeded t) = record_success b"
| "breaker_step b (Failed t) = record_failure t b"

definition breaker_run :: "breaker \<Rightarrow> outcome_event list \<Rightarrow> breaker" where
  "breaker_run b es = foldl breaker_step b es"

text \<open>The failures that end the history, latest first.\<close>

fun trailing_failures :: "outcome_event list \<Rightarrow> time list" where
  "trailing_failures [] = []"
| "trailing_failures (Succeeded t # es) = []"
| "trailing_failures (Failed t # es) = t # trailing_failures es"

definition recent_failures :: "outcome_event list \<Rightarrow> time list" where
  "recent_failures history = trailing_failures (rev history)"

text \<open>
  The specification: fewer failures in a row than the threshold leave the circuit closed; otherwise
  it is open until the cooldown after the last of them has passed.
\<close>

definition circuit_spec :: "int \<Rightarrow> time \<Rightarrow> outcome_event list \<Rightarrow> time \<Rightarrow> circuit" where
  "circuit_spec threshold cooldown history now =
     (case recent_failures history of
        [] \<Rightarrow> Closed
      | t # ts \<Rightarrow>
          if 1 + int (length ts) < threshold then Closed
          else if now - t \<ge> cooldown then HalfOpen else Open)"

section \<open>Refinement\<close>

text \<open>The relation between the machine's fields and the history.\<close>

definition breaker_abs :: "int \<Rightarrow> time \<Rightarrow> outcome_event list \<Rightarrow> breaker \<Rightarrow> bool" where
  "breaker_abs threshold cooldown history b \<longleftrightarrow>
     br_threshold b = threshold \<and> br_cooldown b = cooldown \<and>
     br_failures b = int (length (recent_failures history)) \<and>
     br_opened_at b = (if br_failures b < threshold then None else Some (hd (recent_failures history)))"

lemma recent_failures_snoc [simp]:
  "recent_failures (history @ [Succeeded t]) = []"
  "recent_failures (history @ [Failed t]) = t # recent_failures history"
  by (simp_all add: recent_failures_def)

lemma breaker_abs_new: "1 \<le> threshold \<Longrightarrow> breaker_abs threshold cooldown [] (new_breaker threshold cooldown)"
  by (simp add: breaker_abs_def new_breaker_def recent_failures_def)

lemma breaker_abs_step:
  assumes "1 \<le> threshold" "breaker_abs threshold cooldown history b"
  shows "breaker_abs threshold cooldown (history @ [e]) (breaker_step b e)"
  using assms
  by (cases e) (auto simp: breaker_abs_def record_success_def record_failure_def Let_def)

lemma breaker_abs_run:
  assumes "1 \<le> threshold"
  shows "breaker_abs threshold cooldown history (breaker_run (new_breaker threshold cooldown) history)"
proof (induction history rule: rev_induct)
  case Nil
  with assms show ?case by (simp add: breaker_run_def breaker_abs_new)
next
  case (snoc e history)
  with assms show ?case by (simp add: breaker_run_def breaker_abs_step)
qed

lemma breaker_state_spec:
  assumes "1 \<le> threshold" "breaker_abs threshold cooldown history b"
  shows "breaker_state now b = circuit_spec threshold cooldown history now"
  using assms by (auto simp: breaker_abs_def breaker_state_def circuit_spec_def Let_def split: list.splits)

section \<open>Lemmas for the stores behind a breaker\<close>

lemma record_success_closed: "1 \<le> br_threshold b \<Longrightarrow> breaker_state now (record_success b) = Closed"
  by (simp add: breaker_state_def record_success_def)

lemma record_success_fields [simp]:
  "br_threshold (record_success b) = br_threshold b" "br_cooldown (record_success b) = br_cooldown b"
  by (simp_all add: record_success_def)

lemma record_failure_fields [simp]:
  "br_threshold (record_failure t b) = br_threshold b" "br_cooldown (record_failure t b) = br_cooldown b"
  by (simp_all add: record_failure_def Let_def)

lemma allow_closed: "breaker_state now b = Closed \<Longrightarrow> allow now b"
  by (simp add: allow_def)

lemma record_success_idem: "br_failures b = 0 \<Longrightarrow> br_opened_at b = None \<Longrightarrow> record_success b = b"
  by (simp add: record_success_def)

section \<open>Properties\<close>

text \<open>
  C22. The circuit breaker implements its specification: after any sequence of recorded outcomes the
  state it reports at any time is the one given by the length of the last run of failures and the
  time of its last failure; a call is let through exactly when that state is not open.
\<close>

theorem breaker_refines_history:
  assumes "1 \<le> threshold"
  shows "breaker_state now (breaker_run (new_breaker threshold cooldown) history) =
      circuit_spec threshold cooldown history now \<and>
    (allow now (breaker_run (new_breaker threshold cooldown) history) \<longleftrightarrow>
      circuit_spec threshold cooldown history now \<noteq> Open)"
  using breaker_state_spec [OF assms breaker_abs_run [OF assms]] by (simp add: allow_def)

lemma breaker_refines_history_witness:
  "breaker_state 5 (breaker_run (new_breaker 2 10) [Failed 1, Succeeded 2, Failed 3, Failed 4]) = Open \<and>
   breaker_state 14 (breaker_run (new_breaker 2 10) [Failed 1, Succeeded 2, Failed 3, Failed 4]) = HalfOpen"
  using breaker_refines_history [of 2 5 10 "[Failed 1, Succeeded 2, Failed 3, Failed 4]"]
    breaker_refines_history [of 2 14 10 "[Failed 1, Succeeded 2, Failed 3, Failed 4]"]
  by (simp add: circuit_spec_def recent_failures_def)

end
