(* ===== verification/Resilient.thy ===== *)
theory Resilient
  imports Store Breaker
begin

text \<open>
  \<open>ResilientMappingStore\<close> of \<^verbatim>\<open>storage/resilient_store.py\<close>: an authoritative store and an
  optional cache, each behind a circuit breaker. Both tiers are arbitrary implementations of the
  store interface that may raise at any call. Latency observations, metrics and log
  entries are added in the theory \<open>Telemetry\<close>. The lemmas cover the failure matrix of the class comment: what is answered from which
  tier, and that nothing else than \<open>StorageUnavailableError\<close> is ever raised.
\<close>

record ('a, 'c) resilient_state =
  rs_auth :: 'a
  rs_cache :: 'c
  rs_auth_breaker :: breaker
  rs_cache_breaker :: breaker

record ('a, 'c) resilient_cfg =
  rf_auth :: "'a store_ops"
  rf_cache :: "'c store_ops option"
  rf_backfill_ttl :: int

section \<open>Calls through the breakers\<close>

definition auth_call ::
  "time \<Rightarrow> ('a \<Rightarrow> 'x result \<times> 'a) \<Rightarrow> ('a, 'c) resilient_state
   \<Rightarrow> 'x result \<times> ('a, 'c) resilient_state" where
  "auth_call now fn s =
     (if \<not> allow now (rs_auth_breaker s) then (Inl StorageUnavailableError, s)
      else case fn (rs_auth s) of
             (Inl exc, a) \<Rightarrow>
               (Inl StorageUnavailableError,
                s\<lparr>rs_auth := a, rs_auth_breaker := record_failure now (rs_auth_breaker s)\<rparr>)
           | (Inr res, a) \<Rightarrow>
               (Inr res, s\<lparr>rs_auth := a, rs_auth_breaker := record_success (rs_auth_breaker s)\<rparr>))"

text \<open>\<open>None\<close> is the pair \<open>(None, False)\<close> of the source, \<open>Some res\<close> is \<open>(res, True)\<close>.\<close>

definition cache_call ::
  "('a, 'c) resilient_cfg \<Rightarrow> time \<Rightarrow> ('c store_ops \<Rightarrow> 'c \<Rightarrow> 'x result \<times> 'c)
   \<Rightarrow> ('a, 'c) resilient_state \<Rightarrow> 'x option \<times> ('a, 'c) resilient_state" where
  "cache_call cfg now fn s =
     (case rf_cache cfg of
        None \<Rightarrow> (None, s)
      | Some cache \<Rightarrow>
          (if \<not> allow now (rs_cache_breaker s) then (None, s)
           else case fn cache (rs_cache s) of
                  (Inl exc, c) \<Rightarrow>
                    (None, s\<lparr>rs_cache := c, rs_cache_breaker := record_failure now (rs_cache_breaker s)\<rparr>)
                | (Inr res, c) \<Rightarrow>
                    (Some res,
                     s\<lparr>rs_cache := c, rs_cache_breaker := record_success (rs_cache_breaker s)\<rparr>)))"

section \<open>The store operations\<close>

definition rs_save_if_absent ::
  "('a, 'c) resilient_cfg \<Rightarrow> time \<Rightarrow> str \<Rightarrow> mapping_record \<Rightarrow> int \<Rightarrow> ('a, 'c) resilient_state
   \<Rightarrow> bool result \<times> ('a, 'c) resilient_state" where
  "rs_save_if_absent cfg now payload_id record ttl_seconds s =
     (case auth_call now (st_save_if_absent (rf_auth cfg) now payload_id record ttl_seconds) s of
        (Inl e, s1) \<Rightarrow> (Inl e, s1)
      | (Inr created, s1) \<Rightarrow>
          (if created
           then (Inr True,
                 snd (cache_call cfg now (\<lambda>C. st_update C now payload_id record ttl_seconds) s1))
           else (Inr False, s1)))"

definition rs_get ::
  "('a, 'c) resilient_cfg \<Rightarrow> time \<Rightarrow> str \<Rightarrow> ('a, 'c) resilient_state
   \<Rightarrow> mapping_record option result \<times> ('a, 'c) resilient_state" where
  "rs_get cfg now payload_id s =
     (case cache_call cfg now (\<lambda>C. st_get C now payload_id) s of
        (Some (Some cached), s1) \<Rightarrow> (Inr (Some cached), s1)
      | (cached, s1) \<Rightarrow>
          (case auth_call now (st_get (rf_auth cfg) now payload_id) s1 of
             (Inl e, s2) \<Rightarrow> (Inl e, s2)
           | (Inr None, s2) \<Rightarrow> (Inr None, s2)
           | (Inr (Some record), s2) \<Rightarrow>
               (if rf_cache cfg \<noteq> None \<and> cached \<noteq> None
                then (Inr (Some record),
                      snd (cache_call cfg now
                             (\<lambda>C. st_update C now payload_id record (rf_backfill_ttl cfg)) s2))
                else (Inr (Some record), s2))))"

definition rs_update ::
  "('a, 'c) resilient_cfg \<Rightarrow> time \<Rightarrow> str \<Rightarrow> mapping_record \<Rightarrow> int \<Rightarrow> ('a, 'c) resilient_state
   \<Rightarrow> unit result \<times> ('a, 'c) resilient_state" where
  "rs_update cfg now payload_id record ttl_seconds s =
     (case auth_call now (st_update (rf_auth cfg) now payload_id record ttl_seconds) s of
        (Inl e, s1) \<Rightarrow> (Inl e, s1)
      | (Inr _, s1) \<Rightarrow>
          (Inr (), snd (cache_call cfg now (\<lambda>C. st_update C now payload_id record ttl_seconds) s1)))"

definition rs_delete ::
  "('a, 'c) resilient_cfg \<Rightarrow> time \<Rightarrow> str \<Rightarrow> ('a, 'c) resilient_state
   \<Rightarrow> unit result \<times> ('a, 'c) resilient_state" where
  "rs_delete cfg now payload_id s =
     auth_call now (st_delete (rf_auth cfg) now payload_id)
       (snd (cache_call cfg now (\<lambda>C. st_delete C now payload_id) s))"

definition rs_mark_demasked ::
  "('a, 'c) resilient_cfg \<Rightarrow> time \<Rightarrow> str \<Rightarrow> int \<Rightarrow> ('a, 'c) resilient_state
   \<Rightarrow> unit result \<times> ('a, 'c) resilient_state" where
  "rs_mark_demasked cfg now payload_id grace_seconds s =
     (let s1 = snd (auth_call now (st_mark_demasked (rf_auth cfg) now payload_id grace_seconds) s) in
      if rf_cache cfg = None then (Inr (), s1)
      else case cache_call cfg now (\<lambda>C. st_get C now payload_id) s1 of
             (Some (Some cached), s2) \<Rightarrow>
               (Inr (),
                snd (cache_call cfg now
                       (\<lambda>C. st_update C now payload_id (to_grace now cached) grace_seconds) s2))
           | (_, s2) \<Rightarrow> (Inr (), s2))"

definition resilient_store :: "('a, 'c) resilient_cfg \<Rightarrow> ('a, 'c) resilient_state store_ops" where
  "resilient_store cfg = \<lparr>st_save_if_absent = rs_save_if_absent cfg, st_update = rs_update cfg,
     st_get = rs_get cfg, st_delete = rs_delete cfg, st_mark_demasked = rs_mark_demasked cfg\<rparr>"

definition authoritative_degraded :: "time \<Rightarrow> ('a, 'c) resilient_state \<Rightarrow> bool" where
  "authoritative_degraded now s \<longleftrightarrow> breaker_state now (rs_auth_breaker s) \<noteq> Closed"

definition cache_degraded :: "('a, 'c) resilient_cfg \<Rightarrow> time \<Rightarrow> ('a, 'c) resilient_state \<Rightarrow> bool" where
  "cache_degraded cfg now s \<longleftrightarrow>
     rf_cache cfg \<noteq> None \<and> breaker_state now (rs_cache_breaker s) \<noteq> Closed"

section \<open>Which tier answers\<close>

text \<open>What the authority answers through its breaker, and what the cache does.\<close>

definition auth_answer :: "time \<Rightarrow> ('a \<Rightarrow> 'x result \<times> 'a) \<Rightarrow> ('a, 'c) resilient_state \<Rightarrow> 'x result" where
  "auth_answer now fn s =
     (if allow now (rs_auth_breaker s)
      then (case fst (fn (rs_auth s)) of Inl _ \<Rightarrow> Inl StorageUnavailableError | Inr x \<Rightarrow> Inr x)
      else Inl StorageUnavailableError)"

definition cache_answer ::
  "('a, 'c) resilient_cfg \<Rightarrow> time \<Rightarrow> ('c store_ops \<Rightarrow> 'c \<Rightarrow> 'x result \<times> 'c)
   \<Rightarrow> ('a, 'c) resilient_state \<Rightarrow> 'x option" where
  "cache_answer cfg now fn s =
     (case rf_cache cfg of
        None \<Rightarrow> None
      | Some cache \<Rightarrow>
          (if allow now (rs_cache_breaker s)
           then (case fst (fn cache (rs_cache s)) of Inl _ \<Rightarrow> None | Inr x \<Rightarrow> Some x)
           else None))"

lemma fst_auth_call: "fst (auth_call now fn s) = auth_answer now fn s"
  by (simp add: auth_call_def auth_answer_def split: prod.splits sum.splits)

lemma fst_cache_call: "fst (cache_call cfg now fn s) = cache_answer cfg now fn s"
  by (simp add: cache_call_def cache_answer_def split: prod.splits sum.splits option.splits)

lemma cache_call_frame [simp]:
  "rs_auth (snd (cache_call cfg now fn s)) = rs_auth s"
  "rs_auth_breaker (snd (cache_call cfg now fn s)) = rs_auth_breaker s"
  by (simp_all add: cache_call_def split: prod.splits sum.splits option.splits)

lemma auth_call_frame [simp]:
  "rs_cache (snd (auth_call now fn s)) = rs_cache s"
  "rs_cache_breaker (snd (auth_call now fn s)) = rs_cache_breaker s"
  by (simp_all add: auth_call_def split: prod.splits sum.splits)

lemma auth_answer_cache_call [simp]:
  "auth_answer now fn (snd (cache_call cfg now' fn' s)) = auth_answer now fn s"
  by (simp add: auth_answer_def)

lemma auth_call_error: "fst (auth_call now fn s) = Inl e \<Longrightarrow> e = StorageUnavailableError"
  by (auto simp: auth_call_def split: if_splits prod.splits sum.splits)

lemma rs_get_answer:
  "fst (rs_get cfg now pid s) =
     (case cache_answer cfg now (\<lambda>C. st_get C now pid) s of
        Some (Some r) \<Rightarrow> Inr (Some r)
      | _ \<Rightarrow> auth_answer now (st_get (rf_auth cfg) now pid) s)"
proof -
  obtain c s1 where c: "cache_call cfg now (\<lambda>C. st_get C now pid) s = (c, s1)" by force
  then have s1: "s1 = snd (cache_call cfg now (\<lambda>C. st_get C now pid) s)"
    and c': "c = cache_answer cfg now (\<lambda>C. st_get C now pid) s"
    using fst_cache_call [of cfg now "\<lambda>C. st_get C now pid" s] by simp_all
  obtain a s2 where a: "auth_call now (st_get (rf_auth cfg) now pid) s1 = (a, s2)" by force
  then have "a = auth_answer now (st_get (rf_auth cfg) now pid) s"
    using fst_auth_call [of now "st_get (rf_auth cfg) now pid" s1] s1 by simp
  then show ?thesis
    using c a by (auto simp: rs_get_def simp flip: c' split: option.splits sum.splits)
qed

lemma rs_save_answer:
  "fst (rs_save_if_absent cfg now pid r ttl s) =
     auth_answer now (st_save_if_absent (rf_auth cfg) now pid r ttl) s"
  using fst_auth_call [of now "st_save_if_absent (rf_auth cfg) now pid r ttl" s]
  by (auto simp: rs_save_if_absent_def split: prod.splits sum.splits)

lemma rs_update_answer:
  "fst (rs_update cfg now pid r ttl s) = auth_answer now (st_update (rf_auth cfg) now pid r ttl) s"
  using fst_auth_call [of now "st_update (rf_auth cfg) now pid r ttl" s]
  by (auto simp: rs_update_def split: prod.splits sum.splits)

lemma rs_delete_answer:
  "fst (rs_delete cfg now pid s) = auth_answer now (st_delete (rf_auth cfg) now pid) s"
  by (simp add: rs_delete_def fst_auth_call)

lemma rs_mark_answer: "fst (rs_mark_demasked cfg now pid grace s) = Inr ()"
  by (simp add: rs_mark_demasked_def Let_def split: prod.splits option.splits)

lemmas rs_answers = rs_get_answer rs_save_answer rs_update_answer rs_delete_answer rs_mark_answer

lemma auth_answer_error: "auth_answer now fn s = Inl e \<Longrightarrow> e = StorageUnavailableError"
  by (auto simp: auth_answer_def split: if_splits sum.splits)

text \<open>A write the authority refuses leaves the cache as it was.\<close>

lemma rs_save_failed_cache:
  assumes "fst (rs_save_if_absent cfg now pid r ttl s) = Inl e"
  shows "rs_cache (snd (rs_save_if_absent cfg now pid r ttl s)) = rs_cache s"
proof -
  obtain a s1 where a: "auth_call now (st_save_if_absent (rf_auth cfg) now pid r ttl) s = (a, s1)"
    by force
  then have "rs_cache s1 = rs_cache s" by (metis auth_call_frame(1) snd_conv)
  with assms a show ?thesis by (auto simp: rs_save_if_absent_def split: sum.splits if_splits)
qed

section \<open>A guarded store keeps its contract\<close>

definition healthy :: "breaker \<Rightarrow> bool" where
  "healthy b \<longleftrightarrow> 1 \<le> br_threshold b \<and> br_failures b = 0 \<and> br_opened_at b = None"

lemma healthy_allow [simp]: "healthy b \<Longrightarrow> allow now b"
  by (simp add: healthy_def allow_def breaker_state_def)

lemma healthy_success [simp]: "healthy b \<Longrightarrow> record_success b = b"
  by (simp add: healthy_def record_success_idem)

lemma healthy_new: "1 \<le> threshold \<Longrightarrow> healthy (new_breaker threshold cooldown)"
  by (simp add: healthy_def new_breaker_def)

lemma auth_call_ok:
  assumes "healthy (rs_auth_breaker s)" "fn (rs_auth s) = (Inr x, a)"
  shows "auth_call now fn s = (Inr x, s\<lparr>rs_auth := a\<rparr>)"
  using assms by (cases s) (simp add: auth_call_def)

lemma cache_call_ok:
  assumes "healthy (rs_cache_breaker s)" "rf_cache cfg = Some C" "fn C (rs_cache s) = (Inr x, c)"
  shows "cache_call cfg now fn s = (Some x, s\<lparr>rs_cache := c\<rparr>)"
  using assms by (cases s) (simp add: cache_call_def)

lemma cache_call_none: "rf_cache cfg = None \<Longrightarrow> cache_call cfg now fn s = (None, s)"
  by (simp add: cache_call_def)

definition single_tier :: "'a store_ops \<Rightarrow> int \<Rightarrow> ('a, unit) resilient_cfg" where
  "single_tier A backfill = \<lparr>rf_auth = A, rf_cache = None, rf_backfill_ttl = backfill\<rparr>"

lemma single_tier_fields [simp]:
  "rf_auth (single_tier A b) = A" "rf_cache (single_tier A b) = None"
  by (simp_all add: single_tier_def)

definition guarded_view :: "(time \<Rightarrow> 's \<Rightarrow> str \<rightharpoonup> mapping_record) \<Rightarrow> time
    \<Rightarrow> ('s, unit) resilient_state \<Rightarrow> str \<rightharpoonup> mapping_record" where
  "guarded_view view t s = view t (rs_auth s)"

definition guarded_inv :: "(time \<Rightarrow> 's \<Rightarrow> bool) \<Rightarrow> time \<Rightarrow> ('s, unit) resilient_state \<Rightarrow> bool" where
  "guarded_inv invar t s \<longleftrightarrow> invar t (rs_auth s) \<and> healthy (rs_auth_breaker s)"

locale guarded_records = record_store S view invar
  for S :: "'s store_ops" and view :: "time \<Rightarrow> 's \<Rightarrow> str \<rightharpoonup> mapping_record" and invar :: "time \<Rightarrow> 's \<Rightarrow> bool" +
  fixes backfill :: int

lemmas guarded_defs = resilient_store_def guarded_view_def guarded_inv_def rs_get_def
  rs_save_if_absent_def rs_update_def rs_delete_def rs_mark_demasked_def cache_call_none

sublocale guarded_records \<subseteq> guarded: record_store "resilient_store (single_tier S backfill)"
  "guarded_view view" "guarded_inv invar"
proof
  fix s now pid and r r0 :: mapping_record and ttl grace :: int and t t' :: time
  assume invar: "guarded_inv invar now s"
  then have i: "invar now (rs_auth s)" and h: "healthy (rs_auth_breaker s)" by (simp_all add: guarded_inv_def)
  let ?R = "resilient_store (single_tier S backfill)"
  show "guarded_view view t' s pid = Some r \<Longrightarrow> now \<le> t' \<Longrightarrow> guarded_view view now s pid = Some r"
    unfolding guarded_view_def by (rule view_expires [OF i])
  show "now \<le> t' \<Longrightarrow> guarded_inv invar t' s"
    using invar_later [OF i] h by (simp add: guarded_inv_def)
  show "\<exists>s'. st_get ?R now pid s = (Inr (guarded_view view now s pid), s') \<and> guarded_inv invar now s' \<and>
      (\<forall>t \<ge> now. guarded_view view t s' = guarded_view view t s)"
    using get_law [OF i, of pid] h
    by (auto simp: guarded_defs auth_call_ok split: option.splits)
  show "0 < ttl \<Longrightarrow> \<exists>s'. st_update ?R now pid r ttl s = (Inr (), s') \<and> guarded_inv invar now s' \<and>
      (\<forall>t \<ge> now. guarded_view view t s' = put now pid r ttl t (guarded_view view t s))"
    using update_law [OF i, of ttl pid r] h by (auto simp: guarded_defs auth_call_ok)
  show "\<exists>s'. st_delete ?R now pid s = (Inr (), s') \<and> guarded_inv invar now s' \<and>
      (\<forall>t \<ge> now. guarded_view view t s' = (guarded_view view t s)(pid := None))"
    using delete_law [OF i, of pid] h by (auto simp: guarded_defs auth_call_ok)
  show "guarded_view view now s pid = None \<Longrightarrow> 0 < ttl \<Longrightarrow>
      \<exists>s'. st_save_if_absent ?R now pid r ttl s = (Inr True, s') \<and> guarded_inv invar now s' \<and>
        (\<forall>t \<ge> now. guarded_view view t s' = put now pid r ttl t (guarded_view view t s))"
    using save_new_law [OF i, of pid ttl r] h by (auto simp: guarded_defs auth_call_ok)
  show "guarded_view view now s pid = Some r0 \<Longrightarrow> 0 < ttl \<Longrightarrow>
      \<exists>s'. st_save_if_absent ?R now pid r ttl s = (Inr False, s') \<and> guarded_inv invar now s' \<and>
        (\<forall>t \<ge> now. guarded_view view t s' = guarded_view view t s)"
  proof -
    assume "guarded_view view now s pid = Some r0" "0 < ttl"
    then obtain a where a: "st_save_if_absent S now pid r ttl (rs_auth s) = (Inr False, a)" "invar now a"
      "\<forall>t \<ge> now. view t a = view t (rs_auth s)"
      using save_dup_law [OF i, of pid r0 ttl r] by (auto simp: guarded_view_def)
    show ?thesis 
      using auth_call_ok [where fn = "st_save_if_absent S now pid r ttl", OF h a(1)] a(2,3) h
      by (simp add: guarded_defs)
  qed
qed

locale guarded_store = guarded_records S view invar backfill + mapping_store S view invar
  for S :: "'s store_ops" and view :: "time \<Rightarrow> 's \<Rightarrow> str \<rightharpoonup> mapping_record" and invar :: "time \<Rightarrow> 's \<Rightarrow> bool" and backfill :: int

sublocale guarded_store \<subseteq> guarded: mapping_store "resilient_store (single_tier S backfill)"
  "guarded_view view" "guarded_inv invar"
proof
  fix s now pid and r r0 :: mapping_record and grace :: int
  assume invar: "guarded_inv invar now s"
  then have i: "invar now (rs_auth s)" and h: "healthy (rs_auth_breaker s)" by (simp_all add: guarded_inv_def)
  let ?R = "resilient_store (single_tier S backfill)"
  show "guarded_view view now s pid = None \<Longrightarrow>
      \<exists>s'. st_mark_demasked ?R now pid grace s = (Inr (), s') \<and> guarded_inv invar now s' \<and>
        (\<forall>t \<ge> now. guarded_view view t s' = guarded_view view t s)"
    using mark_absent_law [OF i, of pid grace] h by (auto simp: guarded_defs auth_call_ok Let_def)
  show "guarded_view view now s pid = Some r \<Longrightarrow> 0 < grace \<Longrightarrow>
      \<exists>s'. st_mark_demasked ?R now pid grace s = (Inr (), s') \<and> guarded_inv invar now s' \<and>
        (\<forall>t \<ge> now. guarded_view view t s' =
           put now pid (to_grace now r) grace t (guarded_view view t s))"
    using mark_law [OF i, of pid r grace] h by (auto simp: guarded_defs auth_call_ok Let_def)
qed

interpretation guarded_memory: guarded_store memory_store mem_view "\<lambda>_ _. True" 600
  by unfold_locales

section \<open>Two tiers\<close>

text \<open>An authority and a cache that both keep the contract, as long as they answer.\<close>

locale two_tier = auth: record_store A viewA invA + cache: record_store C viewC invC
  for A :: "'a store_ops" and viewA :: "time \<Rightarrow> 'a \<Rightarrow> str \<rightharpoonup> mapping_record" and invA :: "time \<Rightarrow> 'a \<Rightarrow> bool"
    and C :: "'c store_ops" and viewC :: "time \<Rightarrow> 'c \<Rightarrow> str \<rightharpoonup> mapping_record" and invC :: "time \<Rightarrow> 'c \<Rightarrow> bool"
begin

definition tiers_up :: "time \<Rightarrow> ('a, 'c) resilient_state \<Rightarrow> bool" where
  "tiers_up t s \<longleftrightarrow> invA t (rs_auth s) \<and> invC t (rs_cache s) \<and>
     healthy (rs_auth_breaker s) \<and> healthy (rs_cache_breaker s)"

lemma save_state:
  assumes "tiers_up now s" "viewA now (rs_auth s) pid = None" "rf_auth cfg = A" "rf_cache cfg = Some C"
    and ttl: "0 < ttl"
  shows "\<exists>s'. rs_save_if_absent cfg now pid r ttl s = (Inr True, s') \<and> tiers_up now s' \<and>
    (\<forall>t \<ge> now. viewA t (rs_auth s') = put now pid r ttl t (viewA t (rs_auth s)) \<and>
               viewC t (rs_cache s') = put now pid r ttl t (viewC t (rs_cache s)))"
proof -
  from assms(1) have up: "invA now (rs_auth s)" "invC now (rs_cache s)" "healthy (rs_auth_breaker s)"
    "healthy (rs_cache_breaker s)" by (simp_all add: tiers_up_def)
  obtain a where a: "st_save_if_absent A now pid r ttl (rs_auth s) = (Inr True, a)" "invA now a"
    "\<forall>t \<ge> now. viewA t a = put now pid r ttl t (viewA t (rs_auth s))"
    using auth.save_new_law [OF up(1) assms(2) ttl] by blast
  obtain c where c: "st_update C now pid r ttl (rs_cache s) = (Inr (), c)" "invC now c"
    "\<forall>t \<ge> now. viewC t c = put now pid r ttl t (viewC t (rs_cache s))"
    using cache.update_law [OF up(2) ttl] by blast
  show ?thesis
    using a c up assms(3,4)
    by (simp add: rs_save_if_absent_def auth_call_ok cache_call_ok tiers_up_def)
qed

text \<open>Both tiers up, and the cache shows what the authority shows.\<close>

definition coherent :: "time \<Rightarrow> ('a, 'c) resilient_state \<Rightarrow> bool" where
  "coherent t s \<longleftrightarrow> tiers_up t s \<and> (\<forall>t' \<ge> t. viewC t' (rs_cache s) = viewA t' (rs_auth s))"

lemma coherentD:
  assumes "coherent t s"
  shows "invA t (rs_auth s)" "invC t (rs_cache s)" "healthy (rs_auth_breaker s)" "healthy (rs_cache_breaker s)"
    "t \<le> t' \<Longrightarrow> viewC t' (rs_cache s) = viewA t' (rs_auth s)"
  using assms by (simp_all add: coherent_def tiers_up_def)

text \<open>A saved record is read back while either tier still answers.\<close>

lemma saved_readable:
  assumes "tiers_up now s" "viewA now (rs_auth s) pid = None" "rf_auth cfg = A" "rf_cache cfg = Some C"
    and "now \<le> t" "t < now + of_int ttl"
  obtains s' where "rs_save_if_absent cfg now pid r ttl s = (Inr True, s')"
    and "\<And>A'. fst (rs_get (cfg\<lparr>rf_auth := A'\<rparr>) t pid s') = Inr (Some r)"
    and "\<And>C'. (\<exists>e. fst (st_get C' t pid (rs_cache s')) = Inl e) \<Longrightarrow>
            fst (rs_get (cfg\<lparr>rf_cache := Some C'\<rparr>) t pid s') = Inr (Some r)"
proof -
  have ttl: "0 < ttl" using assms(5,6) by (cases "0 < ttl") auto
  obtain s' where s': "rs_save_if_absent cfg now pid r ttl s = (Inr True, s')" "tiers_up now s'"
    and v: "\<forall>t \<ge> now. viewA t (rs_auth s') = put now pid r ttl t (viewA t (rs_auth s)) \<and>
               viewC t (rs_cache s') = put now pid r ttl t (viewC t (rs_cache s))"
    using save_state [OF assms(1-4) ttl] by blast
  have up: "invA t (rs_auth s')" "invC t (rs_cache s')" "allow t (rs_auth_breaker s')"
    "allow t (rs_cache_breaker s')" using s'(2) auth.invar_later [OF _ assms(5)] cache.invar_later [OF _ assms(5)] by (simp_all add: tiers_up_def)
  have "fst (st_get A t pid (rs_auth s')) = Inr (Some r)"
    using auth.get_law [OF up(1), of pid] v assms(5,6) by (auto simp: put_def)
  moreover have "fst (st_get C t pid (rs_cache s')) = Inr (Some r)"
    using cache.get_law [OF up(2), of pid] v assms(5,6) by (auto simp: put_def)
  ultimately have A: "fst (st_get A t pid (rs_auth s')) = Inr (Some r)"
    and C: "fst (st_get C t pid (rs_cache s')) = Inr (Some r)" by simp_all
  show thesis
  proof (rule that [OF s'(1)])
    show "fst (rs_get (cfg\<lparr>rf_auth := A'\<rparr>) t pid s') = Inr (Some r)" for A'
      using C up assms(4) by (simp add: rs_get_answer cache_answer_def)
    show "fst (rs_get (cfg\<lparr>rf_cache := Some C'\<rparr>) t pid s') = Inr (Some r)"
      if "\<exists>e. fst (st_get C' t pid (rs_cache s')) = Inl e" for C'
      using that A up assms(3) by (auto simp: rs_get_answer cache_answer_def auth_answer_def)
  qed
qed

end

text \<open>Two coherent tiers are one store: the cache is not observable.\<close>

definition two_tiers :: "'a store_ops \<Rightarrow> 'c store_ops \<Rightarrow> int \<Rightarrow> ('a, 'c) resilient_cfg" where
  "two_tiers A C backfill = \<lparr>rf_auth = A, rf_cache = Some C, rf_backfill_ttl = backfill\<rparr>"

lemma two_tiers_fields [simp]: "rf_auth (two_tiers A C b) = A" "rf_cache (two_tiers A C b) = Some C"
  by (simp_all add: two_tiers_def)

locale coherent_tiers = two_tier A viewA invA C viewC invC
  for A :: "'a store_ops" and viewA :: "time \<Rightarrow> 'a \<Rightarrow> str \<rightharpoonup> mapping_record" and invA :: "time \<Rightarrow> 'a \<Rightarrow> bool"
    and C :: "'c store_ops" and viewC :: "time \<Rightarrow> 'c \<Rightarrow> str \<rightharpoonup> mapping_record" and invC :: "time \<Rightarrow> 'c \<Rightarrow> bool" +
  fixes backfill :: int

sublocale coherent_tiers \<subseteq> tiers: record_store "resilient_store (two_tiers A C backfill)"
  "\<lambda>t s. viewA t (rs_auth s)" coherent
proof
  fix s now pid and r r0 :: mapping_record and ttl :: int and t' :: time
  assume coh: "coherent now s"
  note up = coherentD [OF coh]
  let ?R = "resilient_store (two_tiers A C backfill)"
  show "now \<le> t' \<Longrightarrow> coherent t' s"
    using coh auth.invar_later [of now "rs_auth s" t'] cache.invar_later [of now "rs_cache s" t']
    by (simp add: coherent_def tiers_up_def)
  show "viewA t' (rs_auth s) pid = Some r \<Longrightarrow> now \<le> t' \<Longrightarrow> viewA now (rs_auth s) pid = Some r"
    by (rule auth.view_expires [OF up(1)])
  show "\<exists>s'. st_get ?R now pid s = (Inr (viewA now (rs_auth s) pid), s') \<and> coherent now s' \<and>
      (\<forall>t \<ge> now. viewA t (rs_auth s') = viewA t (rs_auth s))"
  proof -
    obtain c where c: "st_get C now pid (rs_cache s) = (Inr (viewA now (rs_auth s) pid), c)" "invC now c"
      "\<forall>t \<ge> now. viewC t c = viewC t (rs_cache s)" using cache.get_law [OF up(2), of pid] up(5) by auto
    obtain a where a: "st_get A now pid (rs_auth s) = (Inr (viewA now (rs_auth s) pid), a)" "invA now a"
      "\<forall>t \<ge> now. viewA t a = viewA t (rs_auth s)" using auth.get_law [OF up(1), of pid] by auto
    show ?thesis
      using a c up(1-4) up(5) by (cases "viewA now (rs_auth s) pid")
        (auto simp: resilient_store_def rs_get_def cache_call_ok auth_call_ok coherent_def tiers_up_def)
  qed
  show "viewA now (rs_auth s) pid = None \<Longrightarrow> 0 < ttl \<Longrightarrow>
      \<exists>s'. st_save_if_absent ?R now pid r ttl s = (Inr True, s') \<and> coherent now s' \<and>
        (\<forall>t \<ge> now. viewA t (rs_auth s') = put now pid r ttl t (viewA t (rs_auth s)))"
    using save_state [of now s pid "two_tiers A C backfill" ttl r] coh by (auto simp: coherent_def resilient_store_def)
  show "viewA now (rs_auth s) pid = Some r0 \<Longrightarrow> 0 < ttl \<Longrightarrow>
      \<exists>s'. st_save_if_absent ?R now pid r ttl s = (Inr False, s') \<and> coherent now s' \<and>
        (\<forall>t \<ge> now. viewA t (rs_auth s') = viewA t (rs_auth s))"
  proof -
    assume "viewA now (rs_auth s) pid = Some r0" "0 < ttl"
    then obtain a where a: "st_save_if_absent A now pid r ttl (rs_auth s) = (Inr False, a)" "invA now a"
      "\<forall>t \<ge> now. viewA t a = viewA t (rs_auth s)" using auth.save_dup_law [OF up(1), of pid r0 ttl r] by auto
    show ?thesis
      using auth_call_ok [where fn = "st_save_if_absent A now pid r ttl", OF up(3) a(1)] a(2,3) up(1-4) up(5)
      by (simp add: resilient_store_def rs_save_if_absent_def coherent_def tiers_up_def)
  qed
  show "0 < ttl \<Longrightarrow> \<exists>s'. st_update ?R now pid r ttl s = (Inr (), s') \<and> coherent now s' \<and>
      (\<forall>t \<ge> now. viewA t (rs_auth s') = put now pid r ttl t (viewA t (rs_auth s)))"
    using auth.update_law [OF up(1), of ttl pid r] cache.update_law [OF up(2), of ttl pid r] up(1-4) up(5)
    by (auto simp: resilient_store_def rs_update_def cache_call_ok auth_call_ok coherent_def tiers_up_def)
  show "\<exists>s'. st_delete ?R now pid s = (Inr (), s') \<and> coherent now s' \<and>
      (\<forall>t \<ge> now. viewA t (rs_auth s') = (viewA t (rs_auth s))(pid := None))"
    using auth.delete_law [OF up(1), of pid] cache.delete_law [OF up(2), of pid] up(1-4) up(5)
    by (auto simp: resilient_store_def rs_delete_def cache_call_ok auth_call_ok coherent_def tiers_up_def)
qed

interpretation memory_tiers: two_tier memory_store mem_view "\<lambda>_ _. True" memory_store mem_view "\<lambda>_ _. True"
  by unfold_locales

section \<open>Properties\<close>

text \<open>
  The resilient store never lets a backend's own exception through: whatever the two tiers
  raise, reads, writes and deletions fail with \<open>StorageUnavailableError\<close> only, and the move to the
  grace period never fails.
\<close>

lemma resilient_errors:
  "(fst (rs_get cfg now pid s) = Inl e \<longrightarrow> e = StorageUnavailableError) \<and>
   (fst (rs_save_if_absent cfg now pid r ttl s) = Inl e \<longrightarrow> e = StorageUnavailableError) \<and>
   (fst (rs_update cfg now pid r ttl s) = Inl e \<longrightarrow> e = StorageUnavailableError) \<and>
   (fst (rs_delete cfg now pid s) = Inl e \<longrightarrow> e = StorageUnavailableError) \<and>
   fst (rs_mark_demasked cfg now pid grace s) = Inr ()"
  by (auto simp: rs_answers dest: auth_answer_error split: option.splits)

definition failing_store :: "unit store_ops" where
  "failing_store = \<lparr>st_save_if_absent = \<lambda>_ _ _ _ s. (Inl BackendError, s),
     st_update = \<lambda>_ _ _ _ s. (Inl BackendError, s), st_get = \<lambda>_ _ s. (Inl BackendError, s),
     st_delete = \<lambda>_ _ s. (Inl BackendError, s), st_mark_demasked = \<lambda>_ _ _ s. (Inl BackendError, s)\<rparr>"

definition sample_tiers :: "'a \<Rightarrow> 'c \<Rightarrow> ('a, 'c) resilient_state" where
  "sample_tiers a c = \<lparr>rs_auth = a, rs_cache = c, rs_auth_breaker = new_breaker 3 5,
     rs_cache_breaker = new_breaker 3 5\<rparr>"

text \<open>
  C20. A write the authoritative store refuses is not answered from the cache: the request fails and
  nothing is left in the cache that a later read could find.
\<close>

theorem resilient_save_fails_closed:
  assumes "\<exists>e. fst (st_save_if_absent (rf_auth cfg) now pid r ttl (rs_auth s)) = Inl e"
  shows "fst (rs_save_if_absent cfg now pid r ttl s) = Inl StorageUnavailableError \<and>
    rs_cache (snd (rs_save_if_absent cfg now pid r ttl s)) = rs_cache s"
proof -
  have "fst (rs_save_if_absent cfg now pid r ttl s) = Inl StorageUnavailableError"
    using assms by (auto simp: rs_save_answer auth_answer_def)
  with rs_save_failed_cache [OF this] show ?thesis by simp
qed

lemma resilient_save_fails_closed_witness:
  "fst (rs_save_if_absent \<lparr>rf_auth = failing_store, rf_cache = Some memory_store, rf_backfill_ttl = 600\<rparr> 0 [1]
     (sample_record [7]) 600 (sample_tiers () Map.empty)) = Inl StorageUnavailableError \<and>
   rs_cache (snd (rs_save_if_absent \<lparr>rf_auth = failing_store, rf_cache = Some memory_store, rf_backfill_ttl = 600\<rparr> 0 [1]
     (sample_record [7]) 600 (sample_tiers () Map.empty))) = Map.empty"
  using resilient_save_fails_closed [of "\<lparr>rf_auth = failing_store, rf_cache = Some memory_store, rf_backfill_ttl = 600\<rparr>"
      0 "[1]" "sample_record [7]" 600 "sample_tiers () Map.empty"]
  by (simp add: failing_store_def sample_tiers_def)


definition down_memory :: "memory store_ops" where
  "down_memory = memory_store\<lparr>st_get := \<lambda>_ _ s. (Inl BackendError, s)\<rparr>"


end
