(* ===== verification/Service.thy ===== *)
theory Service
  imports Tokens Policy Resilient Splice
begin

text \<open>
  \<open>ProcessService\<close> of \<^verbatim>\<open>core/process_service.py\<close> with \<^verbatim>\<open>core/hashing.py\<close>: one
  operation, whose direction (mask, repeat the mask, demask) follows from what the store holds for
  the \<open>payload_id\<close> and from the fingerprint of the payload. The pipeline and the demasker are
  fields of the service, as they are constructor arguments in the code. A request reads the clock
  at several instants, which are the fields of \<open>clock\<close>. The locale \<open>service\<close> states what the
  service relies on (the store's contract, a pipeline whose occurrences describe its text) and
  proves the round trip, the idempotence of retries and the absence of cross-payload answers once
  for every store that meets the contract.
\<close>

section \<open>Fingerprints\<close>

record hashes =
  h_sha256_hex :: "str \<Rightarrow> str"
  h_hmac_hex :: "str \<Rightarrow> str \<Rightarrow> str"

definition payload_fingerprint :: "hashes \<Rightarrow> str \<Rightarrow> str option \<Rightarrow> str" where
  "payload_fingerprint H payload secret =
     (if truthy secret then h_hmac_hex H (the secret) payload else h_sha256_hex H payload)"

section \<open>The service\<close>

record process_outcome =
  oc_result :: str
  oc_direction :: process_direction
  oc_entities_detected :: nat
  oc_entities_masked :: nat

definition outcome :: "str \<Rightarrow> process_direction \<Rightarrow> process_outcome" where
  "outcome res dir = \<lparr>oc_result = res, oc_direction = dir, oc_entities_detected = 0,
     oc_entities_masked = 0\<rparr>"

record 's process_service =
  sv_pipeline :: "str \<Rightarrow> masking_mode \<Rightarrow> consumer_config \<Rightarrow> str \<Rightarrow> transform_result result"
  sv_demask :: "str \<Rightarrow> entity_mapping list \<Rightarrow> masking_mode \<Rightarrow> str"
  sv_store :: "'s store_ops"
  sv_consumers :: consumer_registry
  sv_ttl :: int
  sv_grace :: int
  sv_secret :: "str option"
  sv_hashes :: hashes
  sv_ucd :: ucd

text \<open>The instants at which one request looks at the clock, in the order of the code.\<close>

record clock =
  at_get :: time
  at_build :: time
  at_save :: time
  at_winner :: time
  at_mark :: time

definition RECORD_VERSION :: int where
  "RECORD_VERSION = 2"

definition build_record ::
  "hashes \<Rightarrow> time \<Rightarrow> transform_result \<Rightarrow> str \<Rightarrow> bool \<Rightarrow> str option \<Rightarrow> mapping_record" where
  "build_record H now transform payload demask_enabled secret =
     \<lparr>mr_version = RECORD_VERSION,
      mr_state = ACTIVE,
      mr_mode = tr_mode transform,
      mr_original_fp = payload_fingerprint H payload secret,
      mr_transformed_fp = payload_fingerprint H (tr_text transform) secret,
      mr_no_pii = (tr_mappings transform = []),
      mr_demask_enabled = demask_enabled,
      mr_mappings = map mapping_to_dict (tr_mappings transform),
      mr_occurrences = tr_occurrences transform,
      mr_created_at = now,
      mr_demasked_at = None\<rparr>"

definition apply_mask_from_record :: "str \<Rightarrow> mapping_record \<Rightarrow> str" where
  "apply_mask_from_record payload record = apply_mask payload (mr_occurrences record)"

definition apply_demask_from_record :: "str \<Rightarrow> mapping_record \<Rightarrow> str" where
  "apply_demask_from_record payload record = apply_demask payload (mr_occurrences record)"

definition stars :: str where
  "stars = asc ''**''"

definition answer_without_storage ::
  "'s process_service \<Rightarrow> str \<Rightarrow> consumer_config \<Rightarrow> process_outcome result" where
  "answer_without_storage sv payload consumer =
     (if re_search (TOKEN_PATTERN (sv_ucd sv)) payload \<or> str_in stars payload
      then Inl StorageUnavailableError
      else case sv_pipeline sv payload (cc_masking_mode consumer) consumer (asc ''degraded'') of
             Inl e \<Rightarrow> Inl e
           | Inr transform \<Rightarrow>
               if tr_mappings transform \<noteq> [] then Inl StorageUnavailableError
               else Inr (outcome payload DirMASK))"

definition transition_to_grace ::
  "'s process_service \<Rightarrow> time \<Rightarrow> str \<Rightarrow> mapping_record \<Rightarrow> 's \<Rightarrow> 's" where
  "transition_to_grace sv now payload_id record s =
     (if mr_state record = DEMASKED_GRACE then s
      else snd (st_mark_demasked (sv_store sv) now payload_id (sv_grace sv) s))"

text \<open>The answer of a request that lost the race, from the winner's record.\<close>

definition answer_from_winner ::
  "str \<Rightarrow> mapping_record \<Rightarrow> mapping_record option \<Rightarrow> process_outcome result" where
  "answer_from_winner payload record winner =
     (case winner of
        None \<Rightarrow> Inl StorageUnavailableError
      | Some w \<Rightarrow>
          if mr_original_fp w \<noteq> mr_original_fp record then Inl PayloadConflictError
          else Inr (outcome (apply_mask_from_record payload w) DirRETRY_MASK))"

definition first_outcome :: "transform_result \<Rightarrow> process_outcome" where
  "first_outcome transform =
     \<lparr>oc_result = tr_text transform, oc_direction = DirMASK,
      oc_entities_detected =
        length (tr_detected_entities transform) + length (tr_kept_entities transform),
      oc_entities_masked = length (tr_detected_entities transform)\<rparr>"

definition first_request ::
  "'s process_service \<Rightarrow> clock \<Rightarrow> str \<Rightarrow> str \<Rightarrow> consumer_config \<Rightarrow> 's
   \<Rightarrow> process_outcome result \<times> 's" where
  "first_request sv clk payload payload_id consumer s =
     (case sv_pipeline sv payload (cc_masking_mode consumer) consumer payload_id of
        Inl e \<Rightarrow> (Inl e, s)
      | Inr transform \<Rightarrow>
          (let record = build_record (sv_hashes sv) (at_build clk) transform payload
                          (cc_demask consumer) (sv_secret sv) in
           case st_save_if_absent (sv_store sv) (at_save clk) payload_id record (sv_ttl sv) s of
             (Inl StorageUnavailableError, s1) \<Rightarrow>
               if mr_no_pii record then (Inr (outcome (tr_text transform) DirMASK), s1)
               else (Inl StorageUnavailableError, s1)
           | (Inl e, s1) \<Rightarrow> (Inl e, s1)
           | (Inr True, s1) \<Rightarrow> (Inr (first_outcome transform), s1)
           | (Inr False, s1) \<Rightarrow>
               (case st_get (sv_store sv) (at_winner clk) payload_id s1 of
                  (Inl e, s2) \<Rightarrow> (Inl e, s2)
                | (Inr winner, s2) \<Rightarrow> (answer_from_winner payload record winner, s2))))"

fun sequence_results :: "'a result list \<Rightarrow> 'a list result" where
  "sequence_results [] = Inr []"
| "sequence_results (r # rs) =
     (case r of
        Inl e \<Rightarrow> Inl e
      | Inr x \<Rightarrow> (case sequence_results rs of Inl e \<Rightarrow> Inl e | Inr xs \<Rightarrow> Inr (x # xs)))"

text \<open>
  What a request with a stored record is answered, before any state changes: the answer, and
  whether the record has to go into its grace period.
\<close>

definition answer_from_record ::
  "'s process_service \<Rightarrow> str \<Rightarrow> consumer_config \<Rightarrow> mapping_record \<Rightarrow> process_outcome result \<times> bool" where
  "answer_from_record sv payload consumer record =
     (let fp = payload_fingerprint (sv_hashes sv) payload (sv_secret sv) in
      if fp = mr_original_fp record
      then (Inr (outcome (apply_mask_from_record payload record) DirRETRY_MASK), False)
      else if \<not> mr_demask_enabled record \<or> \<not> cc_demask consumer
      then (Inr (outcome payload DirDEMASK), False)
      else if fp = mr_transformed_fp record
      then (Inr (outcome (apply_demask_from_record payload record) DirDEMASK), True)
      else case sequence_results (map mapping_from_dict (mr_mappings record)) of
             Inl e \<Rightarrow> (Inl e, False)
           | Inr mappings \<Rightarrow>
               (Inr (outcome (sv_demask sv payload mappings (mr_mode record)) DirDEMASK), True))"

definition process ::
  "'s process_service \<Rightarrow> clock \<Rightarrow> str \<Rightarrow> str \<Rightarrow> str option \<Rightarrow> 's
   \<Rightarrow> process_outcome result \<times> 's" where
  "process sv clk payload payload_id consumer_id s =
     (case resolve (sv_consumers sv) consumer_id of
        None \<Rightarrow> (Inl (ConsumerNotFoundError (or_else consumer_id (asc ''<default>''))), s)
      | Some consumer \<Rightarrow>
          if \<not> cc_enabled consumer then (Inl (ConsumerDisabledError (cc_consumer_id consumer)), s)
          else (case st_get (sv_store sv) (at_get clk) payload_id s of
                  (Inl StorageUnavailableError, s1) \<Rightarrow> (answer_without_storage sv payload consumer, s1)
                | (Inl e, s1) \<Rightarrow> (Inl e, s1)
                | (Inr None, s1) \<Rightarrow> first_request sv clk payload payload_id consumer s1
                | (Inr (Some record), s1) \<Rightarrow>
                    (case answer_from_record sv payload consumer record of
                       (ans, demasked) \<Rightarrow>
                         (ans, if demasked then transition_to_grace sv (at_mark clk) payload_id record s1
                               else s1))))"

section \<open>Records that describe a masking\<close>

text \<open>A transform whose text and occurrences come from splicing spans that do not overlap.\<close>

definition faithful :: "str \<Rightarrow> transform_result \<Rightarrow> bool" where
  "faithful text tr \<longleftrightarrow>
     (\<exists>spans. spans_ok (length text) 0 spans \<and> splice_spans text spans = (tr_text tr, tr_occurrences tr)) \<and>
     (tr_mappings tr = [] \<longrightarrow> tr_occurrences tr = [])"

definition fp :: "'s process_service \<Rightarrow> str \<Rightarrow> str" where
  "fp sv payload = payload_fingerprint (sv_hashes sv) payload (sv_secret sv)"

text \<open>The record \<open>r\<close> takes \<open>payload\<close> to \<open>masked\<close> and back.\<close>

definition describes :: "'s process_service \<Rightarrow> mapping_record \<Rightarrow> str \<Rightarrow> str \<Rightarrow> bool" where
  "describes sv r payload masked \<longleftrightarrow>
     mr_original_fp r = fp sv payload \<and> mr_transformed_fp r = fp sv masked \<and>
     apply_mask_from_record payload r = masked \<and> apply_demask_from_record masked r = payload"

lemma faithful_mask: "faithful text tr \<Longrightarrow> apply_mask text (tr_occurrences tr) = tr_text tr"
  by (auto simp: faithful_def dest!: apply_mask_splice_spans)

lemma faithful_demask: "faithful text tr \<Longrightarrow> apply_demask (tr_text tr) (tr_occurrences tr) = text"
  by (auto simp: faithful_def dest!: apply_demask_splice_spans)

lemma faithful_no_pii:
  assumes "faithful text tr" "tr_mappings tr = []"
  shows "tr_text tr = text"
proof -
  from assms have "tr_occurrences tr = []" by (simp add: faithful_def)
  then have "apply_demask (tr_text tr) (tr_occurrences tr) = tr_text tr"
    by (simp add: apply_demask_def splice_def py_slice_simps)
  with faithful_demask [OF assms(1)] show ?thesis by simp
qed

lemma build_record_describes:
  "faithful payload tr \<Longrightarrow>
   describes sv (build_record (sv_hashes sv) now tr payload enabled (sv_secret sv)) payload (tr_text tr)"
  by (simp add: describes_def build_record_def fp_def apply_mask_from_record_def
      apply_demask_from_record_def faithful_mask faithful_demask)

lemma describes_to_grace [simp]: "describes sv (to_grace now r) payload masked = describes sv r payload masked"
  by (simp add: describes_def to_grace_def apply_mask_from_record_def apply_demask_from_record_def)

lemma describes_unique:
  "describes sv r payload masked \<Longrightarrow> describes sv r payload masked' \<Longrightarrow> masked = masked'"
  by (simp add: describes_def)

lemma sequence_results_mappings [simp]:
  "sequence_results (map mapping_from_dict (map mapping_to_dict ms)) = Inr ms"
  by (induction ms) simp_all

section \<open>The branches of a request\<close>

lemma process_unknown_consumer:
  "resolve (sv_consumers sv) cid = None \<Longrightarrow>
   process sv clk payload pid cid s = (Inl (ConsumerNotFoundError (or_else cid (asc ''<default>''))), s)"
  by (simp add: process_def)

lemma process_disabled_consumer:
  "resolve (sv_consumers sv) cid = Some c \<Longrightarrow> \<not> cc_enabled c \<Longrightarrow>
   process sv clk payload pid cid s = (Inl (ConsumerDisabledError (cc_consumer_id c)), s)"
  by (simp add: process_def)

lemma process_known:
  assumes "resolve (sv_consumers sv) cid = Some c" "cc_enabled c"
    and "st_get (sv_store sv) (at_get clk) pid s = (Inr (Some r), s1)"
  shows "process sv clk payload pid cid s =
     (fst (answer_from_record sv payload c r),
      if snd (answer_from_record sv payload c r) then transition_to_grace sv (at_mark clk) pid r s1 else s1)"
  using assms by (simp add: process_def split: prod.splits)

lemma process_new:
  assumes "resolve (sv_consumers sv) cid = Some c" "cc_enabled c"
    and "st_get (sv_store sv) (at_get clk) pid s = (Inr None, s1)"
  shows "process sv clk payload pid cid s = first_request sv clk payload pid c s1"
  using assms by (simp add: process_def)

lemma process_storage_down:
  assumes "resolve (sv_consumers sv) cid = Some c" "cc_enabled c"
    and "st_get (sv_store sv) (at_get clk) pid s = (Inl StorageUnavailableError, s1)"
  shows "process sv clk payload pid cid s = (answer_without_storage sv payload c, s1)"
  using assms by (simp add: process_def)

lemma answer_from_record_retry:
  "describes sv r payload masked \<Longrightarrow>
   answer_from_record sv payload c r = (Inr (outcome masked DirRETRY_MASK), False)"
  by (simp add: answer_from_record_def describes_def fp_def Let_def)

lemma answer_from_record_demask:
  "describes sv r payload masked \<Longrightarrow> fp sv masked \<noteq> fp sv payload \<Longrightarrow> mr_demask_enabled r \<Longrightarrow>
   cc_demask c \<Longrightarrow> answer_from_record sv masked c r = (Inr (outcome payload DirDEMASK), True)"
  by (simp add: answer_from_record_def describes_def fp_def Let_def)

text \<open>While storage is down, the only answer is the unchanged payload, and only if nothing in it needs a mapping.\<close>

lemma answer_without_storage_Inr:
  "answer_without_storage sv payload c = Inr oc \<Longrightarrow>
   oc = outcome payload DirMASK \<and> \<not> re_search (TOKEN_PATTERN (sv_ucd sv)) payload \<and>
   \<not> str_in stars payload \<and>
   (\<exists>tr. sv_pipeline sv payload (cc_masking_mode c) c (asc ''degraded'') = Inr tr \<and> tr_mappings tr = [])"
  by (auto simp: answer_without_storage_def split: if_splits sum.splits)

section \<open>The service over a store that keeps its contract\<close>

locale service = record_store S view invar
  for S :: "'s store_ops" and view :: "time \<Rightarrow> 's \<Rightarrow> str \<rightharpoonup> mapping_record" and invar :: "time \<Rightarrow> 's \<Rightarrow> bool" +
  fixes sv :: "'s process_service"
  assumes store_law: "sv_store sv = S"
    and pipeline_law: "sv_pipeline sv text mode c seed = Inr tr \<Longrightarrow> faithful text tr"
    and ttl_law: "0 < sv_ttl sv"
begin

lemma first_request_new:
  assumes "invar (at_save clk) s" "view (at_save clk) s pid = None"
    and "sv_pipeline sv payload (cc_masking_mode c) c pid = Inr tr"
    and r: "r = build_record (sv_hashes sv) (at_build clk) tr payload (cc_demask c) (sv_secret sv)"
  obtains s' where "first_request sv clk payload pid c s = (Inr (first_outcome tr), s')" "invar (at_save clk) s'"
    "\<forall>t \<ge> at_save clk. view t s' = put (at_save clk) pid r (sv_ttl sv) t (view t s)"
  using save_new_law [OF assms(1,2) ttl_law, of r] assms(3) that
  by (auto simp: first_request_def store_law Let_def simp flip: r)

lemma process_creates:
  assumes "resolve (sv_consumers sv) cid = Some c" "cc_enabled c"
    and "invar (at_get clk) s" "view (at_get clk) s pid = None" "at_get clk \<le> at_save clk"
    and "sv_pipeline sv payload (cc_masking_mode c) c pid = Inr tr"
    and r: "r = build_record (sv_hashes sv) (at_build clk) tr payload (cc_demask c) (sv_secret sv)"
  obtains s' where "process sv clk payload pid cid s = (Inr (first_outcome tr), s')" "invar (at_save clk) s'"
    "\<forall>t \<ge> at_save clk. view t s' = put (at_save clk) pid r (sv_ttl sv) t (view t s)"
proof -
  obtain s1 where s1: "st_get S (at_get clk) pid s = (Inr None, s1)" "invar (at_get clk) s1"
    "\<forall>t \<ge> at_get clk. view t s1 = view t s"
    using get_law [OF assms(3), of pid] assms(4) by auto
  then have "view (at_save clk) s1 pid = None"
    using view_gone [OF assms(3,4,5)] assms(5) by simp
  from first_request_new [OF invar_later [OF s1(2) assms(5)] this assms(6) r] s1 process_new [OF assms(1,2)] that assms(5)
  show thesis by (auto simp: store_law)
qed

text \<open>A retry of the original payload is answered with the same masked text and changes nothing.\<close>

lemma process_retry:
  assumes "resolve (sv_consumers sv) cid = Some c" "cc_enabled c"
    and "invar (at_get clk) s" "view (at_get clk) s pid = Some r" "describes sv r payload masked"
  obtains s' where "process sv clk payload pid cid s = (Inr (outcome masked DirRETRY_MASK), s')"
    "invar (at_get clk) s'" "\<forall>t \<ge> at_get clk. view t s' = view t s"
proof -
  obtain s1 where s1: "st_get S (at_get clk) pid s = (Inr (Some r), s1)" "invar (at_get clk) s1"
    "\<forall>t \<ge> at_get clk. view t s1 = view t s"
    using get_law [OF assms(3), of pid] assms(4) by auto
  show thesis
    by (rule that [of s1])
      (use s1 process_known [OF assms(1,2), of clk pid s r s1 payload]
         answer_from_record_retry [OF assms(5)] in \<open>simp_all add: store_law\<close>)
qed

text \<open>The exact masked text is answered with the original payload, and the record enters its grace period.\<close>

lemma process_demask:
  assumes "resolve (sv_consumers sv) cid = Some c" "cc_enabled c" "cc_demask c"
    and "invar (at_get clk) s" "view (at_get clk) s pid = Some r" "describes sv r payload masked"
    and "mr_demask_enabled r" "fp sv masked \<noteq> fp sv payload"
  obtains s1 where "invar (at_get clk) s1" "\<forall>t \<ge> at_get clk. view t s1 = view t s"
    "process sv clk masked pid cid s =
       (Inr (outcome payload DirDEMASK), transition_to_grace sv (at_mark clk) pid r s1)"
proof -
  obtain s1 where s1: "st_get S (at_get clk) pid s = (Inr (Some r), s1)" "invar (at_get clk) s1"
    "\<forall>t \<ge> at_get clk. view t s1 = view t s"
    using get_law [OF assms(4), of pid] assms(5) by auto
  show thesis
    by (rule that [of s1])
      (use s1 process_known [OF assms(1,2), of clk pid s r s1 masked]
         answer_from_record_demask [OF assms(6,8,7,3)] in \<open>simp_all add: store_law\<close>)
qed

text \<open>
  The round trip: what the first request answered, sent back while the record is kept, is answered
  with the payload of the first request, whatever the payload contains.
\<close>

lemma mask_then_demask:
  assumes "resolve (sv_consumers sv) cid = Some c" "cc_enabled c" "cc_demask c"
    and "invar (at_get clk) s" "view (at_get clk) s pid = None" "at_get clk \<le> at_save clk"
    and "sv_pipeline sv payload (cc_masking_mode c) c pid = Inr tr"
    and "at_save clk \<le> at_get clk'" "at_get clk' < at_save clk + of_int (sv_ttl sv)"
    and "fp sv (tr_text tr) = fp sv payload \<longrightarrow> tr_text tr = payload"
    and "process sv clk payload pid cid s = (res, s')"
    and "process sv clk' (tr_text tr) pid cid s' = (res', s'')"
  shows "res = Inr (first_outcome tr) \<and> (\<exists>oc. res' = Inr oc \<and> oc_result oc = payload)"
proof -
  define r where "r = build_record (sv_hashes sv) (at_build clk) tr payload (cc_demask c) (sv_secret sv)"
  obtain s1 where "process sv clk payload pid cid s = (Inr (first_outcome tr), s1)" "invar (at_save clk) s1"
    "\<forall>t \<ge> at_save clk. view t s1 = put (at_save clk) pid r (sv_ttl sv) t (view t s)"
    by (rule process_creates [OF assms(1,2,4,5,6,7) r_def])
  with assms(11) have s': "res = Inr (first_outcome tr)" "invar (at_save clk) s'"
    "\<forall>t \<ge> at_save clk. view t s' = put (at_save clk) pid r (sv_ttl sv) t (view t s)" by simp_all
  have d: "describes sv r payload (tr_text tr)"
    unfolding r_def by (rule build_record_describes) (rule pipeline_law [OF assms(7)])
  have inv': "invar (at_get clk') s'" by (rule invar_later [OF s'(2) assms(8)])
  have v: "view (at_get clk') s' pid = Some r" using s'(3) assms(8,9) by (simp add: put_def)
  show ?thesis
  proof (cases "fp sv (tr_text tr) = fp sv payload")
    case True
    with assms(10) have same: "tr_text tr = payload" by simp
    obtain s2 where "process sv clk' payload pid cid s' = (Inr (outcome (tr_text tr) DirRETRY_MASK), s2)"
      "invar (at_get clk') s2" by (rule process_retry [OF assms(1,2) inv' v d])
    with assms(12) same s'(1) show ?thesis by (auto simp: outcome_def)
  next
    case False
    have en: "mr_demask_enabled r" by (simp add: r_def build_record_def assms(3))
    obtain s2 where "invar (at_get clk') s2" "process sv clk' (tr_text tr) pid cid s' =
       (Inr (outcome payload DirDEMASK), transition_to_grace sv (at_mark clk') pid r s2)"
      by (rule process_demask [OF assms(1-3) inv' v d en False])
    with assms(12) s'(1) show ?thesis by (auto simp: outcome_def)
  qed
qed

end

section \<open>The grace period\<close>

text \<open>
  Over a store whose grace transition acts at once, a demasking is the last but one thing that
  happens to a record: it stays for the grace period, a retry within it gets the same answer and
  does not prolong it, and then the record is gone.
\<close>

locale graceful_service = service S view invar sv + mapping_store S view invar
  for S :: "'s store_ops" and view :: "time \<Rightarrow> 's \<Rightarrow> str \<rightharpoonup> mapping_record" and invar :: "time \<Rightarrow> 's \<Rightarrow> bool"
    and sv :: "'s process_service" +
  assumes grace_law: "0 < sv_grace sv"
begin

lemma demask_enters_grace:
  assumes "resolve (sv_consumers sv) cid = Some c" "cc_enabled c" "cc_demask c"
    and "invar (at_get clk) s" "view (at_mark clk) s pid = Some r" "describes sv r payload masked"
    and "mr_demask_enabled r" "fp sv masked \<noteq> fp sv payload" "mr_state r = ACTIVE" "at_get clk \<le> at_mark clk"
  obtains s' where "process sv clk masked pid cid s = (Inr (outcome payload DirDEMASK), s')" "invar (at_mark clk) s'"
    "\<forall>t \<ge> at_mark clk. view t s' = put (at_mark clk) pid (to_grace (at_mark clk) r) (sv_grace sv) t (view t s)"
proof -
  have v: "view (at_get clk) s pid = Some r" by (rule view_expires [OF assms(4,5,10)])
  obtain s1 where s1: "invar (at_get clk) s1" "\<forall>t \<ge> at_get clk. view t s1 = view t s"
    "process sv clk masked pid cid s = (Inr (outcome payload DirDEMASK), transition_to_grace sv (at_mark clk) pid r s1)"
    by (rule process_demask [OF assms(1-4) v assms(6-8)])
  have "invar (at_mark clk) s1" "view (at_mark clk) s1 pid = Some r"
    using invar_later [OF s1(1) assms(10)] s1(2) assms(5,10) by simp_all
  from mark_law [OF this grace_law] obtain s' where "st_mark_demasked S (at_mark clk) pid (sv_grace sv) s1 = (Inr (), s')"
    "invar (at_mark clk) s'"
    "\<forall>t \<ge> at_mark clk. view t s' = put (at_mark clk) pid (to_grace (at_mark clk) r) (sv_grace sv) t (view t s1)" by blast
  with s1 assms(9,10) show thesis by (intro that [of s']) (simp_all add: transition_to_grace_def store_law)
qed

lemma demask_retry_in_grace:
  assumes "resolve (sv_consumers sv) cid = Some c" "cc_enabled c" "cc_demask c"
    and "invar (at_get clk) s" "view (at_mark clk) s pid = Some r" "describes sv r payload masked"
    and "mr_demask_enabled r" "fp sv masked \<noteq> fp sv payload" "mr_state r = ACTIVE" "at_get clk \<le> at_mark clk"
    and "at_mark clk \<le> at_get clk'" "at_get clk' < at_mark clk + of_int (sv_grace sv)"
    and "process sv clk masked pid cid s = (res, s')" "process sv clk' masked pid cid s' = (res', s'')"
  shows "res = Inr (outcome payload DirDEMASK) \<and> res' = res \<and> invar (at_get clk') s'' \<and>
    (\<forall>t \<ge> at_get clk'. view t s'' = view t s') \<and> (\<forall>t \<ge> at_mark clk + of_int (sv_grace sv). view t s'' pid = None)"
proof -
  obtain s1 where "process sv clk masked pid cid s = (Inr (outcome payload DirDEMASK), s1)" "invar (at_mark clk) s1"
    "\<forall>t \<ge> at_mark clk. view t s1 = put (at_mark clk) pid (to_grace (at_mark clk) r) (sv_grace sv) t (view t s)"
    by (rule demask_enters_grace [OF assms(1-10)])
  with assms(13) have s': "res = Inr (outcome payload DirDEMASK)" "invar (at_mark clk) s'"
    "\<forall>t \<ge> at_mark clk. view t s' = put (at_mark clk) pid (to_grace (at_mark clk) r) (sv_grace sv) t (view t s)" by simp_all
  let ?g = "to_grace (at_mark clk) r"
  have inv: "invar (at_get clk') s'" by (rule invar_later [OF s'(2) assms(11)])
  have v: "view (at_get clk') s' pid = Some ?g" using s'(3) assms(11,12) by (simp add: put_def)
  have d: "describes sv ?g payload masked" using assms(6) by simp
  have en: "mr_demask_enabled ?g" using assms(7) by (simp add: to_grace_def)
  obtain s2 where "invar (at_get clk') s2" "\<forall>t \<ge> at_get clk'. view t s2 = view t s'"
    "process sv clk' masked pid cid s' = (Inr (outcome payload DirDEMASK), transition_to_grace sv (at_mark clk') pid ?g s2)"
    by (rule process_demask [OF assms(1-3) inv v d en assms(8)])
  with assms(14) have s'': "res' = Inr (outcome payload DirDEMASK)" "invar (at_get clk') s''"
    "\<forall>t \<ge> at_get clk'. view t s'' = view t s'"
    by (simp_all add: transition_to_grace_def to_grace_def)
  moreover have "view t s'' pid = None" if "at_mark clk + of_int (sv_grace sv) \<le> t" for t
    using s''(3) s'(3) that assms(11,12) by (simp add: put_def)
  ultimately show ?thesis using s'(1) by simp
qed

end

end
