(* ===== verification/Engine.thy ===== *)
theory Engine
  imports Identity Synthetic Partial Service "HOL-Library.List_Lexorder"
begin

text \<open>
  \<^verbatim>\<open>replacement/engine.py\<close> and \<^verbatim>\<open>replacement/strategies.py\<close>: from decisions to the masked
  text. Every entity gets a mapping with its token, its partial mask and a synthetic surrogate drawn
  from a stream seeded with the session and the identity key; every personal decision becomes a
  replacement span. A run has three outcomes, as in the generator: no return, an exception, a
  result. The mapping dictionary, which the loop over the decisions mutates, is an association list
  in insertion order. The lemmas show that the result describes exactly what was replaced, that
  surrogates are unambiguous and absent from the source text, and that masking always returns.
\<close>

section \<open>Mappings\<close>

definition entity_seed :: "hash8 \<Rightarrow> str \<Rightarrow> str \<Rightarrow> nat" where
  "entity_seed H session_seed identity_key = H (session_seed @ asc '':'' @ identity_key)"

definition MAX_COLLISION_RETRIES :: nat where
  "MAX_COLLISION_RETRIES = 20"

definition alias_shape_collides :: "ucd \<Rightarrow> analyzer \<Rightarrow> name_identity option \<Rightarrow> str \<Rightarrow> bool" where
  "alias_shape_collides U A identity source_text =
     (case identity of
        None \<Rightarrow> False
      | Some ni \<Rightarrow>
          (let gender = or_else (ni_gender ni) masc;
               first = or_else (ni_first ni) [];
               surname = or_else (ni_surname ni) [];
               patronymic = or_else (ni_patronymic ni) [];
               pairs = filter (\<lambda>(a, b). a \<noteq> [] \<and> b \<noteq> [])
                         [(first, patronymic), (first, surname), (surname, first)]
           in list_ex (\<lambda>(a, b). list_ex (\<lambda>c.
                str_in (inflect_word U A a c (Some gender) @ asc '' '' @ inflect_word U A b c (Some gender))
                  source_text) CASES) pairs))"

text \<open>One attempt: a new generator with the bumped seed, and what it draws.\<close>

definition draw_surrogate ::
  "ucd \<Rightarrow> analyzer \<Rightarrow> hash8 \<Rightarrow> str \<Rightarrow> entity_group \<Rightarrow> nat \<Rightarrow> (str \<times> name_identity option) result option" where
  "draw_surrogate U A H session_seed g attempt =
     (let R = new_stream H (entity_seed H session_seed (eg_identity_key g) + attempt);
          nominal = eg_original_nominal g
      in map_option (map_sum id fst)
           (if is_name_type (eg_type g)
            then gmap (\<lambda>(synth, identity). (synth, Some identity))
                   (full_name_in_case U A R nominal (eg_gender g) nomn) 0
            else gmap (\<lambda>synth. (synth, None)) (generic U R (eg_type g) nominal) 0))"

definition acceptable_surrogate ::
  "ucd \<Rightarrow> analyzer \<Rightarrow> str set \<Rightarrow> str \<Rightarrow> str \<times> name_identity option \<Rightarrow> bool" where
  "acceptable_surrogate U A used source_text = (\<lambda>(synth, identity).
     synth \<noteq> [] \<and> synth \<notin> used \<and> \<not> str_in synth source_text \<and>
     \<not> alias_shape_collides U A identity source_text)"

text \<open>The \<open>for ... else\<close> over the attempts; \<open>Inr None\<close> is the \<open>else\<close> branch.\<close>

fun surrogate_loop ::
  "(nat \<Rightarrow> 'a result option) \<Rightarrow> ('a \<Rightarrow> bool) \<Rightarrow> nat list \<Rightarrow> 'a option result option" where
  "surrogate_loop draw ok [] = Some (Inr None)"
| "surrogate_loop draw ok (attempt # attempts) =
     (case draw attempt of
        None \<Rightarrow> None
      | Some (Inl e) \<Rightarrow> Some (Inl e)
      | Some (Inr x) \<Rightarrow> if ok x then Some (Inr (Some x)) else surrogate_loop draw ok attempts)"

text \<open>\<open>sorted(set(xs))\<close>\<close>

definition sorted_set :: "str list \<Rightarrow> str list" where
  "sorted_set xs = sort (remdups xs)"

definition original_identity :: "entity_group \<Rightarrow> resolved_person \<Rightarrow> name_identity" where
  "original_identity g p =
     \<lparr>ni_surname = map_of (rp_surfaces p) Surname, ni_first = map_of (rp_surfaces p) First,
      ni_patronymic = map_of (rp_surfaces p) Patronymic, ni_gender = eg_gender g, ni_nominal = None\<rparr>"

text \<open>The mapping, given the accepted surrogate (\<open>None\<close>: the attempts ran out).\<close>

definition mapping_for :: "ucd \<Rightarrow> entity_group \<Rightarrow> (str \<times> name_identity option) option \<Rightarrow> entity_mapping" where
  "mapping_for U g drawn =
     (let nominal = eg_original_nominal g;
          token = token_for (eg_entity_id g);
          (synth, identity) = (case drawn of Some x \<Rightarrow> x | None \<Rightarrow> (token, None))
      in \<lparr>em_entity_id = eg_entity_id g, em_type = eg_type g, em_original = c_value (eg_first g),
          em_token = token, em_synthetic = synth, em_partial = partial_mask U (eg_type g) nominal,
          em_original_nominal = Some nominal, em_synthetic_nominal = Some synth,
          em_grammatical_case = Some (or_else (md_gram_case (c_metadata (eg_first g))) nomn),
          em_gender = eg_gender g,
          em_aliases = sorted_set (map (\<lambda>(i, d). c_value (d_candidate d)) (eg_decisions g)),
          em_metadata =
            \<lparr>mm_synthetic_fallback = (drawn = None),
             mm_synthetic_identity = (if is_name_type (eg_type g) then identity else None),
             mm_original_identity = map_option (original_identity g) (eg_resolved g),
             mm_alias_types = map_option (\<lambda>p. sorted_set (rp_alias_types p)) (eg_resolved g)\<rparr>\<rparr>)"

definition build_mapping ::
  "ucd \<Rightarrow> analyzer \<Rightarrow> hash8 \<Rightarrow> entity_group \<Rightarrow> str \<Rightarrow> str set \<Rightarrow> str \<Rightarrow> (entity_mapping \<times> str set) result option" where
  "build_mapping U A H g session_seed used source_text =
     map_option (map_sum id (\<lambda>drawn.
         let m = mapping_for U g drawn in (m, insert (em_synthetic m) used)))
       (surrogate_loop (draw_surrogate U A H session_seed g)
          (acceptable_surrogate U A used source_text) [0..<MAX_COLLISION_RETRIES])"

fun build_mappings ::
  "ucd \<Rightarrow> analyzer \<Rightarrow> hash8 \<Rightarrow> str \<Rightarrow> str \<Rightarrow> str set \<Rightarrow> entity_group list \<Rightarrow> (str \<times> entity_mapping) list result option" where
  "build_mappings U A H session_seed source_text used [] = Some (Inr [])"
| "build_mappings U A H session_seed source_text used (g # groups) =
     (case build_mapping U A H g session_seed used source_text of
        None \<Rightarrow> None
      | Some (Inl e) \<Rightarrow> Some (Inl e)
      | Some (Inr (m, used')) \<Rightarrow>
          map_option (map_sum id (\<lambda>ms. (eg_identity_key g, m) # ms))
            (build_mappings U A H session_seed source_text used' groups))"

section \<open>Replacements\<close>

definition synthetic_replacement :: "ucd \<Rightarrow> analyzer \<Rightarrow> privacy_decision \<Rightarrow> entity_mapping \<Rightarrow> str result" where
  "synthetic_replacement U A d m =
     (if mm_synthetic_fallback (em_metadata m) then Inr (em_token m)
      else if is_name_type (em_type m)
      then (case mm_synthetic_identity (em_metadata m) of
              None \<Rightarrow> Inr (em_synthetic m)
            | Some identity \<Rightarrow>
                (let md = c_metadata (d_candidate d);
                     occurrence_case = or_else (md_gram_case md) (or_else (em_grammatical_case m) nomn)
                 in case md_name_parts md of
                      Some (part # parts) \<Rightarrow>
                        render_like_mention U A (c_value (d_candidate d)) (part # parts) identity
                          occurrence_case (or_else (ni_gender identity) masc)
                    | _ \<Rightarrow>
                        Inr (inflect_full_name U A (ni_surname identity) (ni_first identity)
                               (ni_patronymic identity) occurrence_case (ni_gender identity))))
      else Inr (em_synthetic m))"

definition set_fallback :: "entity_mapping \<Rightarrow> entity_mapping" where
  "set_fallback m = m\<lparr>em_metadata := (em_metadata m)\<lparr>mm_synthetic_fallback := True\<rparr>\<rparr>"

text \<open>The replacement of one occurrence, and the mapping, which a failed rendering downgrades.\<close>

definition occurrence_replacement ::
  "ucd \<Rightarrow> analyzer \<Rightarrow> masking_mode \<Rightarrow> privacy_decision \<Rightarrow> entity_mapping \<Rightarrow> str \<times> entity_mapping" where
  "occurrence_replacement U A mode d m =
     (case mode of
        PARTIAL \<Rightarrow> (partial_mask U (c_type (d_candidate d)) (c_value (d_candidate d)), m)
      | TOKEN \<Rightarrow> (em_token m, m)
      | SYNTHETIC \<Rightarrow>
          (case synthetic_replacement U A d m of
             Inl e \<Rightarrow> (em_token m, set_fallback m)
           | Inr replacement \<Rightarrow>
               if replacement = c_value (d_candidate d) then (em_token m, m) else (replacement, m)))"

section \<open>The transform\<close>

record transform_state =
  ts_mappings :: "(str \<times> entity_mapping) list"
  ts_spans :: "repl_span list"
  ts_detected :: "detected_entity list"
  ts_kept :: "detected_entity list"

definition detected :: "str \<Rightarrow> privacy_decision \<Rightarrow> detected_entity" where
  "detected entity_id d = \<lparr>de_entity_id = entity_id, de_decision = d,
     de_start = c_start (d_candidate d), de_end = c_end (d_candidate d)\<rparr>"

text \<open>\<open>entity_by_key[decision_to_key[id(decision)]]\<close> for the decision at position \<open>i\<close>.\<close>

definition group_of :: "entity_group list \<Rightarrow> nat \<Rightarrow> entity_group option" where
  "group_of groups i = find (\<lambda>g. i \<in> set (map fst (eg_decisions g))) groups"

definition transform_decision ::
  "ucd \<Rightarrow> analyzer \<Rightarrow> masking_mode \<Rightarrow> entity_group list \<Rightarrow> idecision \<Rightarrow> transform_state \<Rightarrow> transform_state result" where
  "transform_decision U A mode groups dec st =
     (let (i, d) = dec in
      if \<not> is_personal d then Inr (st\<lparr>ts_kept := ts_kept st @ [detected [] d]\<rparr>)
      else case group_of groups i of
             None \<Rightarrow> Inl KeyError
           | Some g \<Rightarrow>
               (case map_of (ts_mappings st) (eg_identity_key g) of
                  None \<Rightarrow> Inl KeyError
                | Some m \<Rightarrow>
                    (let (replacement, m') = occurrence_replacement U A mode d m in
                     Inr (st\<lparr>ts_mappings := AList.update (eg_identity_key g) m' (ts_mappings st),
                             ts_spans := ts_spans st @ [(c_start (d_candidate d), c_end (d_candidate d),
                                                         replacement, eg_entity_id g)],
                             ts_detected := ts_detected st @ [detected (eg_entity_id g) d]\<rparr>))))"

fun transform_loop ::
  "ucd \<Rightarrow> analyzer \<Rightarrow> masking_mode \<Rightarrow> entity_group list \<Rightarrow> idecision list \<Rightarrow> transform_state \<Rightarrow> transform_state result" where
  "transform_loop U A mode groups [] st = Inr st"
| "transform_loop U A mode groups (dec # decs) st =
     (case transform_decision U A mode groups dec st of
        Inl e \<Rightarrow> Inl e
      | Inr st' \<Rightarrow> transform_loop U A mode groups decs st')"

definition finish_transform :: "str \<Rightarrow> masking_mode \<Rightarrow> transform_state \<Rightarrow> transform_result" where
  "finish_transform text mode st =
     (let (result_text, occurrences) = splice_spans text (sort_key rs_start (ts_spans st)) in
      \<lparr>tr_text = result_text, tr_mode = mode, tr_mappings = map snd (ts_mappings st),
       tr_detected_entities = ts_detected st, tr_kept_entities = ts_kept st,
       tr_occurrences = occurrences\<rparr>)"

definition build_transform_result ::
  "ucd \<Rightarrow> analyzer \<Rightarrow> hash8 \<Rightarrow> str \<Rightarrow> privacy_decision list \<Rightarrow> masking_mode \<Rightarrow> str \<Rightarrow> transform_result result option" where
  "build_transform_result U A H text decisions mode session_seed =
     (let (groups, decisions') = group_personal_decisions U decisions in
      case build_mappings U A H session_seed text {} groups of
        None \<Rightarrow> None
      | Some (Inl e) \<Rightarrow> Some (Inl e)
      | Some (Inr mappings) \<Rightarrow>
          Some (map_sum id (finish_transform text mode)
            (transform_loop U A mode groups (enumerate 0 decisions')
               \<lparr>ts_mappings = mappings, ts_spans = [], ts_detected = [], ts_kept = []\<rparr>)))"

text \<open>\<open>_ModeStrategy.transform\<close> and \<open>get_strategy\<close>: one strategy per mode.\<close>

definition get_strategy ::
  "masking_mode \<Rightarrow> ucd \<Rightarrow> analyzer \<Rightarrow> hash8 \<Rightarrow> str \<Rightarrow> privacy_decision list \<Rightarrow> str \<Rightarrow> transform_result result option" where
  "get_strategy mode U A H text decisions session_seed =
     build_transform_result U A H text decisions mode session_seed"

section \<open>The loop over the decisions\<close>

lemma find_SomeI: "x \<in> set xs \<Longrightarrow> P x \<Longrightarrow> \<exists>y. find P xs = Some y"
  by (metis find_None_iff not_None_eq)

text \<open>A mapping as it was built, or downgraded to its token since.\<close>

definition downgraded :: "entity_mapping \<Rightarrow> entity_mapping \<Rightarrow> bool" where
  "downgraded m m' \<longleftrightarrow> m' = m \<or> m' = set_fallback m"

lemma set_fallback_fields [simp]:
  "em_entity_id (set_fallback m) = em_entity_id m" "em_type (set_fallback m) = em_type m"
  "em_original (set_fallback m) = em_original m" "em_token (set_fallback m) = em_token m"
  "em_synthetic (set_fallback m) = em_synthetic m" "set_fallback (set_fallback m) = set_fallback m"
  "mm_synthetic_fallback (em_metadata (set_fallback m))"
  by (simp_all add: set_fallback_def)

lemma downgraded_fields:
  "downgraded m m' \<Longrightarrow> em_token m' = em_token m \<and> em_original m' = em_original m \<and> em_type m' = em_type m \<and>
     em_synthetic m' = em_synthetic m \<and> em_entity_id m' = em_entity_id m \<and>
     (mm_synthetic_fallback (em_metadata m) \<longrightarrow> mm_synthetic_fallback (em_metadata m'))"
  by (auto simp: downgraded_def)

lemma downgraded_trans: "downgraded m m' \<Longrightarrow> downgraded m' m'' \<Longrightarrow> downgraded m m''"
  by (auto simp: downgraded_def)

lemma occurrence_replacement_downgraded: "downgraded m (snd (occurrence_replacement U A mode d m))"
  by (auto simp: occurrence_replacement_def downgraded_def split: masking_mode.splits sum.splits)

text \<open>The span of a personal decision: its place, the replacement its mapping gives, its entity.\<close>

definition span_for ::
  "ucd \<Rightarrow> analyzer \<Rightarrow> masking_mode \<Rightarrow> entity_group list \<Rightarrow> (str \<times> entity_mapping) list \<Rightarrow> idecision \<Rightarrow> repl_span \<Rightarrow> bool" where
  "span_for U A mode groups ms dec sp \<longleftrightarrow>
     (\<exists>g m m'. group_of groups (fst dec) = Some g \<and> map_of ms (eg_identity_key g) = Some m \<and> downgraded m m' \<and>
        sp = (c_start (d_candidate (snd dec)), c_end (d_candidate (snd dec)),
                fst (occurrence_replacement U A mode (snd dec) m'), eg_entity_id g))"

abbreviation personal_of :: "idecision list \<Rightarrow> idecision list" where
  "personal_of decs \<equiv> filter (\<lambda>(i, d). is_personal d) decs"

definition transformed ::
  "ucd \<Rightarrow> analyzer \<Rightarrow> masking_mode \<Rightarrow> entity_group list \<Rightarrow> (str \<times> entity_mapping) list \<Rightarrow> idecision list \<Rightarrow> transform_state \<Rightarrow> bool" where
  "transformed U A mode groups ms decs st \<longleftrightarrow>
     list_all2 (rel_prod (=) downgraded) ms (ts_mappings st) \<and>
     list_all2 (span_for U A mode groups ms) (personal_of decs) (ts_spans st) \<and>
     map de_decision (ts_detected st) = map snd (personal_of decs) \<and>
     map de_entity_id (ts_detected st) = map (snd \<circ> snd \<circ> snd) (ts_spans st)"

text \<open>Every personal decision has a group, and every group has a mapping under its key.\<close>

definition covered :: "entity_group list \<Rightarrow> (str \<times> entity_mapping) list \<Rightarrow> idecision list \<Rightarrow> bool" where
  "covered groups ms decs \<longleftrightarrow> map fst ms = map eg_identity_key groups \<and>
     (\<forall>(i, d) \<in> set (personal_of decs). \<exists>g \<in> set groups. i \<in> fst ` set (eg_decisions g))"

lemma rel_mappings_lookup:
  "list_all2 (rel_prod (=) downgraded) ms ms' \<Longrightarrow> map_of ms k = Some m \<Longrightarrow>
   \<exists>m'. map_of ms' k = Some m' \<and> downgraded m m'"
  by (induction ms ms' rule: list_all2_induct) auto

lemma rel_mappings_update:
  "list_all2 (rel_prod (=) downgraded) ms ms' \<Longrightarrow> map_of ms k = Some m \<Longrightarrow> downgraded m m' \<Longrightarrow>
   list_all2 (rel_prod (=) downgraded) ms (AList.update k m' ms')"
  by (induction ms ms' rule: list_all2_induct) auto

lemma covered_lookup:
  assumes "covered groups ms decs" "(i, d) \<in> set decs" "is_personal d"
  obtains g m where "group_of groups i = Some g" "map_of ms (eg_identity_key g) = Some m"
proof -
  from assms have "\<exists>g \<in> set groups. i \<in> fst ` set (eg_decisions g)" by (auto simp: covered_def)
  then obtain g where g: "group_of groups i = Some g" unfolding group_of_def
    by (metis find_SomeI list.set_map)
  then have "g \<in> set groups" by (auto simp: group_of_def find_Some_iff)
  with assms(1) have "eg_identity_key g \<in> fst ` set ms"
    by (metis covered_def image_eqI list.set_map)
  then obtain m where "map_of ms (eg_identity_key g) = Some m"
    by (metis map_of_eq_None_iff not_None_eq)
  with g that show thesis by blast
qed

lemma transform_decision_step:
  assumes "transformed U A mode groups ms decs st" "covered groups ms [dec]"
  obtains st' where "transform_decision U A mode groups dec st = Inr st'"
    "transformed U A mode groups ms (decs @ [dec]) st'"
proof -
  obtain i d where dec: "dec = (i, d)" by force
  show thesis
  proof (cases "is_personal d")
    case False
    with assms(1) dec that show thesis by (auto simp: transform_decision_def transformed_def)
  next
    case True
    obtain g m where g: "group_of groups i = Some g" "map_of ms (eg_identity_key g) = Some m"
      using covered_lookup [OF assms(2)] dec True by auto
    from assms(1) have rel: "list_all2 (rel_prod (=) downgraded) ms (ts_mappings st)"
      by (simp add: transformed_def)
    from rel_mappings_lookup [OF rel g(2)] obtain m1 where
      m1: "map_of (ts_mappings st) (eg_identity_key g) = Some m1" "downgraded m m1" by blast
    obtain r m2 where r: "occurrence_replacement U A mode d m1 = (r, m2)" by force
    have m2: "downgraded m m2"
      using occurrence_replacement_downgraded [of m1 U A mode d] r downgraded_trans [OF m1(2)] by simp
    have "span_for U A mode groups ms dec (c_start (d_candidate d), c_end (d_candidate d), r, eg_entity_id g)"
      using g m1(2) r unfolding span_for_def dec by (metis fst_conv snd_conv)
    with assms(1) rel_mappings_update [OF rel g(2) m2] dec True g m1(1) r that show thesis
      by (simp add: transform_decision_def transformed_def detected_def list_all2_appendI)
  qed
qed

lemma covered_Cons: "covered groups ms (dec # decs) \<longleftrightarrow> covered groups ms [dec] \<and> covered groups ms decs"
  by (auto simp: covered_def)

lemma transform_loop_run:
  assumes "transformed U A mode groups ms done st" "covered groups ms decs"
  shows "\<exists>st'. transform_loop U A mode groups decs st = Inr st' \<and>
    transformed U A mode groups ms (done @ decs) st'"
  using assms
proof (induction decs arbitrary: "done" st)
  case (Cons dec decs)
  from Cons.prems(2) have c: "covered groups ms [dec]" "covered groups ms decs"
    by (simp_all only: covered_Cons [of groups ms dec decs])
  obtain st' where st': "transform_decision U A mode groups dec st = Inr st'"
    "transformed U A mode groups ms (done @ [dec]) st'"
    by (rule transform_decision_step [OF Cons.prems(1) c(1)])
  from Cons.IH [OF st'(2) c(2)] st'(1) show ?case by simp
qed simp

section \<open>The mappings of the groups\<close>

lemma mapping_for_fields [simp]:
  "em_token (mapping_for U g drawn) = token_for (eg_entity_id g)"
  "em_entity_id (mapping_for U g drawn) = eg_entity_id g"
  "em_type (mapping_for U g drawn) = eg_type g"
  "em_original (mapping_for U g drawn) = c_value (eg_first g)"
  "mm_synthetic_fallback (em_metadata (mapping_for U g drawn)) \<longleftrightarrow> drawn = None"
  "em_synthetic (mapping_for U g drawn) = (case drawn of Some x \<Rightarrow> fst x | None \<Rightarrow> token_for (eg_entity_id g))"
  by (simp_all add: mapping_for_def Let_def split: option.splits prod.splits)

lemma run_map [simp]: "map_option (map_sum id f) z = Some (Inr y) \<longleftrightarrow> (\<exists>x. z = Some (Inr x) \<and> y = f x)"
  by (auto simp: map_sum_eq_Inr)

lemma surrogate_loop_ok:
  "surrogate_loop draw ok attempts = Some (Inr (Some x)) \<Longrightarrow>
   ok x \<and> (\<exists>a \<in> set attempts. draw a = Some (Inr x))"
  by (induction attempts) (auto split: option.splits sum.splits if_splits)

lemma build_mapping_run:
  assumes "build_mapping U A H g session used text = Some (Inr (m, used'))"
  obtains drawn where "m = mapping_for U g drawn" "used' = insert (em_synthetic m) used"
    "\<forall>x. drawn = Some x \<longrightarrow> acceptable_surrogate U A used text x"
proof -
  from assms obtain drawn where d: "surrogate_loop (draw_surrogate U A H session g)
      (acceptable_surrogate U A used text) [0..<MAX_COLLISION_RETRIES] = Some (Inr drawn)"
    "m = mapping_for U g drawn" "used' = insert (em_synthetic m) used"
    unfolding build_mapping_def Let_def run_map by auto
  moreover have "drawn = Some x \<longrightarrow> acceptable_surrogate U A used text x" for x
    using d(1) by (auto dest: surrogate_loop_ok)
  ultimately show thesis using that by blast
qed

text \<open>
  What the mappings of a list of groups have: the token of their group, and a synthetic value that
  is either that token or a surrogate that is new and absent from the source text.
\<close>

definition mapping_ok :: "ucd \<Rightarrow> analyzer \<Rightarrow> str \<Rightarrow> entity_group \<Rightarrow> str \<times> entity_mapping \<Rightarrow> bool" where
  "mapping_ok U A text g km \<longleftrightarrow> (\<exists>drawn. km = (eg_identity_key g, mapping_for U g drawn) \<and>
     (\<forall>x. drawn = Some x \<longrightarrow> acceptable_surrogate U A {} text x))"

definition surrogate_of :: "entity_mapping \<Rightarrow> str list" where
  "surrogate_of m = (if mm_synthetic_fallback (em_metadata m) then [] else [em_synthetic m])"

definition surrogates :: "entity_mapping list \<Rightarrow> str list" where
  "surrogates ms = concat (map surrogate_of ms)"

lemma surrogates_simps [simp]: "surrogates [] = []" "surrogates (m # ms) = surrogate_of m @ surrogates ms"
  by (simp_all add: surrogates_def)

lemma build_mappings_run:
  "build_mappings U A H session text used groups = Some (Inr ms) \<Longrightarrow>
   list_all2 (mapping_ok U A text) groups ms \<and> distinct (surrogates (map snd ms)) \<and>
   set (surrogates (map snd ms)) \<inter> used = {}"
proof (induction groups arbitrary: used ms)
  case (Cons g groups)
  from Cons.prems obtain m used' ms' where m: "build_mapping U A H g session used text = Some (Inr (m, used'))"
    "build_mappings U A H session text used' groups = Some (Inr ms')" "ms = (eg_identity_key g, m) # ms'"
    by (auto simp: map_sum_eq_Inr split: option.splits sum.splits)
  obtain drawn where d: "m = mapping_for U g drawn" "used' = insert (em_synthetic m) used"
    "\<forall>x. drawn = Some x \<longrightarrow> acceptable_surrogate U A used text x"
    by (rule build_mapping_run [OF m(1)])
  note IH = Cons.IH [OF m(2)]
  have "mapping_ok U A text g (eg_identity_key g, m)"
    using d(1,3) by (auto simp: mapping_ok_def acceptable_surrogate_def)
  moreover have "set (surrogate_of m) \<subseteq> {em_synthetic m}" "set (surrogate_of m) \<inter> used = {}"
    using d(1,3) by (auto simp: surrogate_of_def acceptable_surrogate_def split: option.splits)
  moreover have "distinct (surrogate_of m)" by (simp add: surrogate_of_def)
  ultimately show ?case using IH d(2) m(3) by auto
qed simp

lemma mappings_keys: "list_all2 (mapping_ok U A text) groups ms \<Longrightarrow> map fst ms = map eg_identity_key groups"
  by (induction groups ms rule: list_all2_induct) (auto simp: mapping_ok_def)

lemma mappings_tokens:
  "list_all2 (mapping_ok U A text) groups ms \<Longrightarrow>
   map (em_token \<circ> snd) ms = map (\<lambda>g. token_for (eg_entity_id g)) groups"
  by (induction groups ms rule: list_all2_induct) (auto simp: mapping_ok_def)

lemma rel_mappings_tokens:
  "list_all2 (rel_prod (=) downgraded) ms ms' \<Longrightarrow> map (em_token \<circ> snd) ms' = map (em_token \<circ> snd) ms"
  by (induction ms ms' rule: list_all2_induct) (auto dest!: downgraded_fields)

lemma downgraded_surrogates: "downgraded m m' \<Longrightarrow> surrogate_of m' = surrogate_of m \<or> surrogate_of m' = []"
  by (auto simp: downgraded_def surrogate_of_def)

lemma rel_mappings_surrogates:
  "list_all2 (rel_prod (=) downgraded) ms ms' \<Longrightarrow> distinct (surrogates (map snd ms)) \<Longrightarrow>
   distinct (surrogates (map snd ms')) \<and> set (surrogates (map snd ms')) \<subseteq> set (surrogates (map snd ms))"
proof (induction ms ms' rule: list_all2_induct)
  case (Cons x xs y ys)
  then have "surrogate_of (snd y) = surrogate_of (snd x) \<or> surrogate_of (snd y) = []"
    by (cases x; cases y) (auto dest: downgraded_surrogates)
  with Cons.IH Cons.prems show ?case by auto
qed simp

section \<open>The whole transform\<close>

lemma covered_groups:
  assumes "group_personal_decisions U ds = (groups, ds')" "list_all2 (mapping_ok U A text) groups ms"
  shows "covered groups ms (enumerate 0 ds')"
proof -
  obtain key counters where "groups_ok key (groups, counters)"
    and part: "mset (concat (map eg_decisions groups)) = mset (personal_decisions ds')"
    by (rule group_personal_decisions_ok [OF assms(1)])
  have "\<exists>g \<in> set groups. i \<in> fst ` set (eg_decisions g)"
    if "(i, d) \<in> set (personal_of (enumerate 0 ds'))" for i d
  proof -
    from that have "(i, d) \<in> set (concat (map eg_decisions groups))"
      using part by (metis personal_decisions_def set_mset_mset)
    then show ?thesis by force
  qed
  with mappings_keys [OF assms(2)] show ?thesis by (auto simp: covered_def)
qed

lemma build_transform_loop:
  assumes "group_personal_decisions U ds = (groups, ds')"
    "build_mappings U A H session text {} groups = Some (Inr ms)"
  obtains st where "build_transform_result U A H text ds mode session = Some (Inr (finish_transform text mode st))"
    "transformed U A mode groups ms (enumerate 0 ds') st"
proof -
  define st0 where "st0 = \<lparr>ts_mappings = ms, ts_spans = [], ts_detected = [], ts_kept = []\<rparr>"
  have "list_all2 (rel_prod (=) downgraded) ms ms"
    by (rule list_all2_refl) (simp add: prod.rel_refl downgraded_def)
  then have "transformed U A mode groups ms [] st0" by (simp add: transformed_def st0_def)
  from transform_loop_run [OF this covered_groups [OF assms(1)]] build_mappings_run [OF assms(2)]
  obtain st where "transform_loop U A mode groups (enumerate 0 ds') st0 = Inr st"
    "transformed U A mode groups ms (enumerate 0 ds') st" by auto
  with assms that show thesis by (simp add: build_transform_result_def st0_def)
qed

lemma build_transform_run:
  assumes "build_transform_result U A H text ds mode session = Some (Inr tr)"
  obtains groups ds' ms st where "group_personal_decisions U ds = (groups, ds')"
    "build_mappings U A H session text {} groups = Some (Inr ms)"
    "transformed U A mode groups ms (enumerate 0 ds') st" "tr = finish_transform text mode st"
proof -
  obtain groups ds' where g: "group_personal_decisions U ds = (groups, ds')" by force
  with assms obtain ms where ms: "build_mappings U A H session text {} groups = Some (Inr ms)"
    by (auto simp: build_transform_result_def split: option.splits sum.splits)
  obtain st where st: "build_transform_result U A H text ds mode session = Some (Inr (finish_transform text mode st))"
    "transformed U A mode groups ms (enumerate 0 ds') st"
    by (rule build_transform_loop [OF g ms])
  with assms have "tr = finish_transform text mode st" by simp
  with g ms st(2) that show thesis by blast
qed

text \<open>Grouping and replacement raise nothing of their own: the only exceptions are the generator's.\<close>

lemma build_transform_error:
  assumes "build_transform_result U A H text ds mode session = Some (Inl e)"
    "group_personal_decisions U ds = (groups, ds')"
  shows "build_mappings U A H session text {} groups = Some (Inl e)"
proof (cases "build_mappings U A H session text {} groups")
  case (Some r)
  show ?thesis
  proof (cases r)
    case (Inr ms)
    obtain st where "build_transform_result U A H text ds mode session = Some (Inr (finish_transform text mode st))"
      by (rule build_transform_loop [OF assms(2)]) (use Some Inr in simp)
    with assms(1) show ?thesis by simp
  qed (use assms Some in \<open>simp add: build_transform_result_def\<close>)
qed (use assms in \<open>simp add: build_transform_result_def\<close>)

section \<open>What is replaced\<close>

abbreviation decision_span :: "privacy_decision \<Rightarrow> span" where
  "decision_span d \<equiv> c_span (d_candidate d)"

lemma span_for_span: "span_for U A mode groups ms dec sp \<Longrightarrow> (rs_start sp, rs_end sp) = decision_span (snd dec)"
  by (auto simp: span_for_def c_span_def)

lemma personal_spans_core:
  assumes "map decision_core ds' = map decision_core ds"
  shows "map decision_span (filter is_personal ds') = map decision_span (filter is_personal ds)"
proof -
  have "map decision_span (filter is_personal xs) =
      map (\<lambda>(p, t, s, e, v). (s, e)) (filter fst (map decision_core xs))" for xs
    by (induction xs) (auto simp: decision_core_def c_span_def)
  with assms show ?thesis by simp
qed

lemma personal_of_enumerate: "map snd (personal_of (enumerate n ds)) = filter is_personal ds"
  by (induction ds arbitrary: n) auto

lemma transformed_spans:
  assumes "transformed U A mode groups ms (enumerate 0 ds') st" "map decision_core ds' = map decision_core ds"
  shows "map (\<lambda>s. (rs_start s, rs_end s)) (ts_spans st) = map decision_span (filter is_personal ds)"
proof -
  have "list_all2 (span_for U A mode groups ms) (personal_of (enumerate 0 ds')) (ts_spans st)"
    using assms(1) by (simp add: transformed_def)
  then have "map (\<lambda>s. (rs_start s, rs_end s)) (ts_spans st) = map (decision_span \<circ> snd) (personal_of (enumerate 0 ds'))"
    by (induction rule: list_all2_induct) (auto dest: span_for_span)
  also have "\<dots> = map decision_span (filter is_personal ds')"
    using personal_of_enumerate [of 0 ds'] by (metis map_map)
  finally show ?thesis using personal_spans_core [OF assms(2)] by simp
qed

text \<open>A run over decisions in text order: its spans can be spliced as they are.\<close>

lemma transform_spliced:
  assumes "build_transform_result U A H text ds mode session = Some (Inr tr)"
    "span_chain (length text) 0 (map decision_span ds)"
  obtains groups ds' ms st where "group_personal_decisions U ds = (groups, ds')"
    "build_mappings U A H session text {} groups = Some (Inr ms)"
    "transformed U A mode groups ms (enumerate 0 ds') st"
    "tr_mappings tr = map snd (ts_mappings st)" "tr_detected_entities tr = ts_detected st"
    "map (\<lambda>s. (rs_start s, rs_end s)) (ts_spans st) = map decision_span (filter is_personal ds)"
    "spans_ok (length text) 0 (ts_spans st)" "splice_spans text (ts_spans st) = (tr_text tr, tr_occurrences tr)"
    "tr_mode tr = mode"
proof -
  obtain groups ds' ms st where r: "group_personal_decisions U ds = (groups, ds')"
    "build_mappings U A H session text {} groups = Some (Inr ms)"
    "transformed U A mode groups ms (enumerate 0 ds') st" "tr = finish_transform text mode st"
    by (rule build_transform_run [OF assms(1)])
  obtain key counters where "groups_ok key (groups, counters)"
    and core: "map decision_core ds' = map decision_core ds"
    by (rule group_personal_decisions_ok [OF r(1)])
  note sp = transformed_spans [OF r(3) core]
  have chain: "span_chain (length text) 0 (map (\<lambda>s. (rs_start s, rs_end s)) (ts_spans st))"
    unfolding sp by (rule span_chain_filter [OF assms(2)])
  have "sort_key rs_start (ts_spans st) = ts_spans st"
    by (rule sort_key_id_if_sorted) (use span_chain_sorted [OF chain] in \<open>simp add: comp_def\<close>)
  then have "splice_spans text (ts_spans st) = (tr_text tr, tr_occurrences tr)" "tr_mode tr = mode"
    "tr_mappings tr = map snd (ts_mappings st)" "tr_detected_entities tr = ts_detected st"
    by (simp_all add: r(4) finish_transform_def split: prod.splits)
  with r sp chain that show thesis by (simp add: spans_ok_span_chain)
qed

lemma transform_is_faithful:
  assumes "build_transform_result U A H text ds mode session = Some (Inr tr)"
    "span_chain (length text) 0 (map decision_span ds)"
  shows "faithful text tr"
proof -
  obtain groups ds' ms st where r: "group_personal_decisions U ds = (groups, ds')"
    "build_mappings U A H session text {} groups = Some (Inr ms)"
    "transformed U A mode groups ms (enumerate 0 ds') st" "tr_mappings tr = map snd (ts_mappings st)"
    "spans_ok (length text) 0 (ts_spans st)" "splice_spans text (ts_spans st) = (tr_text tr, tr_occurrences tr)"
    by (rule transform_spliced [OF assms])
  have "tr_occurrences tr = []" if "tr_mappings tr = []"
  proof -
    from that r(3,4) have "ms = []" by (auto simp: transformed_def)
    with build_mappings_run [OF r(2)] have "groups = []" by simp
    with r(3) have "ts_spans st = []"
      by (cases "ts_spans st") (auto simp: transformed_def span_for_def group_of_def list_all2_Cons2)
    with r(6) show ?thesis by (auto simp: splice_spans_def)
  qed
  with r(5,6) show ?thesis by (auto simp: faithful_def)
qed

text \<open>Each occurrence as the loop made it: the decision, the group and the mapping behind it.\<close>

lemma loop_occs_all2:
  "list_all2 (\<lambda>s occ. o_masked occ = fst (snd (snd s)) \<and> o_entity_id occ = snd (snd (snd s)) \<and>
     o_original_start occ = int (rs_start s) \<and> o_original_end occ = int (rs_end s) \<and>
     o_original occ = slice text (rs_start s) (rs_end s)) spans (loop_occs text cursor offset spans)"
proof (induction spans arbitrary: cursor offset)
  case (Cons s spans)
  then show ?case by (cases s) simp
qed simp

lemma token_replacement [simp]: "occurrence_replacement U A TOKEN d m = (em_token m, m)"
  by (simp add: occurrence_replacement_def)

lemma synthetic_replacement_differs:
  "fst (occurrence_replacement U A SYNTHETIC d m) \<noteq> c_value (d_candidate d) \<or>
   fst (occurrence_replacement U A SYNTHETIC d m) = em_token m"
  by (auto simp: occurrence_replacement_def split: sum.splits)

section \<open>Masking returns\<close>

lemma name_pools_not_Nil [simp]:
  "MALE_FIRST \<noteq> []" "MALE_LAST \<noteq> []" "MALE_PATR \<noteq> []" "FEMALE_FIRST \<noteq> []" "FEMALE_LAST \<noteq> []" "FEMALE_PATR \<noteq> []"
  by (simp_all add: pool_defs)

lemma total_person: "fair_stream R \<Longrightarrow> total_gen (person U A R nominal gender)"
  by (auto simp: person_def person_draw_def Let_def split: sum.splits intro!: total_gmap total_retry total_gbind total_pool)

lemma draw_surrogate_returns:
  assumes "\<And>seed. fair_stream (new_stream H seed)"
  shows "draw_surrogate U A H session g attempt \<noteq> None"
proof -
  let ?R = "new_stream H (entity_seed H session (eg_identity_key g) + attempt)"
  have "total_gen (full_name_in_case U A ?R nominal gender c)" for nominal gender c
    unfolding full_name_in_case_def by (intro total_gmap total_person assms)
  moreover have "total_gen (generic U ?R t v)" for t v by (intro total_generic assms)
  ultimately have "gmap f (full_name_in_case U A ?R nominal gender c) 0 \<noteq> None" "gmap h (generic U ?R t v) 0 \<noteq> None"
    for f :: "str \<times> name_identity \<Rightarrow> str \<times> name_identity option" and h :: "str \<Rightarrow> str \<times> name_identity option"
      and nominal gender c t v
    by (metis total_gmap total_gen_def)+
  then show ?thesis unfolding draw_surrogate_def Let_def by (simp split: if_splits)
qed

lemma surrogate_loop_returns: "(\<And>a. draw a \<noteq> None) \<Longrightarrow> surrogate_loop draw ok attempts \<noteq> None"
  by (induction attempts) (auto split: option.splits sum.splits)

lemma build_mappings_returns:
  assumes "\<And>seed. fair_stream (new_stream H seed)"
  shows "build_mappings U A H session text used groups \<noteq> None"
proof (induction groups arbitrary: used)
  case (Cons g groups)
  have "build_mapping U A H g session used text \<noteq> None"
    unfolding build_mapping_def using surrogate_loop_returns [OF draw_surrogate_returns [OF assms]] by auto
  with Cons show ?case by (auto split: option.splits sum.splits)
qed simp

lemma build_transform_returns:
  assumes "\<And>seed. fair_stream (new_stream H seed)"
  shows "build_transform_result U A H text ds mode session \<noteq> None"
proof -
  obtain groups ds' where g: "group_personal_decisions U ds = (groups, ds')" by force
  show ?thesis using build_mappings_returns [OF assms, of U A session "text" "{}" groups]
    by (auto simp: build_transform_result_def g split: sum.splits)
qed

section \<open>Tokens in a reworded text\<close>

text \<open>The masked text of spans whose replacements are tokens, as running text and tokens.\<close>

fun token_segments :: "str \<Rightarrow> nat \<Rightarrow> repl_span list \<Rightarrow> segment list" where
  "token_segments text cursor [] = [Lit (drop cursor text)]"
| "token_segments text cursor ((start, end, replacement, entity_id) # spans) =
     Lit (slice text cursor start) # Tok replacement # token_segments text end spans"

lemma token_segments_text: "concat (map seg_text (token_segments text cursor spans)) = loop_text text cursor offset spans"
proof (induction spans arbitrary: cursor offset)
  case (Cons s spans)
  obtain a b r e where "s = (a, b, r, e)" by (cases s) auto
  then show ?case using Cons.IH [of b "offset + (int (length r) - (int b - int a))"] by simp
qed simp

lemma token_segments_ok:
  "60 \<notin> set text \<Longrightarrow> \<forall>s \<in> set spans. token_shape (fst (snd (snd s))) \<Longrightarrow>
   \<forall>s \<in> set (token_segments text cursor spans). seg_ok s"
proof (induction spans arbitrary: cursor)
  case (Cons s spans)
  obtain a b r e where "s = (a, b, r, e)" by (cases s) auto
  with Cons show ?case by (auto simp: slice_def dest: in_set_takeD in_set_dropD)
qed (auto dest: in_set_dropD)

lemma token_segments_restored:
  assumes "spans_ok (length text) cursor spans"
    and "\<forall>s \<in> set spans. map_of d (fst (snd (snd s))) = Some (slice text (rs_start s) (rs_end s))"
  shows "concat (map (seg_restored d) (token_segments text cursor spans)) = drop cursor text"
  using assms
proof (induction spans arbitrary: cursor)
  case (Cons s spans)
  obtain a b r e where s: "s = (a, b, r, e)" by (cases s) auto
  with Cons have "concat (map (seg_restored d) (token_segments text b spans)) = drop b text" "cursor \<le> a" "a \<le> b"
    by auto
  with Cons.prems(2) s show ?case by (simp add: slice_append_drop)
qed simp

lemma mappings_surrogates:
  "list_all2 (mapping_ok U A text) groups ms \<Longrightarrow> \<forall>s \<in> set (surrogates (map snd ms)). s \<noteq> [] \<and> \<not> str_in s text"
  by (induction groups ms rule: list_all2_induct)
    (auto simp: surrogate_of_def mapping_ok_def acceptable_surrogate_def split: if_splits option.splits)

section \<open>The mapping behind an occurrence\<close>

lemma core_values:
  assumes "map decision_core ds' = map decision_core ds"
    "\<forall>d \<in> set ds. c_value (d_candidate d) = slice text (c_start (d_candidate d)) (c_end (d_candidate d))"
    "(i, d) \<in> set (enumerate 0 ds')"
  shows "c_value (d_candidate d) = slice text (c_start (d_candidate d)) (c_end (d_candidate d))"
proof -
  have i: "i < length ds'" "d = ds' ! i" using assms(3) by (auto simp: in_set_enumerate_eq)
  then have "decision_core d = decision_core (ds ! i)" "i < length ds"
    using assms(1) by (metis length_map nth_map)+
  with assms(2) show ?thesis by (auto simp: decision_core_def)
qed

lemma list_all2_in2: "list_all2 P xs ys \<Longrightarrow> y \<in> set ys \<Longrightarrow> \<exists>x \<in> set xs. P x y"
  by (induction xs ys rule: list_all2_induct) auto

lemma loop_occs_span:
  assumes "occ \<in> set (loop_occs text cursor offset spans)"
  obtains sp where "sp \<in> set spans" "o_masked occ = fst (snd (snd sp))" "o_entity_id occ = snd (snd (snd sp))"
    "o_original occ = slice text (rs_start sp) (rs_end sp)"
  using list_all2_in2 [OF loop_occs_all2 assms] that by blast

lemma transformed_span:
  assumes "transformed U A mode groups ms decs st" "sp \<in> set (ts_spans st)"
  obtains i d where "(i, d) \<in> set decs" "is_personal d" "span_for U A mode groups ms (i, d) sp"
proof -
  from assms(1) have all2: "list_all2 (span_for U A mode groups ms) (personal_of decs) (ts_spans st)"
    by (simp add: transformed_def)
  then obtain dec where dec: "dec \<in> set (personal_of decs)" "span_for U A mode groups ms dec sp"
    using list_all2_in2 [OF all2 assms(2)] by blast
  then show thesis using that [of "fst dec" "snd dec"] by auto
qed

lemma mapping_of_key:
  "list_all2 (mapping_ok U A text) groups ms \<Longrightarrow> distinct (map eg_identity_key groups) \<Longrightarrow> g \<in> set groups \<Longrightarrow>
   map_of ms (eg_identity_key g) = Some m \<Longrightarrow> \<exists>drawn. m = mapping_for U g drawn"
proof (induction groups ms rule: list_all2_induct)
  case (Cons x xs y ys)
  show ?case
  proof (cases "g = x")
    case False
    with Cons.prems(2) have g: "g \<in> set xs" by simp
    with Cons.prems(1) have "eg_identity_key g \<noteq> eg_identity_key x" by (auto simp: image_iff)
    with g Cons show ?thesis by (auto simp: mapping_ok_def)
  qed (use Cons in \<open>auto simp: mapping_ok_def\<close>)
qed simp

lemma group_of_member: "group_of groups i = Some g \<Longrightarrow> g \<in> set groups \<and> i \<in> fst ` set (eg_decisions g)"
  by (auto simp: group_of_def find_Some_iff)

lemma span_for_mapping:
  assumes "span_for U A mode groups ms (i, d) sp" "group_personal_decisions U ds = (groups, ds')"
    "build_mappings U A H session text {} groups = Some (Inr ms)" "transformed U A mode groups ms decs st"
  obtains g m m' m'' where "group_of groups i = Some g" "snd (snd (snd sp)) = eg_entity_id g"
    "downgraded m m'" "fst (snd (snd sp)) = fst (occurrence_replacement U A mode d m')"
    "m'' \<in> snd ` set (ts_mappings st)" "downgraded m m''" "\<exists>drawn. m = mapping_for U g drawn"
proof -
  from assms(1) obtain g m m' where g: "group_of groups i = Some g" "map_of ms (eg_identity_key g) = Some m" "downgraded m m'"
    "fst (snd (snd sp)) = fst (occurrence_replacement U A mode d m')" "snd (snd (snd sp)) = eg_entity_id g"
    by (auto simp: span_for_def)
  obtain key counters where "groups_ok key (groups, counters)" by (rule group_personal_decisions_ok [OF assms(2)])
  then have "distinct (map eg_identity_key groups)" by (simp add: groups_ok_def)
  then have "\<exists>drawn. m = mapping_for U g drawn"
    using mapping_of_key [of U A "text" groups ms g m] build_mappings_run [OF assms(3)] group_of_member [OF g(1)] g(2) by blast
  moreover from assms(4) have "list_all2 (rel_prod (=) downgraded) ms (ts_mappings st)" by (simp add: transformed_def)
  from rel_mappings_lookup [OF this g(2)] obtain m'' where "map_of (ts_mappings st) (eg_identity_key g) = Some m''" "downgraded m m''"
    by blast
  moreover from this(1) have "m'' \<in> snd ` set (ts_mappings st)" by (force dest: map_of_SomeD)
  ultimately show thesis using that g by blast
qed

lemma group_of_decision:
  assumes "group_personal_decisions U ds = (groups, ds')" "group_of groups i = Some g"
    "(i, d) \<in> set (enumerate 0 ds')" "is_personal d"
  shows "(i, d) \<in> set (eg_decisions g)"
proof -
  obtain key counters where part: "mset (concat (map eg_decisions groups)) = mset (personal_decisions ds')"
    by (rule group_personal_decisions_ok [OF assms(1)])
  obtain d' where d': "(i, d') \<in> set (eg_decisions g)" "g \<in> set groups"
    using group_of_member [OF assms(2)] by auto
  then have "(i, d') \<in> set (concat (map eg_decisions groups))" by auto
  then have "(i, d') \<in> set (personal_decisions ds')" using part by (metis set_mset_mset)
  with d'(1) assms(3) show ?thesis by (auto simp: personal_decisions_set in_set_enumerate_eq)
qed

lemma mappings_token_facts:
  assumes "group_personal_decisions U ds = (groups, ds')"
    "build_mappings U A H session text {} groups = Some (Inr ms)" "transformed U A mode groups ms decs st"
  shows "\<forall>m \<in> set (map snd (ts_mappings st)). token_shape (em_token m)"
    "distinct (map em_token (map snd (ts_mappings st)))"
proof -
  obtain key counters where g: "groups_ok key (groups, counters)"
    by (rule group_personal_decisions_ok [OF assms(1)])
  from assms(3) have rel: "list_all2 (rel_prod (=) downgraded) ms (ts_mappings st)" by (simp add: transformed_def)
  have tok: "map em_token (map snd (ts_mappings st)) = map (\<lambda>g. token_for (eg_entity_id g)) groups"
    using rel_mappings_tokens [OF rel] mappings_tokens [of U A "text" groups ms] build_mappings_run [OF assms(2)] by simp
  show "distinct (map em_token (map snd (ts_mappings st)))"
    unfolding tok by (rule entity_tokens_distinct [OF g])
  have "\<forall>t \<in> set (map em_token (map snd (ts_mappings st))). token_shape t"
    unfolding tok using entity_tokens_shape [OF g] by auto
  then show "\<forall>m \<in> set (map snd (ts_mappings st)). token_shape (em_token m)" by simp
qed

lemma token_dict_member:
  assumes "\<forall>m \<in> set mappings. token_shape (em_token m)" "distinct (map em_token mappings)" "m \<in> set mappings"
  shows "map_of (token_dict mappings) (em_token m) = Some (em_original m)"
proof (rule token_dict_lookup [OF assms(3)])
  show "em_token m \<noteq> []" using assms(1,3) by (auto simp: token_shape_def)
  show "\<forall>m' \<in> set mappings. em_token m' = em_token m \<longrightarrow> em_original m' = em_original m"
    using assms(2,3) by (auto simp: distinct_map inj_on_def)
qed

section \<open>A document to run\<close>

text \<open>
  The result of masking describes itself: for decisions about ordered spans that do not overlap,
  the occurrences are exactly the spans of the personal decisions in order, re-masking the source with
  them gives the masked text, and undoing them gives the source text, in every mode.
\<close>

lemma transform_occurrences:
  assumes "build_transform_result U A H text decisions mode session_seed = Some (Inr tr)"
    "span_chain (length text) 0 (map (\<lambda>d. c_span (d_candidate d)) decisions)"
  shows "map (\<lambda>occ. (nat (o_original_start occ), nat (o_original_end occ))) (tr_occurrences tr) =
      map (\<lambda>d. c_span (d_candidate d)) (filter is_personal decisions) \<and>
    apply_mask text (tr_occurrences tr) = tr_text tr \<and> apply_demask (tr_text tr) (tr_occurrences tr) = text \<and>
    map de_entity_id (tr_detected_entities tr) = map o_entity_id (tr_occurrences tr)"
proof -
  obtain groups ds' ms st where r: "transformed U A mode groups ms (enumerate 0 ds') st"
    "tr_detected_entities tr = ts_detected st"
    "map (\<lambda>s. (rs_start s, rs_end s)) (ts_spans st) = map decision_span (filter is_personal decisions)"
    "splice_spans text (ts_spans st) = (tr_text tr, tr_occurrences tr)"
    by (rule transform_spliced [OF assms])
  have occs: "tr_occurrences tr = loop_occs text 0 0 (ts_spans st)"
    using r(4) splice_spans_occs [of "text" "ts_spans st"] by simp
  have "map (\<lambda>occ. (nat (o_original_start occ), nat (o_original_end occ))) (tr_occurrences tr) =
      map (\<lambda>s. (rs_start s, rs_end s)) (ts_spans st)"
    "map o_entity_id (tr_occurrences tr) = map (snd \<circ> snd \<circ> snd) (ts_spans st)"
    using loop_occs_all2 [of "text" "ts_spans st" 0 0] unfolding occs
    by (auto simp: list_all2_conv_all_nth intro!: nth_equalityI)
  moreover have "map de_entity_id (ts_detected st) = map (snd \<circ> snd \<circ> snd) (ts_spans st)"
    using r(1) by (simp add: transformed_def)
  ultimately show ?thesis
    using r(2,3) transform_is_faithful [OF assms] by (auto simp: faithful_mask faithful_demask)
qed

text \<open>
  TOKEN masking can be undone by value: when the source has no opening angle bracket and every
  mention of an entity reads like its first mention, demasking the masked text from the mappings
  alone, without the recorded positions, gives back the source text.
\<close>

lemma token_demasks:
  assumes "build_transform_result U A H text decisions TOKEN session_seed = Some (Inr tr)"
    "span_chain (length text) 0 (map (\<lambda>d. c_span (d_candidate d)) decisions)"
    "\<forall>d \<in> set decisions. c_value (d_candidate d) = slice text (c_start (d_candidate d)) (c_end (d_candidate d))"
    "60 \<notin> set text"
    "\<forall>g \<in> set (fst (group_personal_decisions U decisions)). \<forall>d \<in> set (map snd (eg_decisions g)).
       c_value (d_candidate d) = c_value (eg_first g)"
  shows "demask U' A' (tr_text tr) (tr_mappings tr) TOKEN = text"
proof -
  obtain groups ds' ms st where r: "group_personal_decisions U decisions = (groups, ds')"
    "build_mappings U A H session_seed text {} groups = Some (Inr ms)"
    "transformed U A TOKEN groups ms (enumerate 0 ds') st"
    "tr_mappings tr = map snd (ts_mappings st)" "spans_ok (length text) 0 (ts_spans st)"
    "splice_spans text (ts_spans st) = (tr_text tr, tr_occurrences tr)"
    by (rule transform_spliced [OF assms(1,2)])
  obtain key counters where core: "map decision_core ds' = map decision_core decisions"
    by (rule group_personal_decisions_ok [OF r(1)])
  note tok = mappings_token_facts [OF r(1,2,3)]
  have look: "map_of (token_dict (tr_mappings tr)) (fst (snd (snd sp))) = Some (slice text (rs_start sp) (rs_end sp))"
    if sp: "sp \<in> set (ts_spans st)" for sp
  proof -
    obtain i d where d: "(i, d) \<in> set (enumerate 0 ds')" "is_personal d" "span_for U A TOKEN groups ms (i, d) sp"
      by (rule transformed_span [OF r(3) sp])
    obtain g m m' m'' where m: "group_of groups i = Some g" "downgraded m m'" "fst (snd (snd sp)) = fst (occurrence_replacement U A TOKEN d m')"
      "m'' \<in> snd ` set (ts_mappings st)" "downgraded m m''" "\<exists>drawn. m = mapping_for U g drawn"
      by (rule span_for_mapping [OF d(3) r(1,2,3)])
    have "(i, d) \<in> set (eg_decisions g)" by (rule group_of_decision [OF r(1) m(1) d(1,2)])
    with assms(5) r(1) group_of_member [OF m(1)] have "c_value (d_candidate d) = c_value (eg_first g)" by force
    then have "em_original m'' = slice text (rs_start sp) (rs_end sp)" "em_token m'' = fst (snd (snd sp))"
      using core_values [OF core assms(3) d(1)] span_for_span [OF d(3)] m downgraded_fields [OF m(2)] downgraded_fields [OF m(5)]
      by (auto simp: c_span_def)
    then show ?thesis using token_dict_member [OF tok, of m''] m(4) r(4) by simp
  qed
  have shapes: "\<forall>sp \<in> set (ts_spans st). token_shape (fst (snd (snd sp)))"
  proof
    fix sp assume "sp \<in> set (ts_spans st)"
    from map_of_SomeD [OF look [OF this]]
    have "fst (snd (snd sp)) \<in> fst ` set (token_dict (tr_mappings tr))"
      by (metis fst_conv image_eqI)
    then show "token_shape (fst (snd (snd sp)))" using tok(1) r(4) by (auto simp: token_dict_keys(2))
  qed  have "tr_text tr = concat (map seg_text (token_segments text 0 (ts_spans st)))"
    using r(6) splice_spans_text [of "text" "ts_spans st"] token_segments_text [of "text" 0 "ts_spans st" 0] by simp
  moreover have "demask_token (concat (map seg_text (token_segments text 0 (ts_spans st)))) (tr_mappings tr) =
      concat (map (seg_restored (token_dict (tr_mappings tr))) (token_segments text 0 (ts_spans st)))"
    using demask_token_segments [OF _ token_segments_ok [OF assms(4) shapes]] tok(1) r(4) by simp
  moreover have "concat (map (seg_restored (token_dict (tr_mappings tr))) (token_segments text 0 (ts_spans st))) = text"
    using token_segments_restored [OF r(5), of "token_dict (tr_mappings tr)"] look by simp
  ultimately show ?thesis by simp
qed

text \<open>One citizenship in a short text, as the pipeline decides it, masked with a constant digest.\<close>

definition sample_personal :: "pii_type \<Rightarrow> str \<Rightarrow> nat \<Rightarrow> privacy_decision" where
  "sample_personal t v i = \<lparr>d_candidate = \<lparr>c_type = t, c_value = v, c_start = i, c_end = i + length v,
     c_detector = asc ''citizenship'', c_confidence = 85 / 100, c_metadata = no_metadata\<rparr>, d_decision = MASK,
     d_confidence = 85 / 100, d_reasons = [asc ''personal_by_construction'']\<rparr>"

abbreviation sample_rf :: privacy_decision where
  "sample_rf \<equiv> sample_personal CITIZENSHIP (ru ''^Cili'') 13"

definition sample_group :: entity_group where
  "sample_group = \<lparr>eg_entity_id = asc ''CITIZENSHIP_1'', eg_identity_key = asc ''CITIZENSHIP:'' @ ru ''Cili'',
     eg_decisions = [(0, sample_rf)], eg_resolved = None\<rparr>"

definition sample_run :: "masking_mode \<Rightarrow> transform_result result option" where
  "sample_run mode = build_transform_result ucd_ru (\<lambda>_. []) (\<lambda>_. 2) (ru ''^grawdanstvo: ^Cili'') [sample_rf] mode (asc ''p1'')"

lemma sample_groups: "group_personal_decisions ucd_ru [sample_rf] = ([sample_group], [sample_rf])"
  by code_simp

lemma sample_draw:
  "draw_surrogate ucd_ru (\<lambda>_. []) (\<lambda>_. 2) session sample_group 0 = Some (Inr (ru ''^belarusq'', None))"
  by (simp add: draw_surrogate_def sample_group_def sample_personal_def eg_type_def eg_first_def is_name_type_def
      eg_original_nominal_def first_metadata_def no_metadata_def truthy_def citizenship_def choice_def new_stream_def
      Let_def gmap_def gbind_def gret_def)
    (simp add: asc_def COUNTRIES_def constant_stream)

lemma sample_acceptable:
  "acceptable_surrogate ucd_ru (\<lambda>_. []) {} (ru ''^grawdanstvo: ^Cili'') (ru ''^belarusq'', None)"
proof -
  have "\<not> str_in (ru ''^belarusq'') (ru ''^grawdanstvo: ^Cili'')" by code_simp
  then show ?thesis by (simp add: acceptable_surrogate_def alias_shape_collides_def)
qed

lemma sample_mappings:
  "build_mappings ucd_ru (\<lambda>_. []) (\<lambda>_. 2) session (ru ''^grawdanstvo: ^Cili'') {} [sample_group] =
     Some (Inr [(asc ''CITIZENSHIP:'' @ ru ''Cili'', mapping_for ucd_ru sample_group (Some (ru ''^belarusq'', None)))])"
proof -
  have "[0..<MAX_COLLISION_RETRIES] = 0 # [1..<MAX_COLLISION_RETRIES]"
    by (simp add: MAX_COLLISION_RETRIES_def upt_conv_Cons)
  then have "build_mapping ucd_ru (\<lambda>_. []) (\<lambda>_. 2) sample_group session {} (ru ''^grawdanstvo: ^Cili'') =
      Some (Inr (mapping_for ucd_ru sample_group (Some (ru ''^belarusq'', None)), {ru ''^belarusq''}))"
    using sample_draw sample_acceptable by (simp add: build_mapping_def)
  then show ?thesis by (simp add: sample_group_def)
qed

lemma sample_transform:
  obtains tr where "build_transform_result ucd_ru (\<lambda>_. []) (\<lambda>_. 2) (ru ''^grawdanstvo: ^Cili'') [sample_rf] mode session = Some (Inr tr)"
  using build_transform_loop [OF sample_groups sample_mappings, of mode] by auto

lemma sample_run_returns:
  obtains tr where "sample_run mode = Some (Inr tr)"
  using build_transform_loop [OF sample_groups sample_mappings, of mode] by (auto simp: sample_run_def)

lemma sample_chain: "span_chain (length (ru ''^grawdanstvo: ^Cili'')) 0 (map (\<lambda>d. c_span (d_candidate d)) [sample_rf])"
  by (simp add: sample_personal_def c_span_def asc_def)

lemma sample_value:
  "\<forall>d \<in> set [sample_rf]. c_value (d_candidate d) = slice (ru ''^grawdanstvo: ^Cili'') (c_start (d_candidate d)) (c_end (d_candidate d))"
  by (simp add: sample_personal_def asc_def slice_def)

section \<open>Properties\<close>

text \<open>
  C13. Surrogates are unambiguous: the tokens of a document are distinct and well shaped, and the
  synthetic values that are not replaced by their token are non-empty, pairwise distinct and do not
  occur in the source text, so a surrogate found in a reworded answer stands for one entity.
\<close>

theorem surrogates_unambiguous:
  assumes "build_transform_result U A H text decisions mode session_seed = Some (Inr tr)"
  shows "distinct (map em_token (tr_mappings tr)) \<and> (\<forall>m \<in> set (tr_mappings tr). token_shape (em_token m)) \<and>
    distinct (surrogates (tr_mappings tr)) \<and> (\<forall>s \<in> set (surrogates (tr_mappings tr)). s \<noteq> [] \<and> \<not> str_in s text)"
proof -
  obtain groups ds' ms st where r: "group_personal_decisions U decisions = (groups, ds')"
    "build_mappings U A H session_seed text {} groups = Some (Inr ms)"
    "transformed U A mode groups ms (enumerate 0 ds') st" "tr = finish_transform text mode st"
    by (rule build_transform_run [OF assms])
  from r(3) have rel: "list_all2 (rel_prod (=) downgraded) ms (ts_mappings st)" by (simp add: transformed_def)
  from r(4) have tm: "tr_mappings tr = map snd (ts_mappings st)"
    by (simp add: finish_transform_def split: prod.splits)
  note run = build_mappings_run [OF r(2)]
  from mappings_surrogates [of U A "text" groups ms] run
  have "\<forall>s \<in> set (surrogates (map snd ms)). s \<noteq> [] \<and> \<not> str_in s text" by blast
  with rel_mappings_surrogates [OF rel] run tm
  have "distinct (surrogates (tr_mappings tr)) \<and> (\<forall>s \<in> set (surrogates (tr_mappings tr)). s \<noteq> [] \<and> \<not> str_in s text)"
    by auto
  with mappings_token_facts [OF r(1-3)] tm show ?thesis by simp
qed

lemma surrogates_unambiguous_witness:
  "\<exists>tr. sample_run SYNTHETIC = Some (Inr tr) \<and> distinct (surrogates (tr_mappings tr)) \<and>
     (\<forall>s \<in> set (surrogates (tr_mappings tr)). s \<noteq> [] \<and> \<not> str_in s (ru ''^grawdanstvo: ^Cili''))"
proof -
  obtain tr where tr: "sample_run SYNTHETIC = Some (Inr tr)" by (rule sample_run_returns)
  with surrogates_unambiguous [OF tr [unfolded sample_run_def]] show ?thesis by auto
qed

text \<open>
  C25. Occurrences are replaced: in TOKEN mode every occurrence is replaced by its entity's
  token; in SYNTHETIC mode the replacement of an occurrence differs from what stood there, or is the
  token, whatever the generator drew and even when rendering the name failed.
\<close>

theorem personal_values_replaced:
  assumes "build_transform_result U A H text decisions mode session_seed = Some (Inr tr)"
    "span_chain (length text) 0 (map (\<lambda>d. c_span (d_candidate d)) decisions)"
    "\<forall>d \<in> set decisions. c_value (d_candidate d) = slice text (c_start (d_candidate d)) (c_end (d_candidate d))"
    "occ \<in> set (tr_occurrences tr)"
  shows "(mode = TOKEN \<longrightarrow> (\<exists>m \<in> set (tr_mappings tr). em_entity_id m = o_entity_id occ \<and> o_masked occ = em_token m)) \<and>
    (mode = SYNTHETIC \<longrightarrow> o_masked occ \<noteq> o_original occ \<or>
       (\<exists>m \<in> set (tr_mappings tr). em_entity_id m = o_entity_id occ \<and> o_masked occ = em_token m))"
proof -
  obtain groups ds' ms st where r: "group_personal_decisions U decisions = (groups, ds')"
    "build_mappings U A H session_seed text {} groups = Some (Inr ms)"
    "transformed U A mode groups ms (enumerate 0 ds') st"
    "tr_mappings tr = map snd (ts_mappings st)"
    "splice_spans text (ts_spans st) = (tr_text tr, tr_occurrences tr)"
    by (rule transform_spliced [OF assms(1,2)])
  obtain key counters where "map decision_core ds' = map decision_core decisions"
    by (rule group_personal_decisions_ok [OF r(1)])
  note vals = core_values [OF this assms(3)]
  from r(5) assms(4) have "occ \<in> set (loop_occs text 0 0 (ts_spans st))"
    using splice_spans_occs [of "text" "ts_spans st"] by simp
  then obtain sp where sp: "sp \<in> set (ts_spans st)" "o_masked occ = fst (snd (snd sp))"
    "o_entity_id occ = snd (snd (snd sp))" "o_original occ = slice text (rs_start sp) (rs_end sp)"
    by (rule loop_occs_span)
  obtain i d where d: "(i, d) \<in> set (enumerate 0 ds')" "span_for U A mode groups ms (i, d) sp"
    by (rule transformed_span [OF r(3) sp(1)])
  obtain g m m' m'' where m: "snd (snd (snd sp)) = eg_entity_id g" "downgraded m m'"
    "fst (snd (snd sp)) = fst (occurrence_replacement U A mode d m')" "m'' \<in> snd ` set (ts_mappings st)" "downgraded m m''"
    "\<exists>drawn. m = mapping_for U g drawn"
    by (rule span_for_mapping [OF d(2) r(1,2,3)])
  then have "em_entity_id m = eg_entity_id g" "m'' \<in> set (tr_mappings tr)" using r(4) by auto
  moreover
  have "c_value (d_candidate d) = o_original occ"
    using vals [of i d] d(1) span_for_span [OF d(2)] sp(4) by (auto simp: in_set_enumerate_eq c_span_def)
  ultimately show ?thesis using m(1-3) sp(2,3) synthetic_replacement_differs [of U A d m'] downgraded_fields [OF m(2)] downgraded_fields [OF m(5)]
    by auto
qed

lemma personal_values_replaced_witness:
  "\<exists>tr. sample_run TOKEN = Some (Inr tr) \<and> (\<forall>occ \<in> set (tr_occurrences tr).
     \<exists>m \<in> set (tr_mappings tr). em_entity_id m = o_entity_id occ \<and> o_masked occ = em_token m)"
proof -
  obtain tr where tr: "sample_run TOKEN = Some (Inr tr)" by (rule sample_run_returns)
  with personal_values_replaced [OF tr [unfolded sample_run_def] sample_chain sample_value] show ?thesis by auto
qed

end
