(* ===== verification/Detectors.thy ===== *)
theory Detectors
  imports Synthetic Overlap Naming
begin

text \<open>
  The detectors of \<^verbatim>\<open>app/detectors\<close> that rest on patterns, keywords and checksums, in the order of
  \<^verbatim>\<open>builtin.py\<close> (the detector of names has its own theory). Each is a function from a text to
  candidates; \<open>Inl\<close> is an exception, which the registry turns into no candidates of that detector.
  The locale \<open>detector\<close> states what the later stages rely on, that every candidate is a non-empty
  span of the text with its value, and every detector is an interpretation of it.
\<close>

section \<open>Pattern pieces\<close>

abbreviation re_digit :: "ucd \<Rightarrow> re" where "re_digit U \<equiv> RChar (u_isdecimal U)"
abbreviation re_space :: "ucd \<Rightarrow> re" where "re_space U \<equiv> RChar (u_isspace U)"
abbreviation no_digit_before :: "ucd \<Rightarrow> re" where "no_digit_before U \<equiv> RNotBehind (u_isdecimal U)"
abbreviation no_digit_after :: "ucd \<Rightarrow> re" where "no_digit_after U \<equiv> RNotAhead (u_isdecimal U)"
abbreviation re_lit :: "uchar \<Rightarrow> re" where "re_lit c \<equiv> RChar (is_char c)"

text \<open>Capital and small letters of the Russian alphabet, and a capitalised word, possibly hyphenated.\<close>

abbreviation re_upper :: re where "re_upper \<equiv> RChar ru_upper"
abbreviation re_lower :: re where "re_lower \<equiv> RChar ru_lower"

definition re_capital_word :: re where
  "re_capital_word = RSeq re_upper (RPlus re_lower)"

definition re_hyphenated :: re where
  "re_hyphenated = RSeq re_capital_word (ROpt (RSeq (re_lit 45) re_capital_word))"

text \<open>
  Case-insensitive letters: a character matches a small letter when its own small letter is that
  letter, or one of the historic letter forms that \<^verbatim>\<open>re\<close> treats as equal to it.
\<close>

definition extra_cases :: "(uchar \<times> uchar list) list" where
  "extra_cases = [(1074, [7296]), (1076, [7297]), (1086, [7298]), (1089, [7299]), (1090, [7300, 7301]), (1098, [7302])]"

definition ci_char :: "ucd \<Rightarrow> uchar \<Rightarrow> uchar \<Rightarrow> bool" where
  "ci_char U x c \<longleftrightarrow>
     (let l = u_tolower U c in l = x \<or> (case map_of extra_cases x of Some ys \<Rightarrow> l \<in> set ys | None \<Rightarrow> False))"

definition ci_lower :: "ucd \<Rightarrow> uchar \<Rightarrow> bool" where
  "ci_lower U c \<longleftrightarrow> (let l = u_tolower U c in ru_lower l \<or> (7296 \<le> l \<and> l \<le> 7302))"

fun RCi :: "ucd \<Rightarrow> str \<Rightarrow> re" where
  "RCi U [] = REps"
| "RCi U [c] = RChar (ci_char U c)"
| "RCi U (c # d # cs) = RSeq (RChar (ci_char U c)) (RCi U (d # cs))"

section \<open>Keyword gates\<close>

definition window :: "str \<Rightarrow> nat \<Rightarrow> nat \<Rightarrow> nat \<Rightarrow> str" where
  "window text start end radius = slice text (start - radius) (min (length text) (end + radius))"

definition has_any_keyword :: "str \<Rightarrow> str list \<Rightarrow> bool" where
  "has_any_keyword haystack_lower keywords = list_ex (\<lambda>kw. str_in kw haystack_lower) keywords"

definition first_matching_keyword :: "str \<Rightarrow> str list \<Rightarrow> str option" where
  "first_matching_keyword haystack_lower keywords = find (\<lambda>kw. str_in kw haystack_lower) keywords"

definition near_keyword :: "ucd \<Rightarrow> str list \<Rightarrow> nat \<Rightarrow> str \<Rightarrow> re_match \<Rightarrow> bool" where
  "near_keyword U keywords radius text m =
     has_any_keyword (u_lower U (window text (m_start m) (m_end m) radius)) keywords"

section \<open>Candidates\<close>

definition span_candidate :: "pii_type \<Rightarrow> string \<Rightarrow> rat \<Rightarrow> metadata \<Rightarrow> str \<Rightarrow> span \<Rightarrow> candidate" where
  "span_candidate t name conf md text sp =
     \<lparr>c_type = t, c_value = slice text (fst sp) (snd sp), c_start = fst sp, c_end = snd sp,
      c_detector = asc name, c_confidence = conf, c_metadata = md\<rparr>"

definition match_text :: "str \<Rightarrow> re_match \<Rightarrow> str" where
  "match_text text m = slice text (m_start m) (m_end m)"

text \<open>\<open>(m.start(k), m.end(k))\<close>; every group the detectors read takes part in every match.\<close>

definition group_span :: "re_match \<Rightarrow> nat \<Rightarrow> span" where
  "group_span m k = (case m_groups m k of Some sp \<Rightarrow> sp | None \<Rightarrow> (0, 0))"

text \<open>Keep the elements a test accepts; an exception of the test ends the loop.\<close>

fun filter_result :: "('a \<Rightarrow> bool result) \<Rightarrow> 'a list \<Rightarrow> 'a list result" where
  "filter_result P [] = Inr []"
| "filter_result P (x # xs) =
     (case P x of
        Inl e \<Rightarrow> Inl e
      | Inr b \<Rightarrow> (case filter_result P xs of
                    Inl e \<Rightarrow> Inl e
                  | Inr ys \<Rightarrow> Inr (if b then x # ys else ys)))"

text \<open>
  The loops that try several patterns and skip what overlaps an earlier find: \<open>occupied\<close> holds the
  spans found so far.
\<close>

fun scan_free :: "(re_match \<Rightarrow> bool) \<Rightarrow> (re_match \<Rightarrow> candidate) \<Rightarrow> re_match list \<Rightarrow> span list \<Rightarrow> candidate list \<times> span list" where
  "scan_free gate mk [] occupied = ([], occupied)"
| "scan_free gate mk (m # ms) occupied =
     (if list_ex (overlaps (m_span m)) occupied \<or> \<not> gate m then scan_free gate mk ms occupied
      else (case scan_free gate mk ms (occupied @ [m_span m]) of
              (cs, occ) \<Rightarrow> (mk m # cs, occ)))"

fun scan_patterns ::
  "str \<Rightarrow> (re \<times> (re_match \<Rightarrow> bool) \<times> (re_match \<Rightarrow> candidate)) list \<Rightarrow> span list \<Rightarrow> candidate list" where
  "scan_patterns text [] occupied = []"
| "scan_patterns text ((r, gate, mk) # ps) occupied =
     (case scan_free gate mk (finditer r text) occupied of
        (cs, occ) \<Rightarrow> cs @ scan_patterns text ps occ)"

section \<open>E-mail, phone, INN, card\<close>

definition ascii_alnum_char :: "uchar \<Rightarrow> bool" where
  "ascii_alnum_char c \<longleftrightarrow> ascii_upper c \<or> ascii_lower c \<or> ascii_digit c"

definition EMAIL_RE :: re where
  "EMAIL_RE = RSeqs
     [RChar ascii_alnum_char,
      RRep (RChar (\<lambda>c. ascii_alnum_char c \<or> c \<in> set (asc ''._%+-''))) 0 (Some 63),
      re_lit 64,
      RRep (RChar (\<lambda>c. ascii_alnum_char c \<or> c = 45)) 1 (Some 63),
      RRep (RSeq (re_lit 46) (RRep (RChar (\<lambda>c. ascii_alnum_char c \<or> c = 45)) 1 (Some 63))) 0 (Some 8),
      re_lit 46,
      RRep (RChar (\<lambda>c. ascii_upper c \<or> ascii_lower c)) 2 (Some 24)]"

definition email_detect :: "str \<Rightarrow> candidate list result" where
  "email_detect text =
     Inr (if 64 \<notin> set text then []
          else map (\<lambda>m. span_candidate EMAIL ''email'' (95 / 100) no_metadata text (m_span m)) (finditer EMAIL_RE text))"

text \<open>\<open>[\s\-]?\<close>\<close>

definition opt_sep :: "ucd \<Rightarrow> re" where
  "opt_sep U = ROpt (RChar (\<lambda>c. u_isspace U c \<or> c = 45))"

definition RU_PHONE_RE :: "ucd \<Rightarrow> re" where
  "RU_PHONE_RE U = RSeqs
     [no_digit_before U, RAlt (RStr (asc ''+7'')) (re_lit 56), opt_sep U, ROpt (re_lit 40), RTimes (re_digit U) 3,
      ROpt (re_lit 41), opt_sep U, RTimes (re_digit U) 3, opt_sep U, RTimes (re_digit U) 2, opt_sep U,
      RTimes (re_digit U) 2, no_digit_after U]"

definition INTL_PHONE_RE :: "ucd \<Rightarrow> re" where
  "INTL_PHONE_RE U = RSeqs
     [no_digit_before U, re_lit 43, RRep (re_digit U) 1 (Some 3),
      RRep (RSeq (opt_sep U) (RRep (re_digit U) 2 (Some 4))) 2 (Some 5), no_digit_after U]"

definition normalize_ru_phone :: "ucd \<Rightarrow> str \<Rightarrow> str" where
  "normalize_ru_phone U raw =
     (let digits = filter (u_isdecimal U) raw;
          digits' = (if starts_with (asc ''8'') digits \<and> length digits = 11 then asc ''7'' @ drop 1 digits else digits)
      in if digits' \<noteq> [] then asc ''+'' @ digits' else raw)"

definition phone_detect :: "ucd \<Rightarrow> str \<Rightarrow> candidate list result" where
  "phone_detect U text =
     (let ru_matches = finditer (RU_PHONE_RE U) text;
          occupied = map m_span ru_matches;
          intl = filter (\<lambda>m. \<not> list_ex (overlaps (m_span m)) occupied \<and>
                             8 \<le> length (filter (u_isdigit U) (match_text text m)) \<and>
                             length (filter (u_isdigit U) (match_text text m)) \<le> 15)
                   (finditer (INTL_PHONE_RE U) text)
      in Inr (map (\<lambda>m. span_candidate PHONE ''phone'' (95 / 100)
                     (no_metadata\<lparr>md_normalized := Some (normalize_ru_phone U (match_text text m))\<rparr>) text (m_span m)) ru_matches @
              map (\<lambda>m. span_candidate PHONE ''phone'' (75 / 100) no_metadata text (m_span m)) intl))"

definition DIGIT_RUN_RE :: "ucd \<Rightarrow> re" where
  "DIGIT_RUN_RE U = RAlt (RSeqs [no_digit_before U, RTimes (re_digit U) 10, no_digit_after U])
                         (RSeqs [no_digit_before U, RTimes (re_digit U) 12, no_digit_after U])"

definition inn_detect :: "ucd \<Rightarrow> str \<Rightarrow> candidate list result" where
  "inn_detect U text =
     map_sum id (map (\<lambda>m. span_candidate INN ''inn'' (9 / 10) no_metadata text (m_span m)))
       (filter_result (\<lambda>m. inn_valid U (match_text text m)) (finditer (DIGIT_RUN_RE U) text))"

definition CARD_RE :: "ucd \<Rightarrow> re" where
  "CARD_RE U = RSeqs
     [no_digit_before U, re_digit U, RRep (RSeq (ROpt (RChar (\<lambda>c. c = 32 \<or> c = 45))) (re_digit U)) 12 (Some 18),
      no_digit_after U]"

definition card_digits :: "str \<Rightarrow> str" where
  "card_digits s = filter (\<lambda>c. c \<noteq> 32 \<and> c \<noteq> 45) s"

definition card_detect :: "ucd \<Rightarrow> str \<Rightarrow> candidate list result" where
  "card_detect U text =
     map_sum id (map (\<lambda>m. span_candidate CARD_NUMBER ''card'' (95 / 100)
         (no_metadata\<lparr>md_normalized := Some (card_digits (match_text text m))\<rparr>) text (m_span m)))
       (filter_result (\<lambda>m. let digits = card_digits (match_text text m) in
            if 13 \<le> length digits \<and> length digits \<le> 19 then luhn_valid U digits else Inr False)
          (finditer (CARD_RE U) text))"

section \<open>Passport, department code, CVV, PIN, driving licence\<close>

definition SERIES_WORD_RE :: "ucd \<Rightarrow> re" where
  "SERIES_WORD_RE U = RSeqs
     [RCi U (ru ''seriI''), RStar (re_space U), RGroup 1 (RTimes (re_digit U) 4), RStar (re_space U),
      ROpt (RAlt (re_lit 8470) (RCi U (ru ''nomer''))), RStar (re_space U), RGroup 2 (RTimes (re_digit U) 6)]"

definition NUMBER_SIGN_RE :: "ucd \<Rightarrow> re" where
  "NUMBER_SIGN_RE U = RSeqs
     [no_digit_before U, RGroup 1 (RTimes (re_digit U) 4), RStar (re_space U), re_lit 8470, RStar (re_space U),
      RGroup 2 (RTimes (re_digit U) 6), no_digit_after U]"

definition BARE_4_6_RE :: "ucd \<Rightarrow> re" where
  "BARE_4_6_RE U = RSeqs
     [no_digit_before U, RGroup 1 (RTimes (re_digit U) 4), re_lit 32, RGroup 2 (RTimes (re_digit U) 6), no_digit_after U]"

definition BARE_2_2_6_RE :: "ucd \<Rightarrow> re" where
  "BARE_2_2_6_RE U = RSeqs
     [no_digit_before U, RGroup 1 (RTimes (re_digit U) 2), re_lit 32, RGroup 2 (RTimes (re_digit U) 2), re_lit 32,
      RGroup 3 (RTimes (re_digit U) 6), no_digit_after U]"

definition PASSPORT_KEYWORDS :: "str list" where
  "PASSPORT_KEYWORDS = [ru ''pasport'']"

definition passport_detect :: "ucd \<Rightarrow> str \<Rightarrow> candidate list result" where
  "passport_detect U text =
     (let mk = (\<lambda>conf m. span_candidate PASSPORT ''passport'' conf no_metadata text (m_span m));
          keyword = near_keyword U PASSPORT_KEYWORDS 40 text
      in Inr (scan_patterns text
           [(SERIES_WORD_RE U, \<lambda>m. True, mk (97 / 100)), (NUMBER_SIGN_RE U, \<lambda>m. True, mk (95 / 100)),
            (BARE_2_2_6_RE U, keyword, mk (75 / 100)), (BARE_4_6_RE U, keyword, mk (7 / 10))] []))"

definition DEPARTMENT_CODE_RE :: "ucd \<Rightarrow> re" where
  "DEPARTMENT_CODE_RE U = RSeqs
     [no_digit_before U, RTimes (re_digit U) 3, re_lit 45, RTimes (re_digit U) 3, no_digit_after U]"

definition DEPARTMENT_KEYWORDS :: "str list" where
  "DEPARTMENT_KEYWORDS = [ru ''kod podrazdeleniI'', ru ''podrazdeleni'']"

definition department_code_detect :: "ucd \<Rightarrow> str \<Rightarrow> candidate list result" where
  "department_code_detect U text =
     Inr (map (\<lambda>m. span_candidate DEPARTMENT_CODE ''department_code'' (92 / 100) no_metadata text (m_span m))
       (filter (near_keyword U DEPARTMENT_KEYWORDS 40 text) (finditer (DEPARTMENT_CODE_RE U) text)))"

definition CODE_RE :: "ucd \<Rightarrow> re" where
  "CODE_RE U = RSeqs [no_digit_before U, RRep (re_digit U) 3 (Some 4), no_digit_after U]"

definition CVV_KEYWORDS :: "str list" where
  "CVV_KEYWORDS = [asc ''cvv'', asc ''cvc'', ru ''kod bezopasnosti'']"

definition PIN_KEYWORDS :: "str list" where
  "PIN_KEYWORDS = [ru ''pin'', asc ''pin'']"

definition cvv_detect :: "ucd \<Rightarrow> str \<Rightarrow> candidate list result" where
  "cvv_detect U text =
     Inr (map (\<lambda>m. span_candidate CVV ''cvv'' (9 / 10) no_metadata text (m_span m))
       (filter (\<lambda>m. length (match_text text m) = 3 \<and> near_keyword U CVV_KEYWORDS 25 text m) (finditer (CODE_RE U) text)))"

definition pin_detect :: "ucd \<Rightarrow> str \<Rightarrow> candidate list result" where
  "pin_detect U text =
     Inr (map (\<lambda>m. span_candidate PIN ''pin'' (85 / 100) no_metadata text (m_span m))
       (filter (\<lambda>m. length (match_text text m) = 4 \<and> near_keyword U PIN_KEYWORDS 25 text m) (finditer (CODE_RE U) text)))"

definition BARE_10_RE :: "ucd \<Rightarrow> re" where
  "BARE_10_RE U = RSeqs [no_digit_before U, RTimes (re_digit U) 10, no_digit_after U]"

definition DL_KEYWORDS :: "str list" where
  "DL_KEYWORDS = [ru ''voditelqsk'', ru ''udostovereni'', ru ''v/u'']"

definition driver_license_detect :: "ucd \<Rightarrow> str \<Rightarrow> candidate list result" where
  "driver_license_detect U text =
     (let mk = (\<lambda>conf m. span_candidate DRIVER_LICENSE ''driver_license'' conf no_metadata text (m_span m));
          keyword = near_keyword U DL_KEYWORDS 40 text
      in Inr (scan_patterns text
           [(BARE_2_2_6_RE U, keyword, mk (8 / 10)), (BARE_4_6_RE U, keyword, mk (78 / 100)),
            (BARE_10_RE U, keyword, mk (72 / 100))] []))"

section \<open>Dates\<close>

definition NUMERIC_DATE_RE :: "ucd \<Rightarrow> re" where
  "NUMERIC_DATE_RE U = RSeqs
     [no_digit_before U, RGroup 1 (RRep (re_digit U) 1 (Some 2)), RGroup 2 (RChar (\<lambda>c. c = 46 \<or> c = 47 \<or> c = 45)),
      RGroup 3 (RRep (re_digit U) 1 (Some 2)), RBackref 2, RGroup 4 (RTimes (re_digit U) 4), no_digit_after U]"

definition ISO_DATE_RE :: "ucd \<Rightarrow> re" where
  "ISO_DATE_RE U = RSeqs
     [no_digit_before U, RGroup 1 (RTimes (re_digit U) 4), re_lit 45, RGroup 2 (RRep (re_digit U) 1 (Some 2)), re_lit 45,
      RGroup 3 (RRep (re_digit U) 1 (Some 2)), no_digit_after U]"

definition TEXT_DATE_RE :: "ucd \<Rightarrow> re" where
  "TEXT_DATE_RE U = RSeqs
     [no_digit_before U, RGroup 1 (RRep (re_digit U) 1 (Some 2)), RPlus (re_space U),
      RGroup 2 (RAlts (RCi U (hd GENITIVE_MONTHS)) (map (RCi U) (tl GENITIVE_MONTHS))), RPlus (re_space U),
      RGroup 3 (RTimes (re_digit U) 4), no_digit_after U]"

definition BIRTH_KEYWORDS :: "str list" where
  "BIRTH_KEYWORDS = map ru [''data rowdeniI'', ''rowden'', ''rodilsI'', ''rodilasq'']"

definition ISSUE_KEYWORDS :: "str list" where
  "ISSUE_KEYWORDS = map ru [''data vydaCi'', ''vydan'', ''vydana'', ''vydano'']"

datatype date_pattern = NumericDate | IsoDate | TextualDate

fun date_re :: "ucd \<Rightarrow> date_pattern \<Rightarrow> re" where
  "date_re U NumericDate = NUMERIC_DATE_RE U"
| "date_re U IsoDate = ISO_DATE_RE U"
| "date_re U TextualDate = TEXT_DATE_RE U"

definition group_int :: "ucd \<Rightarrow> str \<Rightarrow> re_match \<Rightarrow> nat \<Rightarrow> nat" where
  "group_int U text m k = digits_value U (group_text text (m_groups m) k)"

text \<open>
  The year, month and day of a match. \<open>_MONTHS.index\<close> raises when the matched month in lower case
  is not in the list.
\<close>

fun calendar_fields :: "ucd \<Rightarrow> date_pattern \<Rightarrow> str \<Rightarrow> re_match \<Rightarrow> (nat \<times> nat \<times> nat) result" where
  "calendar_fields U IsoDate text m = Inr (group_int U text m 1, group_int U text m 2, group_int U text m 3)"
| "calendar_fields U TextualDate text m =
     (case find_index (\<lambda>w. w = u_lower U (group_text text (m_groups m) 2)) GENITIVE_MONTHS of
        None \<Rightarrow> Inl ValueError
      | Some i \<Rightarrow> Inr (group_int U text m 3, i + 1, group_int U text m 1))"
| "calendar_fields U NumericDate text m = Inr (group_int U text m 4, group_int U text m 3, group_int U text m 1)"

text \<open>\<open>date(year, month, day)\<close> does not raise.\<close>

definition calendar_date :: "nat \<times> nat \<times> nat \<Rightarrow> bool" where
  "calendar_date = (\<lambda>(year, month, day). 1 \<le> year \<and> year \<le> 9999 \<and> 1 \<le> month \<and> month \<le> 12 \<and>
     1 \<le> day \<and> day \<le> days_in_month year month)"

definition is_real_date :: "ucd \<Rightarrow> date_pattern \<Rightarrow> str \<Rightarrow> re_match \<Rightarrow> bool result" where
  "is_real_date U pattern text m = map_sum id calendar_date (calendar_fields U pattern text m)"

definition classify_date :: "ucd \<Rightarrow> str \<Rightarrow> re_match \<Rightarrow> pii_type option" where
  "classify_date U text m =
     (let local = u_lower U (window text (m_start m) (m_end m) 30) in
      if first_matching_keyword local BIRTH_KEYWORDS \<noteq> None then Some BIRTH_DATE
      else if first_matching_keyword local ISSUE_KEYWORDS \<noteq> None then Some PASSPORT_ISSUE_DATE
      else None)"

definition date_candidates :: "ucd \<Rightarrow> str \<Rightarrow> re_match list \<Rightarrow> candidate list" where
  "date_candidates U text ms =
     concat (map (\<lambda>m. case classify_date U text m of
         None \<Rightarrow> []
       | Some role \<Rightarrow> [span_candidate role ''date'' (85 / 100) no_metadata text (m_span m)]) ms)"

fun date_loop :: "ucd \<Rightarrow> str \<Rightarrow> date_pattern list \<Rightarrow> candidate list result" where
  "date_loop U text [] = Inr []"
| "date_loop U text (p # ps) =
     (case filter_result (is_real_date U p text) (finditer (date_re U p) text) of
        Inl e \<Rightarrow> Inl e
      | Inr ms \<Rightarrow> map_sum id (\<lambda>cs. date_candidates U text ms @ cs) (date_loop U text ps))"

definition date_detect :: "ucd \<Rightarrow> str \<Rightarrow> candidate list result" where
  "date_detect U text = date_loop U text [NumericDate, IsoDate, TextualDate]"

section \<open>Cardholder, address, birth place, citizenship, issuer\<close>

definition CARDHOLDER_RE :: "ucd \<Rightarrow> re" where
  "CARDHOLDER_RE U = RSeqs
     [RCi U (ru ''derwatel''), RStar (RChar (ci_lower U)), RPlus (RChar (\<lambda>c. c = 58 \<or> u_isspace U c)),
      RGroup 1 (RSeq (RRep re_upper 2 None) (RRep (RSeq (RPlus (re_space U)) (RRep re_upper 2 None)) 1 (Some 2)))]"

text \<open>\<open>str.isupper\<close>\<close>

definition str_isupper :: "ucd \<Rightarrow> str \<Rightarrow> bool" where
  "str_isupper U s \<longleftrightarrow> list_ex (u_isupper U) s \<and> list_all (\<lambda>c. u_iscased U c \<longrightarrow> u_isupper U c) s"

definition cardholder_detect :: "ucd \<Rightarrow> str \<Rightarrow> candidate list result" where
  "cardholder_detect U text =
     Inr (map (\<lambda>m. span_candidate CARDHOLDER ''cardholder'' (9 / 10) no_metadata text (group_span m 1))
       (filter (\<lambda>m. str_isupper U (slice text (fst (group_span m 1)) (snd (group_span m 1))))
          (finditer (CARDHOLDER_RE U) text)))"

definition CITY_RE :: "ucd \<Rightarrow> re" where
  "CITY_RE U = RSeq re_hyphenated (ROpt (RSeq (re_space U) re_capital_word))"

definition STREET_RE :: "ucd \<Rightarrow> re" where
  "STREET_RE U = RSeqs
     [re_upper, RPlus (RChar (\<lambda>c. ru_lower c \<or> ru_upper c \<or> c = 45)),
      ROpt (RSeq (re_space U) (RPlus (RChar (\<lambda>c. ru_lower c \<or> ru_upper c \<or> c = 45))))]"

text \<open>A comma, white space, a fixed word, white space.\<close>

definition re_item :: "ucd \<Rightarrow> str \<Rightarrow> re" where
  "re_item U w = RSeqs [re_lit 44, RStar (re_space U), RStr w, RStar (re_space U)]"

definition FULL_WITH_INDEX_RE :: "ucd \<Rightarrow> re" where
  "FULL_WITH_INDEX_RE U = RSeqs
     [RTimes (re_digit U) 6, re_item U (ru ''g.''), CITY_RE U, re_item U (ru ''ul.''), STREET_RE U, re_item U (ru ''d.''),
      RPlus (re_digit U), re_item U (ru ''kv.''), RPlus (re_digit U)]"

definition FULL_WORDS_RE :: "ucd \<Rightarrow> re" where
  "FULL_WORDS_RE U = RSeqs
     [RStr (ru ''g.''), RStar (re_space U), CITY_RE U, re_item U (ru ''ul.''), STREET_RE U, re_item U (ru ''dom''),
      RPlus (re_digit U), re_item U (ru ''kvartira''), RPlus (re_digit U)]"

definition COMPACT_RE :: "ucd \<Rightarrow> re" where
  "COMPACT_RE U = RSeqs
     [RNotBehind (\<lambda>c. c = 44 \<or> u_isalnum U c \<or> c = 95 \<or> (1040 \<le> c \<and> c \<le> 1103)), CITY_RE U, re_lit 44,
      RStar (re_space U), STREET_RE U, re_lit 44, RStar (re_space U), RPlus (re_digit U), re_lit 45, RPlus (re_digit U),
      no_digit_after U]"

definition address_detect :: "ucd \<Rightarrow> str \<Rightarrow> candidate list result" where
  "address_detect U text =
     (let mk = (\<lambda>conf m. span_candidate ADDRESS ''address'' conf no_metadata text (m_span m))
      in Inr (scan_patterns text
           [(FULL_WITH_INDEX_RE U, \<lambda>m. True, mk (95 / 100)), (FULL_WORDS_RE U, \<lambda>m. True, mk (93 / 100)),
            (COMPACT_RE U, \<lambda>m. True, mk (7 / 10))] []))"

definition re_dash :: re where
  "re_dash = RChar (\<lambda>c. c = 58 \<or> c = 45 \<or> c = 8212)"

definition BIRTH_PLACE_RE :: "ucd \<Rightarrow> re" where
  "BIRTH_PLACE_RE U = RSeqs
     [RCi U (ru ''mesto''), RPlus (re_space U), RCi U (ru ''rowdeniI''),
      RStar (RChar (\<lambda>c. c \<noteq> 58 \<and> c \<noteq> 59 \<and> c \<noteq> 46)), re_dash, RStar (re_space U),
      RGroup 1 (RSeqs
        [ROpt (RAlt (RSeq (RStr (ru ''g.'')) (RStar (re_space U))) (RSeq (RStr (ru ''gorod'')) (RPlus (re_space U)))),
         re_hyphenated,
         ROpt (RSeqs [re_lit 44, RStar (re_space U), RStr (ru ''^rossi''), RChar (\<lambda>c. c = 1080 \<or> c = 1103),
                      RStar (RChar (\<lambda>c. c \<noteq> 44 \<and> c \<noteq> 46 \<and> c \<noteq> 59))])])]"

definition birth_place_detect :: "ucd \<Rightarrow> str \<Rightarrow> candidate list result" where
  "birth_place_detect U text =
     Inr (map (\<lambda>m. span_candidate BIRTH_PLACE ''birth_place'' (85 / 100) no_metadata text (group_span m 1))
       (finditer (BIRTH_PLACE_RE U) text))"

definition CITIZENSHIP_RE :: "ucd \<Rightarrow> re" where
  "CITIZENSHIP_RE U = RSeqs
     [RCi U (ru ''grawdanstv''), RChar (\<lambda>c. ci_char U 1086 c \<or> ci_char U 1072 c), RStar (re_space U), ROpt re_dash,
      RStar (re_space U), RGroup 1 (RSeq re_capital_word (ROpt (RSeq (RPlus (re_space U)) re_capital_word)))]"

definition citizenship_detect :: "ucd \<Rightarrow> str \<Rightarrow> candidate list result" where
  "citizenship_detect U text =
     Inr (map (\<lambda>m. span_candidate CITIZENSHIP ''citizenship'' (85 / 100) no_metadata text (group_span m 1))
       (finditer (CITIZENSHIP_RE U) text))"

definition PASSPORT_ISSUER_RE :: "ucd \<Rightarrow> re" where
  "PASSPORT_ISSUER_RE U = RSeqs
     [RAlts (RStr (ru ''^g^u ^m^v^d ^rossii''))
        [RStr (ru ''^u^m^v^d ^rossii''),
         RSeqs [RStr (ru ''^otdelo''), ROpt (re_lit 1084), RStr (ru '' ^m^v^d ^rossii'')]],
      RPlus (re_space U), RStr (ru ''po''), RPlus (re_space U), RStr (ru ''g.''), RStar (re_space U), re_hyphenated]"

definition passport_issuer_detect :: "ucd \<Rightarrow> str \<Rightarrow> candidate list result" where
  "passport_issuer_detect U text =
     Inr (map (\<lambda>m. span_candidate PASSPORT_ISSUER ''passport_issuer'' (9 / 10) no_metadata text (m_span m))
       (finditer (PASSPORT_ISSUER_RE U) text))"

section \<open>What every detector promises\<close>

locale detector =
  fixes detect :: "str \<Rightarrow> candidate list result"
  assumes detect_wf: "detect text = Inr cs \<Longrightarrow> c \<in> set cs \<Longrightarrow> wf_candidate text c"
begin

lemma detect_spans: "detect text = Inr cs \<Longrightarrow> c \<in> set cs \<Longrightarrow> good_span (length text) (c_span c)"
  using wf_good_span [OF detect_wf] .

lemma detect_value: "detect text = Inr cs \<Longrightarrow> c \<in> set cs \<Longrightarrow> c_value c = slice text (c_start c) (c_end c) \<and> c_value c \<noteq> []"
  using detect_wf [of "text" cs c] by (auto simp: wf_candidate_def slice_def)

end

lemma span_candidate_fields [simp]:
  "c_type (span_candidate t n conf md text sp) = t" "c_start (span_candidate t n conf md text sp) = fst sp"
  "c_end (span_candidate t n conf md text sp) = snd sp" "c_metadata (span_candidate t n conf md text sp) = md"
  "c_value (span_candidate t n conf md text sp) = slice text (fst sp) (snd sp)"
  "c_confidence (span_candidate t n conf md text sp) = conf"
  by (simp_all add: span_candidate_def)

lemma span_candidate_wf [simp]:
  "wf_candidate text (span_candidate t n conf md text sp) \<longleftrightarrow> fst sp < snd sp \<and> snd sp \<le> length text"
  by (simp add: wf_candidate_def)

lemma finditer_span: "m \<in> set (finditer r text) \<Longrightarrow> 0 < min_len r \<Longrightarrow> fst (m_span m) < snd (m_span m) \<and> snd (m_span m) \<le> length text"
  using finditer_min [of m r "text"] finditer_bounds [of m r "text"] by (auto simp: m_span_def)

lemma finditer_group_span:
  assumes "m \<in> set (finditer r text)" "sets_group k r" "group_min (\<lambda>i. if i = k then 1 else 0) r"
  shows "fst (group_span m k) < snd (group_span m k) \<and> snd (group_span m k) \<le> length text"
proof -
  obtain a b where ab: "m_groups m k = Some (a, b)" using finditer_group_set [OF assms(1,2)] by auto
  from finditer_group_bounds [OF assms(1,3) ab] finditer_bounds [OF assms(1)] ab show ?thesis
    by (auto simp: group_span_def)
qed

lemma filter_result_Inr: "filter_result P xs = Inr ys \<Longrightarrow> ys = filter (\<lambda>x. P x = Inr True) xs"
  by (induction xs arbitrary: ys) (auto split: sum.splits)

lemma filter_result_total: "\<forall>x \<in> set xs. \<exists>b. P x = Inr b \<Longrightarrow> \<exists>ys. filter_result P xs = Inr ys"
  by (induction xs) (auto split: sum.splits)

lemma scan_free_candidates:
  "c \<in> set (fst (scan_free gate mk ms occ)) \<Longrightarrow> \<exists>m \<in> set ms. gate m \<and> c = mk m"
  by (induction gate mk ms occ rule: scan_free.induct) (auto split: if_splits prod.splits)

lemma scan_patterns_candidates:
  "c \<in> set (scan_patterns text ps occ) \<Longrightarrow> \<exists>(r, gate, mk) \<in> set ps. \<exists>m \<in> set (finditer r text). gate m \<and> c = mk m"
proof (induction "text" ps occ rule: scan_patterns.induct)
  case (2 "text" r gate mk ps occupied)
  obtain cs occ where s: "scan_free gate mk (finditer r text) occupied = (cs, occ)" by force
  from "2.prems" s have "c \<in> set cs \<or> c \<in> set (scan_patterns text ps occ)" by simp
  then show ?case
  proof
    assume "c \<in> set cs"
    with s scan_free_candidates [of c gate mk "finditer r text" occupied] show ?thesis by auto
  next
    assume "c \<in> set (scan_patterns text ps occ)"
    from "2.IH" [OF s [symmetric] this] show ?thesis by auto
  qed
qed simp

text \<open>Pattern lengths compute; a literal is as long as its text.\<close>

lemma min_len_RStr [simp]: "min_len (RStr s) = length s"
  by (induction s rule: RStr.induct) simp_all

lemma min_len_RCi [simp]: "min_len (RCi U s) = length s"
  by (induction U s rule: RCi.induct) simp_all

lemma group_min_RStr [simp]: "group_min L (RStr s)"
  by (induction s rule: RStr.induct) simp_all

lemma group_min_RCi [simp]: "group_min L (RCi U s)"
  by (induction U s rule: RCi.induct) simp_all

lemmas pattern_defs = EMAIL_RE_def RU_PHONE_RE_def INTL_PHONE_RE_def DIGIT_RUN_RE_def CARD_RE_def SERIES_WORD_RE_def
  NUMBER_SIGN_RE_def BARE_4_6_RE_def BARE_2_2_6_RE_def DEPARTMENT_CODE_RE_def CODE_RE_def BARE_10_RE_def
  NUMERIC_DATE_RE_def ISO_DATE_RE_def TEXT_DATE_RE_def CARDHOLDER_RE_def FULL_WITH_INDEX_RE_def FULL_WORDS_RE_def
  COMPACT_RE_def BIRTH_PLACE_RE_def CITIZENSHIP_RE_def PASSPORT_ISSUER_RE_def CITY_RE_def STREET_RE_def re_item_def
  re_hyphenated_def re_capital_word_def opt_sep_def re_dash_def

lemma pattern_min_len:
  "0 < min_len EMAIL_RE" "0 < min_len (RU_PHONE_RE U)" "0 < min_len (INTL_PHONE_RE U)" "0 < min_len (DIGIT_RUN_RE U)"
  "0 < min_len (CARD_RE U)" "0 < min_len (SERIES_WORD_RE U)" "0 < min_len (NUMBER_SIGN_RE U)" "0 < min_len (BARE_4_6_RE U)"
  "0 < min_len (BARE_2_2_6_RE U)" "0 < min_len (DEPARTMENT_CODE_RE U)" "0 < min_len (CODE_RE U)" "0 < min_len (BARE_10_RE U)"
  "0 < min_len (date_re U p)" "0 < min_len (FULL_WITH_INDEX_RE U)" "0 < min_len (FULL_WORDS_RE U)"
  "0 < min_len (COMPACT_RE U)" "0 < min_len (PASSPORT_ISSUER_RE U)"
  by (simp_all add: pattern_defs) (cases p; simp add: pattern_defs)

lemma pattern_groups:
  "sets_group 1 (CARDHOLDER_RE U)" "group_min (\<lambda>i. if i = 1 then 1 else 0) (CARDHOLDER_RE U)"
  "sets_group 1 (BIRTH_PLACE_RE U)" "group_min (\<lambda>i. if i = 1 then 1 else 0) (BIRTH_PLACE_RE U)"
  "sets_group 1 (CITIZENSHIP_RE U)" "group_min (\<lambda>i. if i = 1 then 1 else 0) (CITIZENSHIP_RE U)"
  by (simp_all add: pattern_defs)

lemmas found_spans = finditer_span [OF _ pattern_min_len(1)] finditer_span [OF _ pattern_min_len(2)]
  finditer_span [OF _ pattern_min_len(3)] finditer_span [OF _ pattern_min_len(4)] finditer_span [OF _ pattern_min_len(5)]
  finditer_span [OF _ pattern_min_len(6)] finditer_span [OF _ pattern_min_len(7)] finditer_span [OF _ pattern_min_len(8)]
  finditer_span [OF _ pattern_min_len(9)] finditer_span [OF _ pattern_min_len(10)] finditer_span [OF _ pattern_min_len(11)]
  finditer_span [OF _ pattern_min_len(12)] finditer_span [OF _ pattern_min_len(13)] finditer_span [OF _ pattern_min_len(14)]
  finditer_span [OF _ pattern_min_len(15)] finditer_span [OF _ pattern_min_len(16)] finditer_span [OF _ pattern_min_len(17)]
lemmas found_span = found_spans [THEN conjunct1] found_spans [THEN conjunct2]
lemmas found_groups = finditer_group_span [OF _ pattern_groups(1,2)] finditer_group_span [OF _ pattern_groups(3,4)]
  finditer_group_span [OF _ pattern_groups(5,6)]
lemmas found_group = found_groups [THEN conjunct1, unfolded One_nat_def] found_groups [THEN conjunct2, unfolded One_nat_def]

interpretation email: detector email_detect
  by unfold_locales (auto simp: email_detect_def split: if_splits; erule found_span)

interpretation phone: detector "phone_detect U" for U
  by unfold_locales (auto simp: phone_detect_def Let_def; erule found_span)

interpretation inn: detector "inn_detect U" for U
  by unfold_locales (auto simp: inn_detect_def map_sum_eq_Inr dest!: filter_result_Inr; erule found_span)

interpretation card: detector "card_detect U" for U
  by unfold_locales (auto simp: card_detect_def map_sum_eq_Inr dest!: filter_result_Inr; erule found_span)

interpretation department_code: detector "department_code_detect U" for U
  by unfold_locales (auto simp: department_code_detect_def; erule found_span)

interpretation cvv: detector "cvv_detect U" for U
  by unfold_locales (auto simp: cvv_detect_def; erule found_span)

interpretation pin: detector "pin_detect U" for U
  by unfold_locales (auto simp: pin_detect_def; erule found_span)

interpretation passport: detector "passport_detect U" for U
  by unfold_locales (auto simp: passport_detect_def Let_def simp del: scan_patterns.simps dest!: scan_patterns_candidates; erule found_span)

interpretation driver_license: detector "driver_license_detect U" for U
  by unfold_locales (auto simp: driver_license_detect_def Let_def simp del: scan_patterns.simps dest!: scan_patterns_candidates; erule found_span)

interpretation address: detector "address_detect U" for U
  by unfold_locales (auto simp: address_detect_def Let_def simp del: scan_patterns.simps dest!: scan_patterns_candidates; erule found_span)

interpretation cardholder: detector "cardholder_detect U" for U
  by unfold_locales (auto simp: cardholder_detect_def; erule found_group)

interpretation birth_place: detector "birth_place_detect U" for U
  by unfold_locales (auto simp: birth_place_detect_def; erule found_group)

interpretation citizenship: detector "citizenship_detect U" for U
  by unfold_locales (auto simp: citizenship_detect_def; erule found_group)

interpretation passport_issuer: detector "passport_issuer_detect U" for U
  by unfold_locales (auto simp: passport_issuer_detect_def; erule found_span)

lemma date_loop_wf: "date_loop U text ps = Inr cs \<Longrightarrow> c \<in> set cs \<Longrightarrow> wf_candidate text c"
proof (induction U "text" ps arbitrary: cs rule: date_loop.induct)
  case (2 U "text" p ps)
  from "2.prems"(1) obtain ms cs' where r: "filter_result (is_real_date U p text) (finditer (date_re U p) text) = Inr ms"
    "date_loop U text ps = Inr cs'" "cs = date_candidates U text ms @ cs'"
    by (auto simp: map_sum_eq_Inr split: sum.splits)
  have "wf_candidate text c" if "c \<in> set (date_candidates U text ms)"
  proof -
    from that filter_result_Inr [OF r(1)] obtain m t where "m \<in> set (finditer (date_re U p) text)"
      "c = span_candidate t ''date'' (85 / 100) no_metadata text (m_span m)"
      by (auto simp: date_candidates_def split: option.splits)
    with found_spans(13) [of m U p "text"] show ?thesis by simp
  qed
  with "2.prems"(2) r "2.IH" [OF r(1)] show ?case by auto
qed simp

interpretation date: detector "date_detect U" for U
  unfolding date_detect_def by unfold_locales (rule date_loop_wf)

section \<open>Runs of digits\<close>

text \<open>A match is found wherever no earlier match reaches across its start.\<close>

lemma search_from_first:
  assumes "search_from r s i = Some (k1, x)" "i \<le> k" "k \<le> length s" "match_at r s k \<noteq> None"
  shows "k1 \<le> k"
  using assms
proof (induction r s i rule: search_from.induct)
  case (1 r s i)
  show ?case
  proof (cases "match_at r s i")
    case None
    with "1.prems" have "Suc i \<le> k" by (metis le_eq_less_or_eq Suc_leI)
    with "1.prems" None "1.IH" show ?thesis by (auto simp: search_from.simps [of r s i] split: if_splits)
  qed (use "1.prems" in \<open>auto simp: search_from.simps [of r s i] split: if_splits\<close>)
qed

lemma finditer_loop_finds:
  assumes "match_at r s k = Some (j, g)" "k \<le> length s"
    and "\<And>k' j' g'. k' < k \<Longrightarrow> match_at r s k' = Some (j', g') \<Longrightarrow> k' < j' \<and> j' \<le> k"
    and "i \<le> k" "k - i < fuel"
  shows "\<exists>m \<in> set (finditer_loop r s fuel i). m_start m = k \<and> m_end m = j"
  using assms(4,5)
proof (induction fuel arbitrary: i)
  case (Suc fuel)
  obtain k1 j1 g1 where f: "search_from r s i = Some (k1, j1, g1)"
    using search_from_finds [OF Suc.prems(1) assms(2), of r] assms(1) by auto
  note found = search_from_SomeD [OF f]
  have "k1 \<le> k" by (rule search_from_first [OF f Suc.prems(1) assms(2)]) (simp add: assms(1))
  then consider "k1 = k" | "k1 < k" by linarith
  then show ?case
  proof cases
    case 1
    with f found assms(1) show ?thesis by auto
  next
    case 2
    with assms(3) found have j1: "k1 < j1" "j1 \<le> k" by blast+
    with Suc.prems found have "k - j1 < fuel" by linarith
    from Suc.IH [OF j1(2) this] f j1(1) show ?thesis by simp
  qed
qed simp

lemma finditer_finds:
  assumes "match_at r s k = Some (j, g)" "k \<le> length s"
    and "\<And>k' j' g'. k' < k \<Longrightarrow> match_at r s k' = Some (j', g') \<Longrightarrow> k' < j' \<and> j' \<le> k"
  shows "\<exists>m \<in> set (finditer r s). m_start m = k \<and> m_end m = j"
  unfolding finditer_def by (rule finditer_loop_finds [OF assms]) (use assms(2) in auto)

text \<open>A repeated character class matches exactly as many characters as the bounds and the text allow.\<close>

lemma rep_char_step:
  "set (rep_matches (matches (RChar P) s) (Suc fuel) lo (Some hi) (i, g)) =
     (if 0 < hi \<and> i < length s \<and> P (s ! i)
      then set (rep_matches (matches (RChar P) s) fuel (lo - 1) (Some (hi - 1)) (Suc i, g)) else {}) \<union>
     (if lo = 0 then {(i, g)} else {})"
  by (cases "i < length s \<and> P (s ! i)"; cases "hi = 0") auto

definition class_run :: "(uchar \<Rightarrow> bool) \<Rightarrow> str \<Rightarrow> nat \<Rightarrow> nat \<Rightarrow> bool" where
  "class_run P s i n \<longleftrightarrow> (n = 0 \<or> i + n \<le> length s) \<and> (\<forall>m < n. P (s ! (i + m)))"

lemma class_run_simps [simp]:
  "class_run P s i 0" "class_run P s i (Suc n) \<longleftrightarrow> i < length s \<and> P (s ! i) \<and> class_run P s (Suc i) n"
  by (auto simp: class_run_def less_Suc_eq_0_disj)

lemma rep_char_iff:
  "y \<in> set (rep_matches (matches (RChar P) s) fuel lo (Some hi) (i, g)) \<longleftrightarrow>
   (\<exists>n. lo \<le> n \<and> n \<le> hi \<and> n \<le> fuel \<and> y = (i + n, g) \<and> class_run P s i n)"
proof (induction fuel arbitrary: lo hi i)
  case (Suc fuel)
  let ?Q = "\<lambda>n. lo \<le> n \<and> n \<le> hi \<and> n \<le> Suc fuel \<and> y = (i + n, g) \<and> class_run P s i n"
  let ?R = "\<lambda>n. lo - 1 \<le> n \<and> n \<le> hi - 1 \<and> n \<le> fuel \<and> y = (Suc i + n, g) \<and> class_run P s (Suc i) n"
  have split: "(\<exists>n. Q n) \<longleftrightarrow> Q 0 \<or> (\<exists>n. Q (Suc n))" for Q :: "nat \<Rightarrow> bool" by (metis not0_implies_Suc)
  have zero: "?Q 0 \<longleftrightarrow> lo = 0 \<and> y = (i, g)" by auto
  have suc: "?Q (Suc n) \<longleftrightarrow> (0 < hi \<and> i < length s \<and> P (s ! i)) \<and> ?R n" for n
    by (cases hi; cases lo) auto
  have r: "(\<exists>n. ?Q n) \<longleftrightarrow> (lo = 0 \<and> y = (i, g)) \<or> ((0 < hi \<and> i < length s \<and> P (s ! i)) \<and> (\<exists>n. ?R n))"
    unfolding split [of ?Q] zero suc by blast
  have l: "y \<in> (if lo = 0 then {(i, g)} else {}) \<longleftrightarrow> lo = 0 \<and> y = (i, g)" by simp
  show ?case
  proof (cases "0 < hi \<and> i < length s \<and> P (s ! i)")
    case True
    show ?thesis unfolding rep_char_step Un_iff if_P [OF True] Suc.IH r l using True by blast
  next
    case False
    show ?thesis unfolding rep_char_step Un_iff if_not_P [OF False] r l using False by blast
  qed
qed (auto simp del: matches.simps)

lemma match_iffs:
  "y \<in> set (matches (RSeq a b) s x) \<longleftrightarrow> (\<exists>z \<in> set (matches a s x). y \<in> set (matches b s z))"
  "y \<in> set (matches (RAlt a b) s x) \<longleftrightarrow> y \<in> set (matches a s x) \<or> y \<in> set (matches b s x)"
  "y \<in> set (matches (RNotBehind P) s (i, g)) \<longleftrightarrow> y = (i, g) \<and> (i = 0 \<or> \<not> P (s ! (i - 1)))"
  "y \<in> set (matches (RNotAhead P) s (i, g)) \<longleftrightarrow> y = (i, g) \<and> (length s \<le> i \<or> \<not> P (s ! i))"
  by (auto split: if_splits)

lemma class_iff:
  assumes "0 < lo" "i \<le> length s"
  shows "y \<in> set (matches (RRep (RChar P) lo (Some hi)) s (i, g)) \<longleftrightarrow>
   (\<exists>n. lo \<le> n \<and> n \<le> hi \<and> y = (i + n, g) \<and> i + n \<le> length s \<and> (\<forall>m < n. P (s ! (i + m))))"
proof -
  have "matches (RRep (RChar P) lo (Some hi)) s (i, g) = rep_matches (matches (RChar P) s) (Suc (length s)) lo (Some hi) (i, g)"
    by (simp only: matches.simps)
  moreover have "lo \<le> n \<and> n \<le> hi \<and> n \<le> Suc (length s) \<and> y = (i + n, g) \<and> class_run P s i n \<longleftrightarrow>
      lo \<le> n \<and> n \<le> hi \<and> y = (i + n, g) \<and> i + n \<le> length s \<and> (\<forall>m < n. P (s ! (i + m)))" for n
    using assms by (auto simp: class_run_def)
  ultimately show ?thesis by (simp only: rep_char_iff)
qed

definition digit_run :: "ucd \<Rightarrow> str \<Rightarrow> nat \<Rightarrow> nat \<Rightarrow> bool" where
  "digit_run U s i j \<longleftrightarrow> i < j \<and> j \<le> length s \<and> (\<forall>m. i \<le> m \<and> m < j \<longrightarrow> u_isdecimal U (s ! m)) \<and>
     (i = 0 \<or> \<not> u_isdecimal U (s ! (i - 1))) \<and> (length s \<le> j \<or> \<not> u_isdecimal U (s ! j))"

abbreviation run_re :: "ucd \<Rightarrow> nat \<Rightarrow> nat \<Rightarrow> re" where
  "run_re U lo hi \<equiv> RSeqs [no_digit_before U, RRep (re_digit U) lo (Some hi), no_digit_after U]"

lemma run_re_matches:
  assumes "0 < lo" "i \<le> length s"
  shows "y \<in> set (matches (run_re U lo hi) s (i, g)) \<longleftrightarrow>
    (\<exists>j. y = (j, g) \<and> digit_run U s i j \<and> lo \<le> j - i \<and> j - i \<le> hi)" (is "_ \<longleftrightarrow> ?r")
proof -
  have "y \<in> set (matches (run_re U lo hi) s (i, g)) \<longleftrightarrow> (i = 0 \<or> \<not> u_isdecimal U (s ! (i - 1))) \<and>
      (\<exists>n. lo \<le> n \<and> n \<le> hi \<and> y = (i + n, g) \<and> i + n \<le> length s \<and> (\<forall>m < n. u_isdecimal U (s ! (i + m))) \<and>
        (length s \<le> i + n \<or> \<not> u_isdecimal U (s ! (i + n))))"
    unfolding RSeqs.simps match_iffs Bex_def class_iff [OF assms] by (auto simp: match_iffs class_iff [OF assms] simp del: matches.simps)
  also have "\<dots> \<longleftrightarrow> ?r"
  proof (intro iffI; elim conjE exE)
    fix n assume n: "i = 0 \<or> \<not> u_isdecimal U (s ! (i - 1))" "lo \<le> n" "n \<le> hi" "y = (i + n, g)" "i + n \<le> length s"
      "\<forall>m < n. u_isdecimal U (s ! (i + m))" "length s \<le> i + n \<or> \<not> u_isdecimal U (s ! (i + n))"
    have "u_isdecimal U (s ! m)" if "i \<le> m" "m < i + n" for m using n(6) that
      by (metis le_add_diff_inverse nat_add_left_cancel_less)
    with n assms show ?r by (intro exI [of _ "i + n"]) (simp add: digit_run_def)
  next
    fix j assume j: "y = (j, g)" "digit_run U s i j" "lo \<le> j - i" "j - i \<le> hi"
    then have "i + (j - i) = j" by (simp add: digit_run_def)
    with j show "(i = 0 \<or> \<not> u_isdecimal U (s ! (i - 1))) \<and>
      (\<exists>n. lo \<le> n \<and> n \<le> hi \<and> y = (i + n, g) \<and> i + n \<le> length s \<and> (\<forall>m < n. u_isdecimal U (s ! (i + m))) \<and>
        (length s \<le> i + n \<or> \<not> u_isdecimal U (s ! (i + n))))"
      by (intro conjI exI [of _ "j - i"]) (simp_all add: digit_run_def)
  qed
  finally show ?thesis .
qed

lemma digit_run_apart:
  assumes "digit_run U s i j" "digit_run U s i' j'" "i < i'"
  shows "j \<le> i'"
proof (rule ccontr)
  assume "\<not> j \<le> i'"
  with assms(1,3) have "i \<le> i' - 1" "i' - 1 < j" by (auto simp: digit_run_def)
  with assms(1) have "u_isdecimal U (s ! (i' - 1))" by (simp add: digit_run_def)
  with assms(2,3) show False by (simp add: digit_run_def)
qed

lemma digit_run_unique:
  assumes "digit_run U s i j" "digit_run U s i j'"
  shows "j = j'"
proof (rule ccontr)
  assume "j \<noteq> j'"
  then consider "j < j'" | "j' < j" by linarith
  then show False
  proof cases
    case 1
    with assms have "u_isdecimal U (s ! j)" "j < length s" by (auto simp: digit_run_def)
    with assms(1) show False by (simp add: digit_run_def)
  next
    case 2
    with assms have "u_isdecimal U (s ! j')" "j' < length s" by (auto simp: digit_run_def)
    with assms(2) show False by (simp add: digit_run_def)
  qed
qed
section \<open>What a match is made of\<close>

primrec only_chars :: "(uchar \<Rightarrow> bool) \<Rightarrow> re \<Rightarrow> bool" where
  "only_chars P (RChar Q) \<longleftrightarrow> (\<forall>c. Q c \<longrightarrow> P c)"
| "only_chars P REps \<longleftrightarrow> True"
| "only_chars P (RSeq a b) \<longleftrightarrow> only_chars P a \<and> only_chars P b"
| "only_chars P (RAlt a b) \<longleftrightarrow> only_chars P a \<and> only_chars P b"
| "only_chars P (RRep r lo hi) \<longleftrightarrow> only_chars P r"
| "only_chars P (RGroup k r) \<longleftrightarrow> only_chars P r"
| "only_chars P (RBackref k) \<longleftrightarrow> False"
| "only_chars P (RNotAhead Q) \<longleftrightarrow> True"
| "only_chars P (RNotBehind Q) \<longleftrightarrow> True"

definition made_of :: "(uchar \<Rightarrow> bool) \<Rightarrow> str \<Rightarrow> nat \<Rightarrow> mstate \<Rightarrow> bool" where
  "made_of P s i x \<longleftrightarrow> (\<forall>m. i \<le> m \<and> m < fst x \<longrightarrow> P (s ! m))"

lemma matches_made_of: "y \<in> set (matches r s x) \<Longrightarrow> only_chars P r \<Longrightarrow> made_of P s i x \<Longrightarrow> made_of P s i y"
proof (induction r arbitrary: x y)
  case (RSeq a b)
  from RSeq.prems(1) obtain z where z: "z \<in> set (matches a s x)" "y \<in> set (matches b s z)" by auto
  have "made_of P s i z" using RSeq.IH(1) [OF z(1)] RSeq.prems(2,3) by simp
  then show ?case using RSeq.IH(2) [OF z(2)] RSeq.prems(2) by simp
next
  case (RAlt a b)
  from RAlt.prems(1) have "y \<in> set (matches a s x) \<or> y \<in> set (matches b s x)" by simp
  then show ?case using RAlt.IH [of y x] RAlt.prems(2,3) by auto
next
  case (RRep r lo hi)
  then show ?case using rep_matches_keep [of "matches r s" "made_of P s i" y "Suc (length s)" lo hi x]
    by (simp del: rep_matches.simps)
next
  case (RGroup k r)
  from RGroup.prems(1) obtain j g where z: "(j, g) \<in> set (matches r s x)" "y = (j, g(k \<mapsto> (fst x, j)))" by auto
  have "made_of P s i (j, g)" using RGroup.IH [OF z(1)] RGroup.prems by simp
  then show ?case by (simp add: z(2) made_of_def)
qed (auto simp: made_of_def less_Suc_eq split: if_splits)

lemma finditer_only_chars:
  assumes "m \<in> set (finditer r s)" "only_chars P r"
  shows "list_all P (slice s (m_start m) (m_end m))"
proof -
  have "made_of P s (m_start m) (m_end m, m_groups m)"
    by (rule matches_made_of [OF finditer_match [OF assms(1)] assms(2)]) (auto simp: made_of_def)
  then show ?thesis by (auto simp: made_of_def list_all_length slice_def)
qed
text \<open>A pattern that matches exactly the runs of digits with a length in \<open>N\<close> finds all of them.\<close>

lemma finditer_runs:
  assumes "\<And>i j. i \<le> length s \<Longrightarrow> (\<exists>g. match_at r s i = Some (j, g)) \<longleftrightarrow> digit_run U s i j \<and> j - i \<in> N"
  shows "m_span ` set (finditer r s) = {(i, j). digit_run U s i j \<and> j - i \<in> N}"
proof (intro equalityI subsetI)
  fix x assume "x \<in> m_span ` set (finditer r s)"
  then obtain m where m: "m \<in> set (finditer r s)" "x = (m_start m, m_end m)" by (auto simp: m_span_def)
  from finditer_bounds [OF m(1)] have "m_start m \<le> length s" "\<exists>g. match_at r s (m_start m) = Some (m_end m, g)" by auto
  from assms [OF this(1), THEN iffD1, OF this(2)] m(2)
  show "x \<in> {(i, j). digit_run U s i j \<and> j - i \<in> N}" by simp
next
  fix x assume "x \<in> {(i, j). digit_run U s i j \<and> j - i \<in> N}"
  then obtain i j where x: "x = (i, j)" "digit_run U s i j" "j - i \<in> N" by blast
  then have i: "i \<le> length s" by (simp add: digit_run_def)
  from assms [OF i, THEN iffD2, OF conjI [OF x(2,3)]] obtain g where "match_at r s i = Some (j, g)" by blast
  then have "\<exists>m \<in> set (finditer r s). m_start m = i \<and> m_end m = j"
  proof (rule finditer_finds [OF _ i])
    fix k' j' g' assume k: "k' < i" "match_at r s k' = Some (j', g')"
    then have "k' \<le> length s" "\<exists>g. match_at r s k' = Some (j', g)" using i by auto
    from assms [OF this(1), THEN iffD1, OF this(2)] have "digit_run U s k' j'" by blast
    then show "k' < j' \<and> j' \<le> i" using digit_run_apart [OF _ x(2) k(1)] by (simp add: digit_run_def)
  qed
  with x(1) show "x \<in> m_span ` set (finditer r s)" by (auto simp: m_span_def)
qed

lemma match_at_iff:
  assumes "\<And>y. y \<in> set (matches r s (i, \<lambda>_. None)) \<longleftrightarrow> (\<exists>j. y = (j, \<lambda>_. None) \<and> Q j)" "\<And>j j'. Q j \<Longrightarrow> Q j' \<Longrightarrow> j = j'"
  shows "(\<exists>g. match_at r s i = Some (j, g)) \<longleftrightarrow> Q j"
proof (cases "matches r s (i, \<lambda>_. None)")
  case Nil
  with assms(1) show ?thesis by (auto simp: match_at_def)
next
  case (Cons y ys)
  then obtain j' where "y = (j', \<lambda>_. None)" "Q j'" using assms(1) [of y] by auto
  with Cons assms(2) [of j j'] show ?thesis by (auto simp: match_at_def)
qed

lemma run_re_finds:
  assumes "0 < lo"
  shows "m_span ` set (finditer (run_re U lo hi) s) = {(i, j). digit_run U s i j \<and> j - i \<in> {lo..hi}}"
proof (rule finditer_runs)
  fix i j assume i: "i \<le> length s"
  have "(\<exists>g. match_at (run_re U lo hi) s i = Some (j, g)) \<longleftrightarrow> digit_run U s i j \<and> lo \<le> j - i \<and> j - i \<le> hi"
    by (rule match_at_iff) (use run_re_matches [OF assms i] digit_run_unique in blast)+
  then show "(\<exists>g. match_at (run_re U lo hi) s i = Some (j, g)) \<longleftrightarrow> digit_run U s i j \<and> j - i \<in> {lo..hi}" by simp
qed

lemmas CODE_RE_finds = run_re_finds [of 3 U 4 for U, folded CODE_RE_def, simplified]

lemma DIGIT_RUN_RE_finds:
  "m_span ` set (finditer (DIGIT_RUN_RE U) s) = {(i, j). digit_run U s i j \<and> j - i \<in> {10, 12}}"
proof (rule finditer_runs)
  fix i j assume i: "i \<le> length s"
  have "(\<exists>g. match_at (DIGIT_RUN_RE U) s i = Some (j, g)) \<longleftrightarrow> digit_run U s i j \<and> (j - i = 10 \<or> j - i = 12)"
  proof (rule match_at_iff)
    show "y \<in> set (matches (DIGIT_RUN_RE U) s (i, \<lambda>_. None)) \<longleftrightarrow>
        (\<exists>j. y = (j, \<lambda>_. None) \<and> digit_run U s i j \<and> (j - i = 10 \<or> j - i = 12))" for y
      unfolding DIGIT_RUN_RE_def match_iffs(2)
      using run_re_matches [OF _ i, of 10 y U 10 "\<lambda>_. None"] run_re_matches [OF _ i, of 12 y U 12 "\<lambda>_. None"]
      by (simp del: matches.simps) (metis le_antisym order_refl)
  qed (use digit_run_unique in blast)
  then show "(\<exists>g. match_at (DIGIT_RUN_RE U) s i = Some (j, g)) \<longleftrightarrow> digit_run U s i j \<and> j - i \<in> {10, 12}" by simp
qed

lemma digit_run_decimals: "digit_run U s i j \<Longrightarrow> list_all (u_isdecimal U) (slice s i j) \<and> length (slice s i j) = j - i \<and> slice s i j \<noteq> []"
  by (auto simp: digit_run_def list_all_length slice_def)

lemma those_Some: "\<forall>x \<in> set xs. x \<noteq> None \<Longrightarrow> \<exists>ys. those xs = Some ys"
  by (induction xs) auto

context unicode_db
begin

lemma decimals_ints: "list_all (u_isdecimal U) s \<Longrightarrow> \<exists>ds. py_ints U s = Some ds"
  unfolding py_ints_def by (rule those_Some) (auto simp: list_all_iff dest: decimal_value)

lemma inn_valid_returns: "list_all (u_isdecimal U) s \<Longrightarrow> \<exists>b. inn_valid U s = Inr b"
  using decimals_ints [of s] by (auto simp: inn_valid_def Let_def)

lemma luhn_valid_returns: "list_all (u_isdecimal U) s \<Longrightarrow> \<exists>b. luhn_valid U s = Inr b"
  using decimals_ints [of s] by (auto simp: luhn_valid_def)

end

lemma m_span_filter:
  "(\<And>m. m \<in> set ms \<Longrightarrow> P m \<longleftrightarrow> Q (m_start m) (m_end m)) \<Longrightarrow>
   m_span ` set (filter P ms) = {(i, j) \<in> m_span ` set ms. Q i j}"
  by (auto simp: m_span_def)

lemma c_span_candidates [simp]: "c_span (span_candidate t n conf md text (m_span m)) = m_span m"
  by (simp add: c_span_def)

section \<open>Properties\<close>

text \<open>
  C29. The INN detector finds exactly the INNs: it never raises, and its candidates are exactly the
  maximal runs of ten or twelve digits whose check digits are valid, wherever they stand in the text.
\<close>

theorem inn_detect_exact:
  assumes "unicode_db U"
  shows "\<exists>cs. inn_detect U text = Inr cs \<and>
    c_span ` set cs = {(i, j). digit_run U text i j \<and> (j - i = 10 \<or> j - i = 12) \<and> inn_valid U (slice text i j) = Inr True}"
proof -
  let ?ms = "finditer (DIGIT_RUN_RE U) text"
  have run: "digit_run U text (m_start m) (m_end m)" if "m \<in> set ?ms" for m
  proof -
    have "m_span m \<in> {(i, j). digit_run U text i j \<and> j - i \<in> {10, 12}}"
      unfolding DIGIT_RUN_RE_finds [symmetric] using that by (rule imageI)
    then show ?thesis by (simp add: m_span_def)
  qed
  have "\<forall>m \<in> set ?ms. \<exists>b. inn_valid U (match_text text m) = Inr b"
  proof
    fix m assume "m \<in> set ?ms"
    from unicode_db.inn_valid_returns [OF assms digit_run_decimals [OF run [OF this], THEN conjunct1]]
    show "\<exists>b. inn_valid U (match_text text m) = Inr b" unfolding match_text_def .
  qed
  from filter_result_total [OF this]
  obtain ms where ms: "filter_result (\<lambda>m. inn_valid U (match_text text m)) ?ms = Inr ms" by (elim exE)
  have "m_span ` set ms = {(i, j) \<in> m_span ` set ?ms. inn_valid U (slice text i j) = Inr True}"
    unfolding filter_result_Inr [OF ms] by (intro m_span_filter) (simp add: match_text_def)
  also have "\<dots> = {(i, j). digit_run U text i j \<and> (j - i = 10 \<or> j - i = 12) \<and> inn_valid U (slice text i j) = Inr True}"
    unfolding DIGIT_RUN_RE_finds by simp
  finally show ?thesis using ms by (simp add: inn_detect_def image_image)
qed

abbreviation sample_inn_text :: str where
  "sample_inn_text \<equiv> [32, 55, 55, 48, 55, 48, 56, 51, 56, 57, 51, 46]"

lemma sample_inn_run: "digit_run ucd_ru sample_inn_text 1 11"
proof -
  have "\<forall>m \<in> set [1..<11]. u_isdecimal ucd_ru (sample_inn_text ! m)"
    by (simp add: upt_rec ucd_ru_def ascii_digit_def)
  then have "\<forall>m. 1 \<le> m \<and> m < 11 \<longrightarrow> u_isdecimal ucd_ru (sample_inn_text ! m)"
    by (simp only: set_upt atLeastLessThan_iff Ball_def)
  then show ?thesis unfolding digit_run_def
    by (intro conjI) (simp_all only:, simp_all add: ucd_ru_def ascii_digit_def)
qed

lemma sample_inn_valid: "inn_valid ucd_ru (slice sample_inn_text 1 11) = Inr True"
  by (simp add: inn_valid_def slice_def str_isdigit_def py_ints_def ucd_ru_def ascii_digit_def weighted_sum_def inn10_weights_def)

lemma inn_detect_exact_witness:
  "\<exists>cs. inn_detect ucd_ru [32, 55, 55, 48, 55, 48, 56, 51, 56, 57, 51, 46] = Inr cs \<and> (1, 11) \<in> c_span ` set cs"
proof -
  have "(1, 11) \<in> {(i, j). digit_run ucd_ru sample_inn_text i j \<and> (j - i = 10 \<or> j - i = 12) \<and>
      inn_valid ucd_ru (slice sample_inn_text i j) = Inr True}"
    using sample_inn_run sample_inn_valid by simp
  with inn_detect_exact [OF ucd_ru.unicode_db_axioms, of sample_inn_text] show ?thesis by metis
qed

text \<open>
  A bare code is personal only next to its keyword: the CVV and PIN detectors propose exactly the
  maximal runs of three and of four digits that have one of their keywords within 25 characters.
\<close>

lemma code_detectors_exact:
  "(\<exists>cs. cvv_detect U text = Inr cs \<and> c_span ` set cs = {(i, j). digit_run U text i j \<and> j - i = 3 \<and>
      has_any_keyword (u_lower U (window text i j 25)) CVV_KEYWORDS}) \<and>
   (\<exists>cs. pin_detect U text = Inr cs \<and> c_span ` set cs = {(i, j). digit_run U text i j \<and> j - i = 4 \<and>
      has_any_keyword (u_lower U (window text i j 25)) PIN_KEYWORDS})"
proof -
  have "m_span ` set (filter (\<lambda>m. length (match_text text m) = n \<and> near_keyword U kws 25 text m) (finditer (CODE_RE U) text)) =
      {(i, j). digit_run U text i j \<and> j - i = n \<and> has_any_keyword (u_lower U (window text i j 25)) kws}"
    if "n \<in> {3..4}" for n kws
  proof -
    have len: "length (match_text text m) = m_end m - m_start m" if "m \<in> set (finditer (CODE_RE U) text)" for m
      using finditer_bounds [OF that] by (auto simp: match_text_def)
    have "m_span ` set (filter (\<lambda>m. length (match_text text m) = n \<and> near_keyword U kws 25 text m) (finditer (CODE_RE U) text)) =
        {(i, j) \<in> m_span ` set (finditer (CODE_RE U) text). j - i = n \<and> has_any_keyword (u_lower U (window text i j 25)) kws}"
      by (rule m_span_filter) (simp add: len near_keyword_def)
    also have "\<dots> = {(i, j). digit_run U text i j \<and> j - i = n \<and> has_any_keyword (u_lower U (window text i j 25)) kws}"
      unfolding CODE_RE_finds using that by fastforce
    finally show ?thesis .
  qed
  from this [of 3 CVV_KEYWORDS] this [of 4 PIN_KEYWORDS] show ?thesis
    by (simp add: cvv_detect_def pin_detect_def image_image)
qed
text \<open>
  The card detector never raises, and whatever it proposes is a card number: digits with single
  spaces or hyphens, 13 to 19 of them, with a valid Luhn checksum, recorded without separators.
\<close>

lemma card_detect_luhn:
  assumes "unicode_db U"
  shows "\<exists>cs. card_detect U text = Inr cs \<and> (\<forall>c \<in> set cs.
    list_all (\<lambda>ch. u_isdecimal U ch \<or> ch = 32 \<or> ch = 45) (c_value c) \<and>
    md_normalized (c_metadata c) = Some (card_digits (c_value c)) \<and>
    13 \<le> length (card_digits (c_value c)) \<and> length (card_digits (c_value c)) \<le> 19 \<and>
    luhn_valid U (card_digits (c_value c)) = Inr True)"
proof -
  let ?ms = "finditer (CARD_RE U) text"
  let ?P = "\<lambda>m. let digits = card_digits (match_text text m) in
      if 13 \<le> length digits \<and> length digits \<le> 19 then luhn_valid U digits else Inr False"
  have chars: "list_all (\<lambda>ch. u_isdecimal U ch \<or> ch = 32 \<or> ch = 45) (match_text text m)" if "m \<in> set ?ms" for m
    unfolding match_text_def by (rule finditer_only_chars [OF that]) (auto simp: CARD_RE_def)
  have "\<forall>m \<in> set ?ms. \<exists>b. ?P m = Inr b"
  proof
    fix m assume "m \<in> set ?ms"
    from chars [OF this] have "list_all (u_isdecimal U) (card_digits (match_text text m))"
      by (auto simp: list_all_iff card_digits_def)
    from unicode_db.luhn_valid_returns [OF assms this] show "\<exists>b. ?P m = Inr b" by (auto simp: Let_def)
  qed
  from filter_result_total [OF this] obtain ms where ms: "filter_result ?P ?ms = Inr ms" by (elim exE)
  have "m \<in> set ms \<Longrightarrow> m \<in> set ?ms \<and> ?P m = Inr True" for m
    using filter_result_Inr [OF ms] by simp
  then have "13 \<le> length (card_digits (match_text text m)) \<and> length (card_digits (match_text text m)) \<le> 19 \<and>
      luhn_valid U (card_digits (match_text text m)) = Inr True \<and>
      list_all (\<lambda>ch. u_isdecimal U ch \<or> ch = 32 \<or> ch = 45) (match_text text m)" if "m \<in> set ms" for m
    using that chars [of m] by (fastforce simp: Let_def split: if_splits)
  with ms show ?thesis by (auto simp: card_detect_def match_text_def m_span_def)
qed

end
