(* ===== verification/Fio.thy ===== *)
theory Fio
  imports Detectors
begin

text \<open>
  \<^verbatim>\<open>detectors/fio.py\<close>: the detector of names. A name is a run of two or three capitalised words that
  the dictionary knows as names, or a surname with initials. The morphological analyser is the
  parameter \<open>A\<close> of the theory of morphology. The lemmas show that every candidate is well formed and
  that its components are spans of the mention in order, with their surfaces, so that a surrogate
  rendered like the mention replaces exactly the components.
\<close>

definition WORD_RE :: re where
  "WORD_RE = re_hyphenated"

text \<open>One initial with its dot and possibly a space.\<close>

definition re_initial :: "ucd \<Rightarrow> re" where
  "re_initial U = RSeqs [re_upper, re_lit 46, ROpt (re_space U)]"

definition INITIALS_THEN_SURNAME_RE :: "ucd \<Rightarrow> re" where
  "INITIALS_THEN_SURNAME_RE U = RSeqs
     [RNotBehind (\<lambda>c. ru_upper c \<or> ru_lower c \<or> c = 46), RGroup 1 (RRep (re_initial U) 1 (Some 2)), RGroup 2 re_hyphenated]"

definition SURNAME_THEN_INITIALS_RE :: "ucd \<Rightarrow> re" where
  "SURNAME_THEN_INITIALS_RE U = RSeqs
     [RGroup 1 re_hyphenated, re_space U, RGroup 2 (RTimes (re_initial U) 2)]"

definition INITIAL_RE :: re where
  "INITIAL_RE = RSeq re_upper (re_lit 46)"

definition PUBLIC_FIGURE_SURNAMES :: "str list" where
  "PUBLIC_FIGURE_SURNAMES =
    map ru [''puSkin'', ''tolstoj'', ''Cexov'', ''mendeleev'', ''Cajkovskij'', ''gagarin'',
     ''dostoevskij'', ''esenin'', ''lermontov'', ''lomonosov'', ''ciolkovskij'', ''korolEv'',
     ''suvorov'', ''kutuzov'', ''wukov'', ''raxmaninov'', ''SostakoviC'']"

definition MAX_RUN :: nat where
  "MAX_RUN = 3"

record name_token =
  nt_start :: nat
  nt_end :: nat
  nt_word :: str
  nt_role :: grammeme
  nt_parse :: parse

definition name_tokens :: "analyzer \<Rightarrow> str \<Rightarrow> name_token list" where
  "name_tokens A text =
     concat (map (\<lambda>m. case classify_name_word A (match_text text m) of
         None \<Rightarrow> []
       | Some (role, parse) \<Rightarrow> [\<lparr>nt_start = m_start m, nt_end = m_end m, nt_word = match_text text m,
                               nt_role = role, nt_parse = parse\<rparr>]) (finditer WORD_RE text))"

text \<open>\<open>_GAP_RE.match(s)\<close>: white space only, at least one character.\<close>

definition gap_match :: "ucd \<Rightarrow> str \<Rightarrow> bool" where
  "gap_match U s \<longleftrightarrow> s \<noteq> [] \<and> list_all (u_isspace U) s"

text \<open>\<open>_collect_run\<close> on the tokens after the first; it returns the run and the tokens left.\<close>

fun collect_run :: "ucd \<Rightarrow> str \<Rightarrow> name_token list \<Rightarrow> name_token list \<Rightarrow> name_token list \<times> name_token list" where
  "collect_run U text run [] = (run, [])"
| "collect_run U text run (t # ts) =
     (if length run < MAX_RUN then
        (let prev_end = nt_end (last run); gap_start = nt_start t in
         if prev_end \<noteq> gap_start \<and> \<not> gap_match U (slice text prev_end gap_start) then (run, t # ts)
         else collect_run U text (run @ [t]) ts)
      else (run, t # ts))"

lemma collect_run_append: "collect_run U text run ts = (run', rest) \<Longrightarrow> \<exists>more. run' = run @ more \<and> ts = more @ rest"
proof (induction ts arbitrary: run)
  case Nil
  then have "run' = run" "rest = []" by simp_all
  then show ?case by blast
next
  case (Cons t ts)
  define go where "go \<longleftrightarrow> length run < MAX_RUN \<and> (nt_end (last run) = nt_start t \<or>
    gap_match U (slice text (nt_end (last run)) (nt_start t)))"
  have step: "collect_run U text run (t # ts) = (if go then collect_run U text (run @ [t]) ts else (run, t # ts))"
    unfolding go_def collect_run.simps(2) Let_def by auto
  show ?case
  proof (cases go)
    case True
    with Cons.prems have "collect_run U text (run @ [t]) ts = (run', rest)" by (simp only: step if_True)
    from Cons.IH [OF this] obtain more where "run' = (run @ [t]) @ more" "ts = more @ rest" by blast
    then have "run' = run @ (t # more) \<and> t # ts = (t # more) @ rest" by simp
    then show ?thesis by blast
  next
    case False
    with Cons.prems have "run' = run @ [] \<and> t # ts = [] @ rest" by (simp only: step if_False) simp
    then show ?thesis by blast
  qed
qed

lemma collect_run_shorter: "collect_run U text run ts = (run', rest) \<Longrightarrow> length rest \<le> length ts"
  by (auto dest!: collect_run_append)

definition run_gender :: "name_token list \<Rightarrow> str" where
  "run_gender run =
     (let found = (\<lambda>wanted. find (\<lambda>t. (case wanted of None \<Rightarrow> True | Some r \<Rightarrow> nt_role t = r) \<and> truthy (pt_gender (nt_parse t))) run)
      in case List.map_filter found [Some GPatr, Some GName, None] of
           t # _ \<Rightarrow> the (pt_gender (nt_parse t))
         | [] \<Rightarrow> masc)"

definition run_case :: "name_token list \<Rightarrow> str" where
  "run_case run =
     (let found = (\<lambda>wanted. find (\<lambda>t. nt_role t = wanted \<and> truthy (pt_case (nt_parse t))) run)
      in case List.map_filter found [GPatr, GSurn, GName] of
           t # _ \<Rightarrow> the (pt_case (nt_parse t))
         | [] \<Rightarrow> nomn)"

text \<open>The metadata of a name candidate.\<close>

definition name_metadata :: "ucd \<Rightarrow> str \<Rightarrow> str \<Rightarrow> str \<Rightarrow> bool \<Rightarrow> name_component list \<Rightarrow> metadata" where
  "name_metadata U gram_case gender nominal_form known comps =
     no_metadata\<lparr>md_gram_case := Some gram_case, md_gender := Some gender, md_nominal_form := Some nominal_form,
       md_identity_key := Some (asc ''person:'' @ u_lower U nominal_form), md_known_public_figure := known,
       md_name_parts := Some comps, md_alias_type := Some (alias_type_for comps)\<rparr>"

definition word_component :: "nat \<Rightarrow> nat \<Rightarrow> str \<Rightarrow> role option \<Rightarrow> str \<Rightarrow> name_component" where
  "word_component i j surface role normalized =
     \<lparr>nc_kind = WordComp, nc_surface = surface, nc_offset_start = i, nc_offset_end = j, nc_role = role,
      nc_normalized = Some normalized, nc_letter = None\<rparr>"

definition run_components :: "ucd \<Rightarrow> analyzer \<Rightarrow> str \<Rightarrow> name_token list \<Rightarrow> name_component list" where
  "run_components U A gender run =
     (let start = nt_start (hd run);
          roles = assign_roles (map (\<lambda>t. Some (nt_role t)) run) (length run)
      in map (\<lambda>(k, t). word_component (nt_start t - start) (nt_end t - start) (nt_word t)
                (if k < length roles then roles ! k else None)
                (u_lower U (normalize_to_nominative U A (nt_word t) (Some gender)))) (enumerate 0 run))"

definition build_candidate :: "ucd \<Rightarrow> analyzer \<Rightarrow> str \<Rightarrow> name_token list \<Rightarrow> candidate" where
  "build_candidate U A text run =
     (let gender = run_gender run;
          nominal_words = map (\<lambda>t. normalize_to_nominative U A (nt_word t) (Some gender)) run;
          known = list_ex (\<lambda>w. u_lower U w \<in> set PUBLIC_FIGURE_SURNAMES) nominal_words
      in span_candidate FULL_NAME ''fio'' (if length run = 3 then 85 / 100 else 75 / 100)
           (name_metadata U (run_case run) gender (str_join (asc '' '') nominal_words) known (run_components U A gender run))
           text (nt_start (hd run), nt_end (last run)))"

function run_candidates :: "ucd \<Rightarrow> analyzer \<Rightarrow> str \<Rightarrow> name_token list \<Rightarrow> candidate list" where
  "run_candidates U A text [] = []"
| "run_candidates U A text (t # ts) =
     (let (run, rest) = collect_run U text [t] ts in
      if length run \<ge> 2 then build_candidate U A text run # run_candidates U A text rest
      else run_candidates U A text ts)"
  by pat_completeness auto
termination
  by (relation "measure (\<lambda>(U, A, text, ts). length ts)") (auto dest!: collect_run_shorter [OF sym])

section \<open>Initials\<close>

fun trim_end :: "str \<Rightarrow> nat \<Rightarrow> nat \<Rightarrow> nat" where
  "trim_end text start 0 = 0"
| "trim_end text start (Suc n) = (if Suc n > start \<and> text ! n = 32 then trim_end text start n else Suc n)"

definition initial_components :: "nat \<Rightarrow> str \<Rightarrow> str \<Rightarrow> name_component list" where
  "initial_components base value initials =
     concat (map (\<lambda>(k, im).
         let comp_start = base + m_start im; surface = match_text initials im in
         if comp_start + length surface > length value then []
         else [\<lparr>nc_kind = InitialComp, nc_surface = surface, nc_offset_start = comp_start,
                nc_offset_end = comp_start + length surface,
                nc_role = (if k = 0 then Some First else if k = 1 then Some Patronymic else None),
                nc_normalized = None, nc_letter = Some (take 1 surface)\<rparr>])
       (enumerate 0 (finditer INITIAL_RE initials)))"

definition initials_candidate :: "ucd \<Rightarrow> analyzer \<Rightarrow> str \<Rightarrow> re_match \<Rightarrow> span \<Rightarrow> span \<Rightarrow> candidate list" where
  "initials_candidate U A text m surname_span initials_span =
     (let surname = slice text (fst surname_span) (snd surname_span);
          initials = slice text (fst initials_span) (snd initials_span);
          start = m_start m
      in case classify_name_word A surname of
           Some (GSurn, parse) \<Rightarrow>
             (let gender = (if pt_gender parse = Some masc \<or> pt_gender parse = Some femn then pt_gender parse else None);
                  gram_case = (if truthy (pt_case parse) then the (pt_case parse) else or_else (detect_case A surname) nomn);
                  end' = trim_end text start (m_end m);
                  value = slice text start end';
                  nominal_surname = normalize_to_nominative U A surname gender;
                  comps = sort_key nc_offset_start
                    (word_component (fst surname_span - start) (fst surname_span - start + length surname) surname
                       (Some Surname) (u_lower U nominal_surname) #
                     initial_components (fst initials_span - start) value initials)
              in [span_candidate FULL_NAME ''fio'' (7 / 10)
                    (name_metadata U gram_case (or_else gender masc) nominal_surname
                       (u_lower U nominal_surname \<in> set PUBLIC_FIGURE_SURNAMES) comps)
                    text (start, end')])
         | _ \<Rightarrow> [])"

definition detect_initials_forms :: "ucd \<Rightarrow> analyzer \<Rightarrow> str \<Rightarrow> candidate list" where
  "detect_initials_forms U A text =
     concat (map (\<lambda>m. initials_candidate U A text m (group_span m 2) (group_span m 1)) (finditer (INITIALS_THEN_SURNAME_RE U) text)) @
     concat (map (\<lambda>m. initials_candidate U A text m (group_span m 1) (group_span m 2)) (finditer (SURNAME_THEN_INITIALS_RE U) text))"

definition fio_detect :: "ucd \<Rightarrow> analyzer \<Rightarrow> str \<Rightarrow> candidate list result" where
  "fio_detect U A text = Inr (run_candidates U A text (name_tokens A text) @ detect_initials_forms U A text)"

section \<open>Tokens and runs\<close>

definition tokens_ok :: "str \<Rightarrow> name_token list \<Rightarrow> bool" where
  "tokens_ok text ts \<longleftrightarrow> sorted_wrt (\<lambda>a b. nt_end a \<le> nt_start b) ts \<and>
     (\<forall>t \<in> set ts. nt_start t < nt_end t \<and> nt_end t \<le> length text \<and> nt_word t = slice text (nt_start t) (nt_end t))"

lemma tokens_ok_append: "tokens_ok text (xs @ ys) \<Longrightarrow> tokens_ok text xs \<and> tokens_ok text ys"
  by (auto simp: tokens_ok_def sorted_wrt_append)

lemma tokens_ok_Cons: "tokens_ok text (t # ts) \<Longrightarrow> tokens_ok text ts"
  by (simp add: tokens_ok_def)

lemma WORD_RE_min: "0 < min_len WORD_RE"
  by (simp add: WORD_RE_def re_hyphenated_def re_capital_word_def)

lemma name_tokens_ok: "tokens_ok text (name_tokens A text)"
proof -
  have "sorted_wrt (\<lambda>a b. m_end a \<le> m_start b) ms \<Longrightarrow> set ms \<subseteq> set (finditer WORD_RE text) \<Longrightarrow>
      tokens_ok text (concat (map (\<lambda>m. case classify_name_word A (match_text text m) of
         None \<Rightarrow> []
       | Some (role, parse) \<Rightarrow> [\<lparr>nt_start = m_start m, nt_end = m_end m, nt_word = match_text text m,
                               nt_role = role, nt_parse = parse\<rparr>]) ms))" for ms
  proof (induction ms)
    case Nil
    show ?case by (simp add: tokens_ok_def)
  next
    case (Cons m ms)
    have "m_start m < m_end m \<and> m_end m \<le> length text"
      using finditer_span [of m WORD_RE "text", OF _ WORD_RE_min] Cons.prems(2) by (auto simp: m_span_def)
    with Cons show ?case
      by (cases "classify_name_word A (match_text text m)") (auto simp: tokens_ok_def match_text_def split: option.splits)
  qed
  from this [OF finditer_sorted] show ?thesis by (simp add: name_tokens_def)
qed

lemma tokens_ok_last:
  assumes "tokens_ok text (t # ts)"
  shows "nt_start t < nt_end (last (t # ts)) \<and> nt_end (last (t # ts)) \<le> length text"
proof (cases "ts = []")
  case False
  then have l: "last (t # ts) \<in> set ts" by simp
  with assms have "nt_end t \<le> nt_start (last (t # ts))" "nt_start (last (t # ts)) < nt_end (last (t # ts))"
    "nt_end (last (t # ts)) \<le> length text" "nt_start t < nt_end t" by (simp_all add: tokens_ok_def)
  then show ?thesis by linarith
qed (use assms in \<open>simp add: tokens_ok_def\<close>)

text \<open>The runs that become candidates: two or three tokens in order.\<close>

lemma collect_run_length:
  "collect_run U text run ts = (run', rest) \<Longrightarrow> length run \<le> MAX_RUN \<Longrightarrow> length run' \<le> MAX_RUN"
proof (induction U "text" run ts rule: collect_run.induct)
  case (2 U "text" run t ts)
  show ?case
  proof (cases "length run < MAX_RUN \<and> \<not> (nt_end (last run) \<noteq> nt_start t \<and>
      \<not> gap_match U (slice text (nt_end (last run)) (nt_start t)))")
    case True
    then have "collect_run U text run (t # ts) = collect_run U text (run @ [t]) ts" by (auto simp: Let_def)
    with 2 True show ?thesis by auto
  next
    case False
    then have "collect_run U text run (t # ts) = (run, t # ts)" by (auto simp: Let_def)
    with 2 show ?thesis by simp
  qed
qed simp

lemma run_candidates_run:
  assumes "c \<in> set (run_candidates U A text ts)" "tokens_ok text ts"
  shows "\<exists>run. c = build_candidate U A text run \<and> tokens_ok text run \<and> (length run = 2 \<or> length run = 3)"
  using assms
proof (induction U A "text" ts rule: run_candidates.induct)
  case (2 U A "text" t ts)
  obtain run rest where r: "collect_run U text [t] ts = (run, rest)" by force
  obtain more where m: "run = [t] @ more" "ts = more @ rest" using collect_run_append [OF r] by blast
  have ok: "tokens_ok text run" "tokens_ok text rest" "tokens_ok text ts"
    using tokens_ok_append [of "text" "[t] @ more" rest] tokens_ok_Cons "2.prems"(2) m by auto
  have len: "length run \<le> 3" using collect_run_length [OF r] by (simp add: MAX_RUN_def)
  show ?case
  proof (cases "2 \<le> length run")
    case True
    then have "run_candidates U A text (t # ts) = build_candidate U A text run # run_candidates U A text rest"
      by (simp add: r)
    with "2.prems"(1) have "c = build_candidate U A text run \<or> c \<in> set (run_candidates U A text rest)"
      by (simp del: run_candidates.simps)
    then consider "c = build_candidate U A text run" | "c \<in> set (run_candidates U A text rest)" by blast
    then show ?thesis
    proof cases
      case 1
      moreover have "length run = 2 \<or> length run = 3" using True len by linarith
      ultimately show ?thesis using ok(1) by blast
    next
      case 2
      from "2.IH"(1) [OF r [symmetric] refl True this ok(2)] show ?thesis .
    qed
  next
    case False
    then have "run_candidates U A text (t # ts) = run_candidates U A text ts" by (simp add: r)
    with "2.prems"(1) "2.IH"(2) [OF r [symmetric] refl False _ ok(3)] show ?thesis
      by (simp del: run_candidates.simps)
  qed
qed simp

section \<open>Components of a mention\<close>

text \<open>The components of a mention: inside it, in order, without overlap, and with their surfaces.\<close>

definition parts_ok :: "str \<Rightarrow> name_component list \<Rightarrow> bool" where
  "parts_ok v comps \<longleftrightarrow>
     span_chain (length v) 0 (map (\<lambda>c. (nc_offset_start c, nc_offset_end c)) (sort_key nc_offset_start comps)) \<and>
     (\<forall>c \<in> set comps. nc_offset_start c < nc_offset_end c \<and> nc_surface c = slice v (nc_offset_start c) (nc_offset_end c))"

lemma run_components_spans:
  "map (\<lambda>c. (nc_offset_start c, nc_offset_end c)) (run_components U A gender run) =
   map (\<lambda>t. (nt_start t - nt_start (hd run), nt_end t - nt_start (hd run))) run"
  by (rule nth_equalityI) (simp_all add: run_components_def Let_def word_component_def nth_enumerate_eq)

lemma tokens_chain:
  assumes "tokens_ok text ts" "\<forall>t \<in> set ts. start \<le> nt_start t \<and> cursor \<le> nt_start t - start \<and> nt_end t - start \<le> n" "cursor \<le> n"
  shows "span_chain n cursor (map (\<lambda>t. (nt_start t - start, nt_end t - start)) ts)"
  using assms
proof (induction ts arbitrary: cursor)
  case (Cons t ts)
  then have "nt_end t \<le> nt_start u" if "u \<in> set ts" for u using that by (simp add: tokens_ok_def)
  then have "\<forall>u \<in> set ts. start \<le> nt_start u \<and> nt_end t - start \<le> nt_start u - start \<and> nt_end u - start \<le> n"
    using Cons.prems(2) by (auto simp: diff_le_mono)
  from Cons.IH [OF tokens_ok_Cons [OF Cons.prems(1)] this] Cons.prems show ?case by (simp add: tokens_ok_def diff_le_mono)
qed simp

lemma tokens_ok_le_last: "tokens_ok text ts \<Longrightarrow> u \<in> set ts \<Longrightarrow> nt_end u \<le> nt_end (last ts)"
proof (induction ts)
  case (Cons t ts)
  show ?case
  proof (cases "ts = []")
    case False
    then have "nt_end t \<le> nt_start (last ts)" "nt_start (last ts) < nt_end (last ts)"
      using Cons.prems(1) by (simp_all add: tokens_ok_def)
    with False Cons.prems Cons.IH [OF tokens_ok_Cons [OF Cons.prems(1)]] show ?thesis by auto
  qed (use Cons.prems in simp)
qed simp

lemma slice_slice: "j \<le> e - s \<Longrightarrow> slice (slice xs s e) i j = slice xs (s + i) (s + j)"
  by (simp add: slice_def drop_take min_def) (metis add.commute)

lemma run_components_ok:
  assumes "tokens_ok text run" "run \<noteq> []"
  shows "parts_ok (slice text (nt_start (hd run)) (nt_end (last run))) (run_components U A gender run)"
proof -
  let ?s = "nt_start (hd run)" and ?e = "nt_end (last run)"
  obtain t ts where run: "run = t # ts" using assms(2) by (cases run) auto
  have b: "\<forall>u \<in> set run. ?s \<le> nt_start u \<and> nt_end u \<le> ?e"
  proof
    fix u assume u: "u \<in> set run"
    with assms(1) run have "nt_start t \<le> nt_start u" by (fastforce simp: tokens_ok_def)
    with tokens_ok_le_last [OF assms(1) u] run show "?s \<le> nt_start u \<and> nt_end u \<le> ?e" by simp
  qed
  have "?s < ?e" "?e \<le> length text" using tokens_ok_last [of "text" t ts] assms(1) run by simp_all
  then have len: "length (slice text ?s ?e) = ?e - ?s" by simp
  have chain: "span_chain (?e - ?s) 0 (map (\<lambda>c. (nc_offset_start c, nc_offset_end c)) (run_components U A gender run))"
    unfolding run_components_spans by (rule tokens_chain [OF assms(1)]) (use b in \<open>auto simp: diff_le_mono\<close>)
  then have "sort_key nc_offset_start (run_components U A gender run) = run_components U A gender run"
    by (intro sort_key_id_if_sorted) (use span_chain_sorted [OF chain] in \<open>simp add: comp_def\<close>)
  moreover have "nc_offset_start c < nc_offset_end c \<and> nc_surface c = slice (slice text ?s ?e) (nc_offset_start c) (nc_offset_end c)"
    if "c \<in> set (run_components U A gender run)" for c
  proof -
    from that obtain a where a: "a < length run" "nc_offset_start c = nt_start (run ! a) - ?s"
      "nc_offset_end c = nt_end (run ! a) - ?s" "nc_surface c = nt_word (run ! a)"
      by (auto simp: run_components_def Let_def word_component_def in_set_enumerate_eq)
    define u where "u = run ! a"
    from a have u: "u \<in> set run" "nc_offset_start c = nt_start u - ?s" "nc_offset_end c = nt_end u - ?s"
      "nc_surface c = nt_word u" by (simp_all add: u_def)
    with b assms(1) have "?s \<le> nt_start u" "nt_start u < nt_end u" "nt_end u \<le> ?e" "nt_word u = slice text (nt_start u) (nt_end u)"
      by (auto simp: tokens_ok_def)
    with u show ?thesis by (simp add: slice_slice diff_less_mono)
  qed
  ultimately show ?thesis using chain len by (simp add: parts_ok_def)
qed

section \<open>A surname with initials\<close>

primrec groupless :: "re \<Rightarrow> bool" where
  "groupless (RChar P) \<longleftrightarrow> True"
| "groupless REps \<longleftrightarrow> True"
| "groupless (RSeq a b) \<longleftrightarrow> groupless a \<and> groupless b"
| "groupless (RAlt a b) \<longleftrightarrow> groupless a \<and> groupless b"
| "groupless (RRep r lo hi) \<longleftrightarrow> groupless r"
| "groupless (RGroup k r) \<longleftrightarrow> False"
| "groupless (RBackref k) \<longleftrightarrow> True"
| "groupless (RNotAhead P) \<longleftrightarrow> True"
| "groupless (RNotBehind P) \<longleftrightarrow> True"

lemma matches_groupless: "y \<in> set (matches r s x) \<Longrightarrow> groupless r \<Longrightarrow> snd y = snd x"
proof (induction r arbitrary: x y)
  case (RSeq a b)
  from RSeq.prems(1) obtain z where z: "z \<in> set (matches a s x)" "y \<in> set (matches b s z)" by auto
  then show ?case using RSeq.IH(1) [OF z(1)] RSeq.IH(2) [OF z(2)] RSeq.prems(2) by simp
next
  case (RAlt a b)
  from RAlt.prems(1) have "y \<in> set (matches a s x) \<or> y \<in> set (matches b s x)" by simp
  then show ?case using RAlt.IH [of y x] RAlt.prems(2) by auto
next
  case (RRep r lo hi)
  then have y: "y \<in> set (rep_matches (matches r s) (Suc (length s)) lo hi x)" "groupless r" by (simp_all del: rep_matches.simps)
  have "snd y = snd x"
    by (rule rep_matches_keep [of "matches r s" "\<lambda>z. snd z = snd x", OF _ y(1)]) (use RRep.IH y(2) in auto)
  then show ?case .
qed (auto split: if_splits option.splits)

text \<open>The first character of a match.\<close>

primrec starts_with_class :: "(uchar \<Rightarrow> bool) \<Rightarrow> re \<Rightarrow> bool" where
  "starts_with_class P (RChar Q) \<longleftrightarrow> (\<forall>c. Q c \<longrightarrow> P c)"
| "starts_with_class P REps \<longleftrightarrow> False"
| "starts_with_class P (RSeq a b) \<longleftrightarrow> starts_with_class P a"
| "starts_with_class P (RAlt a b) \<longleftrightarrow> starts_with_class P a \<and> starts_with_class P b"
| "starts_with_class P (RRep r lo hi) \<longleftrightarrow> 0 < lo \<and> starts_with_class P r"
| "starts_with_class P (RGroup k r) \<longleftrightarrow> starts_with_class P r"
| "starts_with_class P (RBackref k) \<longleftrightarrow> False"
| "starts_with_class P (RNotAhead Q) \<longleftrightarrow> False"
| "starts_with_class P (RNotBehind Q) \<longleftrightarrow> False"

lemma matches_first: "y \<in> set (matches r s x) \<Longrightarrow> starts_with_class P r \<Longrightarrow> fst x < length s \<and> P (s ! fst x)"
proof (induction r arbitrary: x y)
  case (RSeq a b)
  from RSeq.prems(1) obtain z where "z \<in> set (matches a s x)" by auto
  with RSeq.IH(1) [of z x] RSeq.prems(2) show ?case by simp
next
  case (RAlt a b)
  from RAlt.prems(1) have "y \<in> set (matches a s x) \<or> y \<in> set (matches b s x)" by simp
  then show ?case using RAlt.IH [of y x] RAlt.prems(2) by auto
next
  case (RRep r lo hi)
  then have "0 < lo" "y \<in> set (rep_matches (matches r s) (Suc (length s)) lo hi x)" by (simp_all del: rep_matches.simps)
  from rep_matches_first [OF this(2,1)] obtain z where "z \<in> set (matches r s x)" by blast
  with RRep.IH [of z x] RRep.prems(2) show ?case by simp
next
  case (RGroup k r)
  from RGroup.prems(1) obtain z where "z \<in> set (matches r s x)" by auto
  with RGroup.IH [of z x] RGroup.prems(2) show ?case by simp
qed (auto split: if_splits)

lemma group_matches:
  "y \<in> set (matches (RGroup k r) s (i, g)) \<Longrightarrow> groupless r \<Longrightarrow>
   \<exists>j. (j, g) \<in> set (matches r s (i, g)) \<and> y = (j, g(k \<mapsto> (i, j)))"
  using matches_groupless [of _ r s "(i, g)"] by fastforce

lemma hyphenated_facts:
  "groupless re_hyphenated" "starts_with_class ru_upper re_hyphenated" "0 < min_len re_hyphenated"
  "only_chars (\<lambda>c. ru_upper c \<or> ru_lower c \<or> c = 45) re_hyphenated"
  by (auto simp: re_hyphenated_def re_capital_word_def is_char_def)

lemma initials_facts:
  "groupless (RRep (re_initial U) lo hi)" "0 < lo \<Longrightarrow> starts_with_class ru_upper (RRep (re_initial U) lo hi)"
  "0 < lo \<Longrightarrow> 0 < min_len (RRep (re_initial U) lo hi)"
  by (auto simp: re_initial_def)

lemma seq_matchesE:
  assumes "y \<in> set (matches (RSeq a b) s x)"
  obtains z where "z \<in> set (matches a s x)" "y \<in> set (matches b s z)"
  using assms by auto

lemma not_behind_match: "z \<in> set (matches (RNotBehind P) s x) \<Longrightarrow> z = x"
  by (cases x) (simp split: if_splits)

lemma char_match: "z \<in> set (matches (RChar P) s x) \<Longrightarrow> z = (Suc (fst x), snd x)"
  by (cases x) (simp split: if_splits)

lemma initials_first_parts:
  assumes "m \<in> set (finditer (INITIALS_THEN_SURNAME_RE U) text)"
  obtains j where "group_span m 1 = (m_start m, j)" "group_span m 2 = (j, m_end m)" "m_start m < j" "j < m_end m"
    "m_end m \<le> length text" "text ! m_start m \<noteq> 32" "text ! (m_end m - 1) \<noteq> 32"
proof -
  let ?r1 = "RRep (re_initial U) 1 (Some 2)"
  obtain z0 where z0: "z0 \<in> set (matches (RNotBehind (\<lambda>c. ru_upper c \<or> ru_lower c \<or> c = 46)) text (m_start m, \<lambda>_. None))"
    "(m_end m, m_groups m) \<in> set (matches (RSeq (RGroup 1 ?r1) (RGroup 2 re_hyphenated)) text z0)"
    using finditer_match [OF assms] unfolding INITIALS_THEN_SURNAME_RE_def RSeqs.simps by (rule seq_matchesE)
  obtain z where z: "z \<in> set (matches (RGroup 1 ?r1) text (m_start m, \<lambda>_. None))"
    "(m_end m, m_groups m) \<in> set (matches (RGroup 2 re_hyphenated) text z)"
    using z0(2) unfolding not_behind_match [OF z0(1)] by (rule seq_matchesE)
  obtain j where j: "(j, \<lambda>_. None) \<in> set (matches ?r1 text (m_start m, \<lambda>_. None))" "z = (j, (\<lambda>_. None)(1 \<mapsto> (m_start m, j)))"
    using group_matches [OF z(1) initials_facts(1)] by blast
  obtain e where e: "(e, (\<lambda>_. None)(1 \<mapsto> (m_start m, j))) \<in> set (matches re_hyphenated text (j, (\<lambda>_. None)(1 \<mapsto> (m_start m, j))))"
    "(m_end m, m_groups m) = (e, ((\<lambda>_. None)(1 \<mapsto> (m_start m, j)))(2 \<mapsto> (j, e)))"
    using group_matches [OF z(2) [unfolded j(2)] hyphenated_facts(1)] by blast
  have "m_start m < j" "j < e"
    using matches_min [OF j(1)] matches_min [OF e(1)] initials_facts(3) [of 1 U "Some 2"] hyphenated_facts(3)
    by (simp_all only: fst_conv) linarith+
  moreover have "ru_upper (text ! m_start m)"
    using matches_first [OF j(1) initials_facts(2)] by simp
  moreover have "made_of (\<lambda>c. ru_upper c \<or> ru_lower c \<or> c = 45) text j (e, (\<lambda>_. None)(1 \<mapsto> (m_start m, j)))"
    by (rule matches_made_of [OF e(1) hyphenated_facts(4)]) (auto simp: made_of_def)
  ultimately have "text ! m_start m \<noteq> 32" "text ! (e - 1) \<noteq> 32" "m_start m < j" "j < e"
    by (auto simp: made_of_def ru_upper_def ru_lower_def dest!: spec [of _ "e - 1"])
  then show thesis using that [of j] e(2) finditer_bounds [OF assms] by (auto simp: group_span_def)
qed

lemma surname_first_parts:
  assumes "m \<in> set (finditer (SURNAME_THEN_INITIALS_RE U) text)"
  obtains j where "group_span m 1 = (m_start m, j)" "group_span m 2 = (Suc j, m_end m)" "m_start m < j" "Suc j < m_end m"
    "m_end m \<le> length text" "text ! m_start m \<noteq> 32" "text ! Suc j \<noteq> 32"
proof -
  let ?r2 = "RTimes (re_initial U) 2"
  obtain z where z1: "z \<in> set (matches (RGroup 1 re_hyphenated) text (m_start m, \<lambda>_. None))"
    "(m_end m, m_groups m) \<in> set (matches (RSeq (re_space U) (RGroup 2 ?r2)) text z)"
    using finditer_match [OF assms] unfolding SURNAME_THEN_INITIALS_RE_def RSeqs.simps by (rule seq_matchesE)
  obtain z2 where z2: "z2 \<in> set (matches (re_space U) text z)" "(m_end m, m_groups m) \<in> set (matches (RGroup 2 ?r2) text z2)"
    using z1(2) by (rule seq_matchesE)
  note z = z1(1) z2(2) [unfolded char_match [OF z2(1)]]
  obtain j where j: "(j, \<lambda>_. None) \<in> set (matches re_hyphenated text (m_start m, \<lambda>_. None))" "z = (j, (\<lambda>_. None)(1 \<mapsto> (m_start m, j)))"
    using group_matches [OF z(1) hyphenated_facts(1)] by blast
  obtain e where e: "(e, (\<lambda>_. None)(1 \<mapsto> (m_start m, j))) \<in> set (matches ?r2 text (Suc j, (\<lambda>_. None)(1 \<mapsto> (m_start m, j))))"
    "(m_end m, m_groups m) = (e, ((\<lambda>_. None)(1 \<mapsto> (m_start m, j)))(2 \<mapsto> (Suc j, e)))"
    using group_matches [OF z(2) [unfolded j(2) fst_conv snd_conv] initials_facts(1)] by blast
  have "m_start m < j" "Suc j < e"
    using matches_min [OF j(1)] matches_min [OF e(1)] initials_facts(3) [of 2 U "Some 2"] hyphenated_facts(3)
    by (simp_all only: fst_conv) linarith+
  moreover have "ru_upper (text ! m_start m)" "ru_upper (text ! Suc j)"
    using matches_first [OF j(1) hyphenated_facts(2)] matches_first [OF e(1) initials_facts(2)] by simp_all
  ultimately show thesis
    using that [of j] e(2) finditer_bounds [OF assms] by (auto simp: group_span_def ru_upper_def)
qed

lemma trim_end_le: "trim_end text start e \<le> e"
  by (induction e) auto

lemma trim_end_keeps: "start \<le> k \<Longrightarrow> k < e \<Longrightarrow> text ! k \<noteq> 32 \<Longrightarrow> k < trim_end text start e"
  by (induction e) (auto simp: less_Suc_eq)

lemma initial_span_bounds:
  "im \<in> set (finditer INITIAL_RE initials) \<Longrightarrow> m_start im < m_end im \<and> m_end im \<le> length initials"
  using finditer_span [of im INITIAL_RE initials] by (simp add: INITIAL_RE_def m_span_def)

lemma initial_components_member:
  assumes "c \<in> set (initial_components base value initials)"
  obtains im where "im \<in> set (finditer INITIAL_RE initials)" "nc_offset_start c = base + m_start im"
    "nc_offset_end c = base + m_end im" "nc_offset_end c \<le> length value" "nc_surface c = slice initials (m_start im) (m_end im)"
    "nc_kind c = InitialComp"
proof -
  from assms obtain k where k: "k < length (finditer INITIAL_RE initials)"
    and c: "c \<in> set (let im = finditer INITIAL_RE initials ! k; comp_start = base + m_start im; surface = match_text initials im in
         if comp_start + length surface > length value then []
         else [\<lparr>nc_kind = InitialComp, nc_surface = surface, nc_offset_start = comp_start,
                nc_offset_end = comp_start + length surface,
                nc_role = (if k = 0 then Some First else if k = 1 then Some Patronymic else None),
                nc_normalized = None, nc_letter = Some (take 1 surface)\<rparr>])"
    by (auto simp: initial_components_def in_set_enumerate_eq Let_def)
  let ?im = "finditer INITIAL_RE initials ! k"
  have im: "?im \<in> set (finditer INITIAL_RE initials)" using k by simp
  then have "length (match_text initials ?im) = m_end ?im - m_start ?im" "m_start ?im < m_end ?im"
    using initial_span_bounds [OF im] by (auto simp: match_text_def min_def)
  with c im show thesis by (intro that [of ?im]) (auto simp: Let_def match_text_def split: if_splits)
qed

lemma initial_components_apart:
  "sorted_wrt (\<lambda>c d. nc_offset_end c \<le> nc_offset_start d) (initial_components base value initials)"
proof -
  define f where "f = (\<lambda>(k, im). let comp_start = base + m_start im; surface = match_text initials im in
         if comp_start + length surface > length value then []
         else [\<lparr>nc_kind = InitialComp, nc_surface = surface, nc_offset_start = comp_start,
                nc_offset_end = comp_start + length surface,
                nc_role = (if k = (0 :: nat) then Some First else if k = 1 then Some Patronymic else None),
                nc_normalized = None, nc_letter = Some (take 1 surface)\<rparr>])"
  have bound: "c \<in> set (f (k, im)) \<Longrightarrow> base + m_start im = nc_offset_start c \<and> nc_offset_end c \<le> base + m_end im \<or> m_end im < m_start im" for c k im
    by (auto simp: f_def Let_def match_text_def split: if_splits)
  have "sorted_wrt (\<lambda>a b. m_end a \<le> m_start b) ims \<Longrightarrow> \<forall>im \<in> set ims. m_start im < m_end im \<Longrightarrow>
      sorted_wrt (\<lambda>c d. nc_offset_end c \<le> nc_offset_start d) (concat (map f (enumerate n ims)))" for n ims
  proof (induction ims arbitrary: n)
    case (Cons im ims)
    have "nc_offset_end c \<le> nc_offset_start d"
      if c: "c \<in> set (f (n, im))" and d: "d \<in> set (concat (map f (enumerate (Suc n) ims)))" for c d
    proof -
      from d obtain p where p: "p \<in> set (enumerate (Suc n) ims)" "d \<in> set (f p)" by auto
      moreover obtain k im' where [simp]: "p = (k, im')" by (cases p)
      ultimately have d': "im' \<in> set ims" "d \<in> set (f (k, im'))" by (auto simp: enumerate_eq_zip dest: set_zip_rightD)
      with Cons.prems have "m_end im \<le> m_start im'" "m_start im < m_end im" "m_start im' < m_end im'" by simp_all
      with bound [OF c] bound [OF d'(2)] show ?thesis by linarith
    qed
    moreover have "sorted_wrt (\<lambda>c d. nc_offset_end c \<le> nc_offset_start d) (f (n, im))"
      by (simp add: f_def Let_def)
    ultimately show ?case using Cons by (simp add: sorted_wrt_append)
  qed simp
  from this [OF finditer_sorted] initial_span_bounds show ?thesis
    by (simp add: initial_components_def f_def)
qed

lemma chain_of_sorted:
  assumes "sorted_wrt (\<lambda>c d. nc_offset_end c \<le> nc_offset_start d) comps"
    "\<forall>c \<in> set comps. nc_offset_start c < nc_offset_end c \<and> nc_offset_end c \<le> n \<and> cursor \<le> nc_offset_start c" "cursor \<le> n"
  shows "span_chain n cursor (map (\<lambda>c. (nc_offset_start c, nc_offset_end c)) comps)"
  using assms
proof (induction comps arbitrary: cursor)
  case (Cons c comps)
  then have "span_chain n (nc_offset_end c) (map (\<lambda>c. (nc_offset_start c, nc_offset_end c)) comps)"
    by (intro Cons.IH) auto
  with Cons.prems show ?case by auto
qed simp

lemma parts_ok_sorted:
  assumes "sorted_wrt (\<lambda>c d. nc_offset_end c \<le> nc_offset_start d) comps"
    "\<forall>c \<in> set comps. nc_offset_start c < nc_offset_end c \<and> nc_offset_end c \<le> length v \<and>
       nc_surface c = slice v (nc_offset_start c) (nc_offset_end c)"
    and "mset comps' = mset comps"
  shows "parts_ok v (sort_key nc_offset_start comps')"
proof -
  have chain: "span_chain (length v) 0 (map (\<lambda>c. (nc_offset_start c, nc_offset_end c)) comps)"
    by (rule chain_of_sorted [OF assms(1)]) (use assms(2) in auto)
  have "sorted_wrt (\<lambda>c d. nc_offset_start c < nc_offset_start d) comps"
    using assms(1,2) by (induction comps) fastforce+
  then have d: "distinct (map nc_offset_start comps)" by (induction comps) fastforce+
  have "sort_key nc_offset_start comps' = comps"
    by (rule sort_key_inj_key_eq) (use assms(3) d span_chain_sorted [OF chain] in \<open>auto simp: distinct_map comp_def dest: mset_eq_setD\<close>)
  with chain assms(2) show ?thesis
    by (auto simp: parts_ok_def sort_key_id_if_sorted span_chain_sorted [OF chain, simplified comp_def map_map, simplified])
qed

lemma parts_ok_distinct:
  assumes "parts_ok v comps"
  shows "distinct (map nc_offset_start comps)"
proof -
  let ?cs = "sort_key nc_offset_start comps"
  have "span_chain n k (map (\<lambda>c. (nc_offset_start c, nc_offset_end c)) cs) \<Longrightarrow>
      \<forall>c \<in> set cs. nc_offset_start c < nc_offset_end c \<Longrightarrow>
      distinct (map nc_offset_start cs) \<and> (\<forall>c \<in> set cs. k \<le> nc_offset_start c)" for n k cs
  proof (induction cs arbitrary: k)
    case (Cons c cs)
    from Cons.prems have "span_chain n (nc_offset_end c) (map (\<lambda>c. (nc_offset_start c, nc_offset_end c)) cs)"
      "k \<le> nc_offset_start c" "nc_offset_start c < nc_offset_end c" "\<forall>c \<in> set cs. nc_offset_start c < nc_offset_end c" by simp_all
    with Cons.IH [of "nc_offset_end c"] show ?case by fastforce
  qed simp
  from this [of "length v" 0 ?cs] assms have "distinct (map nc_offset_start ?cs)" by (simp add: parts_ok_def)
  moreover have "mset (map nc_offset_start ?cs) = mset (map nc_offset_start comps)" by simp
  ultimately show ?thesis by (metis mset_eq_imp_distinct_iff)
qed

text \<open>The candidate of either order of surname and initials.\<close>

text \<open>The initials of a mention \<open>v\<close>, which starts at \<open>s\<close>, lie where the text has them.\<close>

lemma initial_components_located:
  assumes d: "d \<in> set (initial_components (p - s) v (slice text p q))"
    and v: "v = slice text s e" and b: "e \<le> length text" "s \<le> p" "p \<le> q" "q \<le> length text"
  shows "p - s \<le> nc_offset_start d \<and> nc_offset_start d < nc_offset_end d \<and> nc_offset_end d \<le> q - s \<and>
    nc_offset_end d \<le> length v \<and> nc_surface d = slice v (nc_offset_start d) (nc_offset_end d)"
proof -
  have len: "length v = e - s" "length (slice text p q) = q - p" using b by (simp_all add: v)
  obtain im where im: "im \<in> set (finditer INITIAL_RE (slice text p q))" "nc_offset_start d = p - s + m_start im"
    "nc_offset_end d = p - s + m_end im" "nc_offset_end d \<le> length v"
    "nc_surface d = slice (slice text p q) (m_start im) (m_end im)"
    using initial_components_member [OF d] by metis
  have m: "m_start im < m_end im" "m_end im \<le> q - p" using initial_span_bounds [OF im(1)] len(2) by simp_all
  have "nc_surface d = slice text (p + m_start im) (p + m_end im)" unfolding im(5) by (rule slice_slice [OF m(2)])
  moreover have "slice v (nc_offset_start d) (nc_offset_end d) = slice text (s + nc_offset_start d) (s + nc_offset_end d)"
    unfolding v using im(4) len(1) by (intro slice_slice) simp
  moreover have "p - s \<le> nc_offset_start d \<and> nc_offset_start d < nc_offset_end d \<and> nc_offset_end d \<le> q - s"
    using im(2,3) m b(2,3) by linarith
  ultimately show ?thesis using im(2-4) b(2) by simp
qed

lemma initials_candidate_ok:
  assumes c: "c \<in> set (initials_candidate U A text m (a, b) (p, q))"
    and b: "m_start m \<le> a" "a < b" "b \<le> trim_end text (m_start m) (m_end m)"
    and q: "m_start m \<le> p" "p \<le> q" "q \<le> length text" "m_end m \<le> length text"
    and apart: "q \<le> a \<or> b \<le> p"
  shows "wf_candidate text c \<and> (\<exists>comps. md_name_parts (c_metadata c) = Some comps \<and> parts_ok (c_value c) comps)"
proof -
  let ?s = "m_start m" and ?e = "trim_end text (m_start m) (m_end m)"
  let ?surname = "slice text a b" and ?initials = "slice text p q"
  define v where "v = slice text ?s ?e"
  have e: "?e \<le> length text" using trim_end_le [of "text" ?s "m_end m"] q(4) by linarith
  obtain n md where comps: "c = span_candidate FULL_NAME ''fio'' (7 / 10) md text (?s, ?e)"
    "md_name_parts md = Some (sort_key nc_offset_start
       (word_component (a - ?s) (a - ?s + length ?surname) ?surname (Some Surname) n # initial_components (p - ?s) v ?initials))"
    using c by (auto simp: initials_candidate_def Let_def name_metadata_def v_def split: option.splits prod.splits grammeme.splits)
  let ?word = "word_component (a - ?s) (a - ?s + length ?surname) ?surname (Some Surname) n"
  let ?ini = "initial_components (p - ?s) v ?initials"
  have word: "nc_offset_start ?word = a - ?s" "nc_offset_end ?word = b - ?s" "nc_surface ?word = slice text a b"
    using b e by (simp_all add: word_component_def)
  have len: "length v = ?e - ?s" using b e by (simp add: v_def)
  note ini = initial_components_located [OF _ v_def e q(1-3)]
  define comps where "comps = (if q \<le> a then ?ini @ [?word] else ?word # ?ini)"
  have "parts_ok v (sort_key nc_offset_start (?word # ?ini))"
  proof (rule parts_ok_sorted [of comps])
    have "nc_offset_end d \<le> nc_offset_start ?word" if "q \<le> a" "d \<in> set ?ini" for d
      using ini [OF that(2)] that(1) word(1) by linarith
    moreover have "nc_offset_end ?word \<le> nc_offset_start d" if "b \<le> p" "d \<in> set ?ini" for d
      using ini [OF that(2)] that(1) word(2) by linarith
    ultimately show "sorted_wrt (\<lambda>c d. nc_offset_end c \<le> nc_offset_start d) comps"
      using apart initial_components_apart [of "p - ?s" v ?initials] by (auto simp: comps_def sorted_wrt_append)
    have w: "nc_offset_start ?word < nc_offset_end ?word \<and> nc_offset_end ?word \<le> length v \<and>
      nc_surface ?word = slice v (nc_offset_start ?word) (nc_offset_end ?word)"
      unfolding word using b len slice_slice [of "b - ?s" ?e ?s "text" "a - ?s"] by (simp add: v_def diff_less_mono)
    show "\<forall>c \<in> set comps. nc_offset_start c < nc_offset_end c \<and> nc_offset_end c \<le> length v \<and>
       nc_surface c = slice v (nc_offset_start c) (nc_offset_end c)"
    proof
      fix d assume "d \<in> set comps"
      then have "d = ?word \<or> d \<in> set ?ini" by (auto simp: comps_def split: if_splits)
      then show "nc_offset_start d < nc_offset_end d \<and> nc_offset_end d \<le> length v \<and>
         nc_surface d = slice v (nc_offset_start d) (nc_offset_end d)" using w ini [of d] by auto
    qed
    show "mset (?word # ?ini) = mset comps" by (simp add: comps_def)
  qed
  with comps b e show ?thesis by (simp add: v_def)
qed

lemma detect_initials_forms_ok:
  assumes "c \<in> set (detect_initials_forms U A text)"
  shows "wf_candidate text c \<and> (\<exists>comps. md_name_parts (c_metadata c) = Some comps \<and> parts_ok (c_value c) comps)"
proof -
  from assms consider
    m where "m \<in> set (finditer (INITIALS_THEN_SURNAME_RE U) text)" "c \<in> set (initials_candidate U A text m (group_span m 2) (group_span m 1))"
  | m where "m \<in> set (finditer (SURNAME_THEN_INITIALS_RE U) text)" "c \<in> set (initials_candidate U A text m (group_span m 1) (group_span m 2))"
    unfolding detect_initials_forms_def by auto
  then show ?thesis
  proof cases
    case (1 m)
    obtain j where j: "group_span m 1 = (m_start m, j)" "group_span m 2 = (j, m_end m)" "m_start m < j" "j < m_end m"
      "m_end m \<le> length text" "text ! (m_end m - 1) \<noteq> 32"
      using initials_first_parts [OF 1(1)] by metis
    have "m_end m - 1 < trim_end text (m_start m) (m_end m)" by (rule trim_end_keeps) (use j in auto)
    then show ?thesis using 1(2) j by (intro initials_candidate_ok [of c U A "text" m j "m_end m" "m_start m" j]) auto
  next
    case (2 m)
    obtain j where j: "group_span m 1 = (m_start m, j)" "group_span m 2 = (Suc j, m_end m)" "m_start m < j" "Suc j < m_end m"
      "m_end m \<le> length text" "text ! Suc j \<noteq> 32"
      using surname_first_parts [OF 2(1)] by metis
    have "Suc j < trim_end text (m_start m) (m_end m)" by (rule trim_end_keeps) (use j in auto)
    then show ?thesis using 2(2) j by (intro initials_candidate_ok [of c U A "text" m "m_start m" j "Suc j" "m_end m"]) auto
  qed
qed

lemma build_candidate_ok:
  assumes "tokens_ok text run" "length run = 2 \<or> length run = 3"
  shows "wf_candidate text (build_candidate U A text run) \<and>
    (\<exists>comps. md_name_parts (c_metadata (build_candidate U A text run)) = Some comps \<and>
       parts_ok (c_value (build_candidate U A text run)) comps \<and> distinct (map nc_role comps) \<and> None \<notin> nc_role ` set comps)"
proof -
  let ?c = "build_candidate U A text run"
  obtain t ts where run: "run = t # ts" using assms(2) by (cases run) auto
  have "wf_candidate text ?c"
    using tokens_ok_last [of "text" t ts] assms(1) run by (simp add: build_candidate_def Let_def)
  moreover have "md_name_parts (c_metadata ?c) = Some (run_components U A (run_gender run) run)"
    "c_value ?c = slice text (nt_start (hd run)) (nt_end (last run))"
    by (simp_all add: build_candidate_def Let_def name_metadata_def)
  moreover have "parts_ok (slice text (nt_start (hd run)) (nt_end (last run))) (run_components U A (run_gender run) run)"
    by (rule run_components_ok) (use assms(1) run in auto)
  moreover have "map nc_role (run_components U A (run_gender run) run) =
      assign_roles (map (\<lambda>t. Some (nt_role t)) run) (length run)"
    by (rule nth_equalityI)
      (use assign_roles_complete [of "map (\<lambda>t. Some (nt_role t)) run" "length run"] assms(2) in
        \<open>auto simp: run_components_def Let_def word_component_def nth_enumerate_eq\<close>)
  ultimately show ?thesis
    using assign_roles_complete [of "map (\<lambda>t. Some (nt_role t)) run" "length run"] assms(2)
    by (metis image_set length_map)
qed

interpretation fio: detector "fio_detect U A" for U A
proof
  fix "text" cs c
  assume "fio_detect U A text = Inr cs" "c \<in> set cs"
  then have "c \<in> set (run_candidates U A text (name_tokens A text)) \<or> c \<in> set (detect_initials_forms U A text)"
    by (auto simp: fio_detect_def)
  then show "wf_candidate text c"
    using run_candidates_run [OF _ name_tokens_ok, of c U A "text" A] build_candidate_ok detect_initials_forms_ok by metis
qed

section \<open>Properties\<close>

text \<open>
  C30. Every name the detector reports is a non-empty span of the text with its text, and carries the
  components of the mention: spans of it in order and without overlap, each with its own text as
  surface. A name made of a run of words gives every component a role and no two the same role.
  Rendering a surrogate identity like the mention then replaces exactly the components and leaves
  every other character of the mention, blanks, hyphens and dots between them, where it was.
\<close>

theorem fio_components_sound:
  assumes "fio_detect U A text = Inr cs" and "c \<in> set cs"
  shows "wf_candidate text c \<and>
    (\<exists>comps. md_name_parts (c_metadata c) = Some comps \<and> parts_ok (c_value c) comps \<and>
      (c \<in> set (run_candidates U A text (name_tokens A text)) \<longrightarrow> distinct (map nc_role comps) \<and> None \<notin> nc_role ` set comps) \<and>
      (\<forall>identity case_name gender out. render_like_mention U A' (c_value c) comps identity case_name gender = Inr out \<longrightarrow>
        (\<exists>spans. out = fst (splice_spans (c_value c) spans) \<and> spans_ok (length (c_value c)) 0 spans \<and>
          map (\<lambda>s. (rs_start s, rs_end s)) spans =
            map (\<lambda>c. (nc_offset_start c, nc_offset_end c)) (sort_key nc_offset_start comps))))"
proof -
  have "c \<in> set (run_candidates U A text (name_tokens A text)) \<or> c \<in> set (detect_initials_forms U A text)"
    using assms by (auto simp: fio_detect_def)
  then have "\<exists>comps. md_name_parts (c_metadata c) = Some comps \<and> parts_ok (c_value c) comps \<and>
      (c \<in> set (run_candidates U A text (name_tokens A text)) \<longrightarrow> distinct (map nc_role comps) \<and> None \<notin> nc_role ` set comps)"
    using run_candidates_run [OF _ name_tokens_ok, of c U A "text" A] build_candidate_ok detect_initials_forms_ok by metis
  then obtain comps where comps: "md_name_parts (c_metadata c) = Some comps" "parts_ok (c_value c) comps"
    "c \<in> set (run_candidates U A text (name_tokens A text)) \<longrightarrow> distinct (map nc_role comps) \<and> None \<notin> nc_role ` set comps" by blast
  then show ?thesis
    using fio.detect_wf [OF assms] render_like_mention_splice [OF _ parts_ok_distinct [OF comps(2)]] by (fastforce simp: parts_ok_def)
qed

text \<open>A dictionary of two names, for concrete runs.\<close>

definition sample_dictionary :: analyzer where
  "sample_dictionary w =
     (if w = ru ''^li'' then [\<lparr>pt_grammemes = [asc ''Surn''], pt_gender = Some masc, pt_case = Some nomn, pt_inflect_sing = \<lambda>_. None\<rparr>]
      else if w = ru ''^Ii'' then [\<lparr>pt_grammemes = [asc ''Name''], pt_gender = Some masc, pt_case = Some nomn, pt_inflect_sing = \<lambda>_. None\<rparr>]
      else [])"

lemma sample_run: "map c_value (run_candidates ucd_ru sample_dictionary (ru ''^li ^Ii'') (name_tokens sample_dictionary (ru ''^li ^Ii''))) = [ru ''^li ^Ii'']"
  by code_simp

lemma fio_components_sound_witness:
  "\<exists>cs c comps. fio_detect ucd_ru sample_dictionary (ru ''^li ^Ii'') = Inr cs \<and> c \<in> set cs \<and> c_value c = ru ''^li ^Ii'' \<and>
     md_name_parts (c_metadata c) = Some comps \<and> parts_ok (c_value c) comps \<and> distinct (map nc_role comps)"
proof -
  let ?t = "ru ''^li ^Ii''"
  let ?runs = "run_candidates ucd_ru sample_dictionary ?t (name_tokens sample_dictionary ?t)"
  have "?t \<in> set (map c_value ?runs)" unfolding sample_run by simp
  then obtain c where c: "c \<in> set ?runs" "c_value c = ?t" by auto
  then obtain cs where cs: "fio_detect ucd_ru sample_dictionary ?t = Inr cs" "c \<in> set cs" by (simp add: fio_detect_def del: run_candidates.simps)
  from fio_components_sound [OF cs, of sample_dictionary] c cs show ?thesis by blast
qed

end
