(* ===== verification/Context.thy ===== *)
theory Context
  imports Models Russian Naming
begin

text \<open>
  The contextual privacy engine: keyword signals in a bounded window around a candidate
  (\<^verbatim>\<open>context/rules.py\<close>) and the decision for it (\<^verbatim>\<open>context/engine.py\<close>). A candidate
  is known by its position in the batch where the source compares objects. The lemmas characterise
  keyword hits, show that the window of a candidate contains the candidate and nothing of the
  candidates beside it, and when a name or an address may be kept.
\<close>

section \<open>Keywords\<close>

definition PERSONAL_ROLES :: "str list" where
  "PERSONAL_ROLES =
    map ru [''klient'', ''klienta'', ''klientu'', ''klientom'', ''kliente'', ''zaemWik'', ''zaEmWik'',
     ''zaemWika'', ''zaEmWika'', ''zaemWiku'', ''zaEmWiku'', ''zaIvitelq'', ''zaIvitelI'',
     ''zaIvitelU'', ''straxovatelq'', ''straxovatelI'', ''straxovatelU'', ''zastraxovannyj'',
     ''zastraxovannogo'', ''zastraxovannomu'', ''derwatelq'', ''derwatelI'', ''derwatelU'',
     ''poluCatelq'', ''poluCatelI'', ''poluCatelU'', ''sozaemWik'', ''sozaEmWik'',
     ''sozaemWika'', ''sozaEmWika'', ''polqzovatelq'', ''polqzovatelI'', ''polqzovatelU'']"

definition PRIVATE_ACTIONS :: "str list" where
  "PRIVATE_ACTIONS =
    map ru [''obratilsI'', ''obratilasq'', ''obratilisq'', ''podal zaIvku'', ''podala zaIvku'',
     ''podali zaIvku'', ''oformil'', ''oformila'', ''oformili'', ''zaregistrirovan'',
     ''zaregistrirovana'', ''zaregistrirovany'', ''prowivaet'', ''prowivaUt'', ''prowival'',
     ''prowivala'', ''soobWil'', ''soobWila'', ''soobWili'', ''ukazal'', ''ukazala'',
     ''ukazali'']"

definition BANK_PRIVATE_CONCEPTS :: "str list" where
  "BANK_PRIVATE_CONCEPTS =
    map ru [''kredit'', ''ipotek'', ''dogovor'', ''polis'', ''sCet'', ''sCEt'', ''zaIvlenie'']"

definition STRONG_RELATED_PII_KEYWORDS :: "str list" where
  "STRONG_RELATED_PII_KEYWORDS =
    [ru ''pasport'', ru ''telefon'', asc ''email'', asc ''e-mail'', ru ''poCta'', ru ''inn'',
     ru ''kart'', asc ''cvv'', ru ''pin'', ru ''data rowdeniI'', ru ''adres prowivaniI'',
     ru ''adres registracii'']"

definition PUBLIC_MARKERS :: "str list" where
  "PUBLIC_MARKERS =
    map ru [''poAt'', ''pisatelq'', ''avtor'', ''uCenyj'', ''uCEnyj'', ''kompozitor'', ''akter'',
     ''aktEr'', ''istoriCeskaI liCnostq'', ''napisal'', ''napisala'', ''sozdal'', ''sozdala'',
     ''proizvedenie'', ''biografiI'', ''roman'', ''stixotvorenie'', ''kosmonavt'', ''izobrel'',
     ''izobrEl'', ''otkryl'', ''osnoval'']"

definition ORGANIZATIONAL_ADDRESS_MARKERS :: "str list" where
  "ORGANIZATIONAL_ADDRESS_MARKERS =
    map ru [''ofis'', ''otdeleni'', ''filial'', ''bankomat'', ''magazin'', ''Stab-kvartir'',
     ''predstavitelqstv'', ''toCka prodaw'', ''toCke prodaw'']"

definition PERSONAL_ADDRESS_MARKERS :: "str list" where
  "PERSONAL_ADDRESS_MARKERS =
    map ru [''prowivaet'', ''prowival'', ''prowivala'', ''zaregistrirovan'', ''zaregistrirovana'',
     ''adres klienta'', ''adres prowivaniI'', ''adres registracii'', ''domaSnij adres'',
     ''mesto witelqstva'', ''propisan'', ''propisana'']"

definition ctx_word_char :: "ucd \<Rightarrow> uchar \<Rightarrow> bool" where
  "ctx_word_char U ch \<longleftrightarrow> u_isalnum U ch \<or> ch = 45 \<or> ch = 95"

text \<open>The loop of \<open>_tail_is_short\<close> on the characters from position \<open>end\<close> on.\<close>

fun tail_loop :: "ucd \<Rightarrow> nat \<Rightarrow> nat \<Rightarrow> str \<Rightarrow> bool" where
  "tail_loop U max_tail tail [] \<longleftrightarrow> True"
| "tail_loop U max_tail tail (c # cs) \<longleftrightarrow>
     (if ctx_word_char U c then (if tail + 1 > max_tail then False else tail_loop U max_tail (tail + 1) cs)
      else True)"

definition tail_is_short :: "ucd \<Rightarrow> str \<Rightarrow> nat \<Rightarrow> bool" where
  "tail_is_short U window_lower end = tail_loop U 2 0 (drop end window_lower)"

function keyword_hit_from :: "ucd \<Rightarrow> str \<Rightarrow> str \<Rightarrow> nat \<Rightarrow> bool" where
  "keyword_hit_from U window_lower keyword start =
     (case str_find window_lower keyword start of
        None \<Rightarrow> False
      | Some idx \<Rightarrow>
          if (idx = 0 \<or> \<not> ctx_word_char U (window_lower ! (idx - 1))) \<and>
             tail_is_short U window_lower (idx + length keyword)
          then True
          else keyword_hit_from U window_lower keyword (idx + 1))"
  by pat_completeness auto
termination
  by (relation "measure (\<lambda>(U, window_lower, keyword, start). Suc (length window_lower) - start)")
    (auto dest!: str_find_SomeD)

declare keyword_hit_from.simps [simp del]

definition keyword_hit :: "ucd \<Rightarrow> str \<Rightarrow> str \<Rightarrow> bool" where
  "keyword_hit U window_lower keyword = keyword_hit_from U window_lower keyword 0"

definition count_hits :: "ucd \<Rightarrow> str \<Rightarrow> str list \<Rightarrow> str list" where
  "count_hits U window_lower keywords = filter (keyword_hit U window_lower) keywords"

section \<open>Windows\<close>

text \<open>The characters \<open>[.!?\n]\<close> at which a sentence ends.\<close>

definition sentence_end_char :: "uchar \<Rightarrow> bool" where
  "sentence_end_char c \<longleftrightarrow> c = 46 \<or> c = 33 \<or> c = 63 \<or> c = 10"

text \<open>The end of the last match in \<open>s\<close>, 0 if there is none.\<close>

definition last_sentence_end :: "str \<Rightarrow> nat" where
  "last_sentence_end s = length s - length (takeWhile (\<lambda>c. \<not> sentence_end_char c) (rev s))"

definition sentence_bounds :: "str \<Rightarrow> nat \<Rightarrow> nat \<Rightarrow> nat \<Rightarrow> nat \<times> nat" where
  "sentence_bounds text start end radius_chars =
     (let left_bound = start - radius_chars;
          right_bound = min (length text) (end + radius_chars);
          local = slice text left_bound right_bound;
          rel_start = start - left_bound;
          rel_end = end - left_bound;
          sentence_start = last_sentence_end (take rel_start local);
          sentence_end = (case find_index sentence_end_char (drop rel_end local) of
                            Some i \<Rightarrow> rel_end + i + 1
                          | None \<Rightarrow> length local)
      in (left_bound + sentence_start, left_bound + sentence_end))"

definition sentence_window :: "str \<Rightarrow> nat \<Rightarrow> nat \<Rightarrow> nat \<Rightarrow> str" where
  "sentence_window text start end radius_chars =
     (case sentence_bounds text start end radius_chars of (left, right) \<Rightarrow> slice text left right)"

fun clip_bounds :: "nat \<Rightarrow> nat \<Rightarrow> span list \<Rightarrow> nat \<times> nat \<Rightarrow> nat \<times> nat" where
  "clip_bounds start end [] bounds = bounds"
| "clip_bounds start end ((other_start, other_end) # spans) (left, right) =
     clip_bounds start end spans
       (if other_end \<le> start then (max left other_end, right)
        else if other_start \<ge> end then (left, min right other_start)
        else (left, right))"

definition attributed_window :: "str \<Rightarrow> nat \<Rightarrow> nat \<Rightarrow> span list \<Rightarrow> nat \<Rightarrow> str" where
  "attributed_window text start end other_spans radius_chars =
     (case clip_bounds start end other_spans (sentence_bounds text start end radius_chars) of
        (left, right) \<Rightarrow> slice text left right)"

section \<open>Decisions\<close>

record privacy_engine =
  pe_window_chars :: nat
  pe_emit_uncertain :: bool

definition with_scores :: "nat \<Rightarrow> nat \<Rightarrow> candidate \<Rightarrow> candidate" where
  "with_scores private_score public_score c =
     c\<lparr>c_metadata := (c_metadata c)\<lparr>md_rule_scores := Some (private_score, public_score)\<rparr>\<rparr>"

definition decision_of :: "candidate \<Rightarrow> decision \<Rightarrow> rat \<Rightarrow> str list \<Rightarrow> privacy_decision" where
  "decision_of c d conf reasons =
     \<lparr>d_candidate = c, d_decision = d, d_confidence = conf, d_reasons = reasons\<rparr>"

definition tagged :: "string \<Rightarrow> str list \<Rightarrow> str list" where
  "tagged tag hits = map (\<lambda>h. asc tag @ h) hits"

text \<open>The common end of both deciders when there is no signal.\<close>

definition no_signal :: "privacy_engine \<Rightarrow> candidate \<Rightarrow> privacy_decision" where
  "no_signal E c =
     (if pe_emit_uncertain E then decision_of c UNCERTAIN (1 / 2) [asc ''no_context_uncertain'']
      else decision_of c MASK (55 / 100) [asc ''no_context_fail_safe''])"

definition or_reason :: "str list \<Rightarrow> string \<Rightarrow> str list" where
  "or_reason reasons default_reason = (if reasons = [] then [asc default_reason] else reasons)"

definition decide_full_name :: "ucd \<Rightarrow> privacy_engine \<Rightarrow> candidate \<Rightarrow> str \<Rightarrow> privacy_decision" where
  "decide_full_name U E c0 window_lower =
     (let role_hits = count_hits U window_lower PERSONAL_ROLES;
          action_hits = count_hits U window_lower PRIVATE_ACTIONS;
          bank_hits = count_hits U window_lower BANK_PRIVATE_CONCEPTS;
          strong_pii_hits = count_hits U window_lower STRONG_RELATED_PII_KEYWORDS;
          public_hits = count_hits U window_lower PUBLIC_MARKERS;
          is_known_public = md_known_public_figure (c_metadata c0);
          private_score = length role_hits * 2 + length action_hits * 2 + length bank_hits +
                          length strong_pii_hits * 3;
          public_score = length public_hits * 2 + (if is_known_public then 2 else 0);
          reasons = tagged ''role:'' role_hits @ tagged ''action:'' action_hits @
                    tagged ''bank_concept:'' bank_hits @ tagged ''strong_pii:'' strong_pii_hits @
                    tagged ''public_marker:'' public_hits @
                    (if is_known_public then [asc ''known_public_figure''] else []);
          c = with_scores private_score public_score c0
      in if private_score > 0
         then decision_of c MASK (min (6 / 10 + of_nat private_score / 10) (99 / 100))
                (or_reason reasons ''private_context'')
         else if public_score > 0
         then decision_of c KEEP (min (6 / 10 + of_nat public_score / 10) (95 / 100))
                (or_reason reasons ''public_context'')
         else no_signal E c)"

definition decide_address :: "ucd \<Rightarrow> privacy_engine \<Rightarrow> candidate \<Rightarrow> str \<Rightarrow> privacy_decision" where
  "decide_address U E c0 window_lower =
     (let value_lower = u_lower U (c_value c0);
          org_hits = count_hits U window_lower ORGANIZATIONAL_ADDRESS_MARKERS @
                     count_hits U value_lower ORGANIZATIONAL_ADDRESS_MARKERS;
          personal_hits = count_hits U window_lower PERSONAL_ADDRESS_MARKERS;
          c = with_scores (length personal_hits) (length org_hits) c0
      in if personal_hits \<noteq> []
         then decision_of c MASK (min (6 / 10 + of_nat (length personal_hits) / 10) (97 / 100))
                (tagged ''personal:'' personal_hits)
         else if org_hits \<noteq> []
         then decision_of c KEEP (min (6 / 10 + of_nat (length org_hits) / 10) (95 / 100))
                (tagged ''organizational:'' org_hits)
         else no_signal E c)"

definition other_spans :: "nat \<Rightarrow> candidate list \<Rightarrow> span list" where
  "other_spans i all_candidates =
     map (\<lambda>(j, c). c_span c) (filter (\<lambda>(j, c). j \<noteq> i) (enumerate 0 all_candidates))"

definition candidate_window :: "privacy_engine \<Rightarrow> str \<Rightarrow> nat \<Rightarrow> candidate \<Rightarrow> candidate list \<Rightarrow> str" where
  "candidate_window E text i c all_candidates =
     attributed_window text (c_start c) (c_end c) (other_spans i all_candidates) (pe_window_chars E)"

definition decide :: "ucd \<Rightarrow> privacy_engine \<Rightarrow> str \<Rightarrow> nat \<Rightarrow> candidate \<Rightarrow> candidate list \<Rightarrow> privacy_decision" where
  "decide U E text i c all_candidates =
     (let window_lower = u_lower U (candidate_window E text i c all_candidates) in
      if c_type c = FULL_NAME then decide_full_name U E c window_lower
      else if c_type c = ADDRESS then decide_address U E c window_lower
      else decision_of c MASK (c_confidence c) [asc ''personal_by_construction''])"

definition decide_batch :: "ucd \<Rightarrow> privacy_engine \<Rightarrow> str \<Rightarrow> candidate list \<Rightarrow> privacy_decision list" where
  "decide_batch U E text candidates =
     map (\<lambda>(i, c). decide U E text i c candidates) (enumerate 0 candidates)"

section \<open>Keyword hits\<close>

lemma tail_loop_iff: "t \<le> m \<Longrightarrow> tail_loop U m t cs \<longleftrightarrow> t + length (takeWhile (ctx_word_char U) cs) \<le> m"
  by (induction U m t cs rule: tail_loop.induct) auto

text \<open>A hit: the keyword at the start of a word, with at most two word characters behind it.\<close>

definition keyword_at :: "ucd \<Rightarrow> str \<Rightarrow> str \<Rightarrow> nat \<Rightarrow> bool" where
  "keyword_at U s kw i \<longleftrightarrow>
     i + length kw \<le> length s \<and> slice s i (i + length kw) = kw \<and>
     (i = 0 \<or> \<not> ctx_word_char U (s ! (i - 1))) \<and>
     length (takeWhile (ctx_word_char U) (drop (i + length kw) s)) \<le> 2"

lemma keyword_hit_from_iff: "keyword_hit_from U s kw start \<longleftrightarrow> (\<exists>i \<ge> start. keyword_at U s kw i)"
proof (induction U s kw start rule: keyword_hit_from.induct)
  case (1 U s kw start)
  show ?case
  proof (cases "str_find s kw start")
    case None
    then have "\<not> (start \<le> i \<and> keyword_at U s kw i)" for i
      using str_find_least [of start i kw s] by (auto simp: keyword_at_def)
    then show ?thesis using None by (auto simp: keyword_hit_from.simps [of U s kw start])
  next
    case (Some idx)
    note found = str_find_SomeD [OF Some]
    have least: "start \<le> i \<Longrightarrow> keyword_at U s kw i \<Longrightarrow> i = idx \<or> idx + 1 \<le> i" for i
      using str_find_first [OF Some, of i] by (fastforce simp: keyword_at_def)
    have here: "keyword_at U s kw idx \<longleftrightarrow>
        (idx = 0 \<or> \<not> ctx_word_char U (s ! (idx - 1))) \<and> tail_is_short U s (idx + length kw)"
      using found by (simp add: keyword_at_def tail_is_short_def tail_loop_iff)
    show ?thesis
    proof (cases "keyword_at U s kw idx")
      case True
      with here Some found show ?thesis by (auto simp: keyword_hit_from.simps [of U s kw start])
    next
      case False
      with here Some have "keyword_hit_from U s kw start = keyword_hit_from U s kw (idx + 1)"
        by (auto simp: keyword_hit_from.simps [of U s kw start])
      also have "\<dots> = (\<exists>i \<ge> idx + 1. keyword_at U s kw i)"
        using False here by (intro "1.IH" [OF Some]) auto
      also have "\<dots> = (\<exists>i \<ge> start. keyword_at U s kw i)"
      proof
        assume "\<exists>i \<ge> idx + 1. keyword_at U s kw i"
        then obtain i where "idx + 1 \<le> i" "keyword_at U s kw i" by blast
        with found show "\<exists>i \<ge> start. keyword_at U s kw i" by (intro exI [of _ i]) simp
      next
        assume "\<exists>i \<ge> start. keyword_at U s kw i"
        then obtain i where "start \<le> i" "keyword_at U s kw i" by blast
        with least [of i] False show "\<exists>i \<ge> idx + 1. keyword_at U s kw i" by blast
      qed
      finally show ?thesis .
    qed
  qed
qed

lemma keyword_hit_iff: "keyword_hit U s kw \<longleftrightarrow> (\<exists>i. keyword_at U s kw i)"
  by (simp add: keyword_hit_def keyword_hit_from_iff)

lemma count_hits_Nil: "count_hits U s kws = [] \<longleftrightarrow> (\<forall>kw \<in> set kws. \<not> keyword_hit U s kw)"
  by (simp add: count_hits_def filter_empty_conv)

section \<open>The window of a candidate\<close>

lemma last_sentence_end_le: "last_sentence_end s \<le> length s"
  by (simp add: last_sentence_end_def)

lemma sentence_bounds_range:
  assumes "start \<le> end" "end \<le> length text" "sentence_bounds text start end radius = (left, right)"
  shows "start - radius \<le> left \<and> left \<le> start \<and> end \<le> right \<and> right \<le> length text \<and> right \<le> end + radius"
proof -
  define lb where "lb = start - radius"
  define rb where "rb = min (length text) (end + radius)"
  define local where "local = slice text lb rb"
  have b: "lb \<le> start" "end \<le> rb" "rb \<le> length text" "rb \<le> end + radius"
    using assms(1,2) by (auto simp: lb_def rb_def)
  then have len: "length local = rb - lb" using assms(1) by (simp add: local_def)
  have l: "left = lb + last_sentence_end (take (start - lb) local)"
    and r: "right = lb + (case find_index sentence_end_char (drop (end - lb) local) of
        Some i \<Rightarrow> end - lb + i + 1 | None \<Rightarrow> length local)"
    using assms(3) by (auto simp: sentence_bounds_def Let_def lb_def rb_def local_def split: option.splits)
  have "last_sentence_end (take (start - lb) local) \<le> start - lb"
    using last_sentence_end_le [of "take (start - lb) local"] by simp
  then have "left \<le> start" using l b(1) by linarith
  moreover have "end \<le> right \<and> right \<le> rb"
  proof (cases "find_index sentence_end_char (drop (end - lb) local)")
    case None
    with r len b assms(1) show ?thesis by simp
  next
    case (Some i)
    with find_index_less [OF Some] len have "end - lb + i < rb - lb" by (simp add: less_diff_conv)
    with r Some b assms(1) show ?thesis by simp
  qed
  ultimately show ?thesis using l b lb_def by linarith
qed

lemma clip_bounds_range:
  assumes "clip_bounds start end spans (l0, r0) = (left, right)" "l0 \<le> start" "end \<le> r0"
  shows "l0 \<le> left \<and> left \<le> start \<and> end \<le> right \<and> right \<le> r0 \<and>
    (\<forall>(s, e) \<in> set spans. (e \<le> start \<longrightarrow> e \<le> left) \<and> (\<not> e \<le> start \<and> end \<le> s \<longrightarrow> right \<le> s))"
  using assms
proof (induction spans arbitrary: l0 r0)
  case (Cons sp spans)
  obtain s e where sp: "sp = (s, e)" by force
  consider "e \<le> start" | "\<not> e \<le> start" "end \<le> s" | "\<not> e \<le> start" "\<not> end \<le> s" by blast
  then show ?case
  proof cases
    case 1
    with Cons.prems Cons.IH [of "max l0 e" r0] show ?thesis by (auto simp: sp)
  next
    case 2
    with Cons.prems Cons.IH [of l0 "min r0 s"] show ?thesis by (auto simp: sp)
  next
    case 3
    with Cons.prems Cons.IH [of l0 r0] show ?thesis by (auto simp: sp)
  qed
qed simp

lemma other_spans_set:
  "j < length cs \<Longrightarrow> j \<noteq> i \<Longrightarrow> c_span (cs ! j) \<in> set (other_spans i cs)"
  by (force simp: other_spans_def in_set_enumerate_eq image_iff)

section \<open>Decisions\<close>

lemma with_scores_frame [simp]:
  "c_type (with_scores a b c) = c_type c" "c_value (with_scores a b c) = c_value c"
  "c_start (with_scores a b c) = c_start c" "c_end (with_scores a b c) = c_end c"
  "c_confidence (with_scores a b c) = c_confidence c" "c_span (with_scores a b c) = c_span c"
  "wf_candidate text (with_scores a b c) = wf_candidate text c"
  by (simp_all add: with_scores_def c_span_def wf_candidate_def)

lemma decision_of_fields [simp]:
  "d_candidate (decision_of c d conf rs) = c" "d_decision (decision_of c d conf rs) = d"
  by (simp_all add: decision_of_def)

lemma no_signal_fields [simp]:
  "d_candidate (no_signal E c) = c" "d_decision (no_signal E c) = (if pe_emit_uncertain E then UNCERTAIN else MASK)"
  by (simp_all add: no_signal_def)

lemma decide_candidate:
  "\<exists>a b. d_candidate (decide U E text i c cs) = c \<or> d_candidate (decide U E text i c cs) = with_scores a b c"
  by (auto simp: decide_def decide_full_name_def decide_address_def Let_def)

lemma decide_span [simp]:
  "c_span (d_candidate (decide U E text i c cs)) = c_span c"
  "wf_candidate text' (d_candidate (decide U E text i c cs)) = wf_candidate text' c"
  using decide_candidate [of U E "text" i c cs] by auto

lemma length_decide_batch [simp]: "length (decide_batch U E text cs) = length cs"
  by (simp add: decide_batch_def)

lemma decide_batch_nth: "i < length cs \<Longrightarrow> decide_batch U E text cs ! i = decide U E text i (cs ! i) cs"
  by (simp add: decide_batch_def nth_enumerate_eq)

definition private_keywords :: "str list" where
  "private_keywords = PERSONAL_ROLES @ PRIVATE_ACTIONS @ BANK_PRIVATE_CONCEPTS @ STRONG_RELATED_PII_KEYWORDS"

lemma decide_full_name_MASK:
  assumes "kw \<in> set private_keywords" "keyword_hit U w kw"
  shows "d_decision (decide_full_name U E c w) = MASK"
proof -
  have "count_hits U w PERSONAL_ROLES \<noteq> [] \<or> count_hits U w PRIVATE_ACTIONS \<noteq> [] \<or>
      count_hits U w BANK_PRIVATE_CONCEPTS \<noteq> [] \<or> count_hits U w STRONG_RELATED_PII_KEYWORDS \<noteq> []"
    using assms unfolding count_hits_Nil private_keywords_def by auto
  then show ?thesis by (auto simp: decide_full_name_def Let_def)
qed

lemma decide_full_name_KEEP:
  assumes "d_decision (decide_full_name U E c w) = KEEP"
  shows "(\<exists>kw \<in> set PUBLIC_MARKERS. keyword_hit U w kw) \<or> md_known_public_figure (c_metadata c)"
proof (rule ccontr)
  assume "\<not> ?thesis"
  then have "count_hits U w PUBLIC_MARKERS = []" "\<not> md_known_public_figure (c_metadata c)"
    by (auto simp: count_hits_Nil)
  with assms show False by (auto simp: decide_full_name_def Let_def split: if_splits)
qed

lemma decide_address_KEEP:
  assumes "d_decision (decide_address U E c w) = KEEP"
  shows "(\<forall>kw \<in> set PERSONAL_ADDRESS_MARKERS. \<not> keyword_hit U w kw) \<and>
    (\<exists>kw \<in> set ORGANIZATIONAL_ADDRESS_MARKERS. keyword_hit U w kw \<or> keyword_hit U (u_lower U (c_value c)) kw)"
proof -
  have "count_hits U w PERSONAL_ADDRESS_MARKERS = []"
    "count_hits U w ORGANIZATIONAL_ADDRESS_MARKERS \<noteq> [] \<or>
     count_hits U (u_lower U (c_value c)) ORGANIZATIONAL_ADDRESS_MARKERS \<noteq> []"
    using assms by (auto simp: decide_address_def Let_def split: if_splits)
  then show ?thesis unfolding count_hits_Nil by auto
qed

section \<open>Properties\<close>

text \<open>
  C34. Signals are attributed to the right candidate: the window a candidate is judged by contains
  the candidate, stays within the radius around it and inside the text, and shares no character with
  any other candidate of the batch that does not overlap it.
\<close>

theorem window_attribution:
  assumes "wf_candidate text c" "window = candidate_window E text i c cands"
  shows "\<exists>left right. window = slice text left right \<and>
    left \<le> c_start c \<and> c_end c \<le> right \<and> right \<le> length text \<and>
    c_start c - pe_window_chars E \<le> left \<and> right \<le> c_end c + pe_window_chars E \<and>
    (\<forall>j < length cands. j \<noteq> i \<and> \<not> overlaps (c_span c) (c_span (cands ! j)) \<longrightarrow>
       c_end (cands ! j) \<le> left \<or> right \<le> c_start (cands ! j))"
proof -
  have c: "c_start c \<le> c_end c" "c_start c < c_end c" "c_end c \<le> length text"
    using assms(1) by (simp_all add: wf_candidate_def)
  obtain l0 r0 where b: "sentence_bounds text (c_start c) (c_end c) (pe_window_chars E) = (l0, r0)" by force
  obtain left right where cl:
    "clip_bounds (c_start c) (c_end c) (other_spans i cands) (l0, r0) = (left, right)" by force
  note range = sentence_bounds_range [OF c(1,3) b]
  then have clip: "l0 \<le> left \<and> left \<le> c_start c \<and> c_end c \<le> right \<and> right \<le> r0 \<and>
    (\<forall>(s, e) \<in> set (other_spans i cands). (e \<le> c_start c \<longrightarrow> e \<le> left) \<and>
       (\<not> e \<le> c_start c \<and> c_end c \<le> s \<longrightarrow> right \<le> s))"
    by (intro clip_bounds_range [OF cl]) auto
  have "c_end (cands ! j) \<le> left \<or> right \<le> c_start (cands ! j)"
    if "j < length cands" "j \<noteq> i" "\<not> overlaps (c_span c) (c_span (cands ! j))" for j
    using clip other_spans_set [OF that(1,2)] that(3) by (auto simp: c_span_def)
  moreover have "window = slice text left right"
    by (simp add: assms(2) candidate_window_def attributed_window_def b cl)
  ultimately show ?thesis using range clip by (intro exI [of _ left] exI [of _ right]) auto
qed

definition default_engine :: privacy_engine where
  "default_engine = \<lparr>pe_window_chars = 220, pe_emit_uncertain = False\<rparr>"

definition sample_span :: "pii_type \<Rightarrow> nat \<Rightarrow> nat \<Rightarrow> candidate" where
  "sample_span t i j = \<lparr>c_type = t, c_value = replicate (j - i) 65, c_start = i, c_end = j,
     c_detector = [], c_confidence = 1, c_metadata = no_metadata\<rparr>"

lemma window_attribution_witness:
  "\<exists>left right. candidate_window default_engine (replicate 30 65) 0 (sample_span FULL_NAME 2 5)
       [sample_span FULL_NAME 2 5, sample_span ADDRESS 10 12] = slice (replicate 30 65) left right \<and>
     left \<le> 2 \<and> 5 \<le> right \<and> right \<le> 10"
proof -
  let ?cs = "[sample_span FULL_NAME 2 5, sample_span ADDRESS 10 12]"
  have wf: "wf_candidate (replicate 30 65) (sample_span FULL_NAME 2 5)"
    by (simp add: wf_candidate_def sample_span_def slice_def)
  from window_attribution [OF wf refl, of default_engine 0 ?cs] obtain left right where
    w: "candidate_window default_engine (replicate 30 65) 0 (sample_span FULL_NAME 2 5) ?cs = slice (replicate 30 65) left right"
    "left \<le> c_start (sample_span FULL_NAME 2 5)" "c_end (sample_span FULL_NAME 2 5) \<le> right"
    and o: "\<forall>j < length ?cs. j \<noteq> 0 \<and> \<not> overlaps (c_span (sample_span FULL_NAME 2 5)) (c_span (?cs ! j)) \<longrightarrow>
       c_end (?cs ! j) \<le> left \<or> right \<le> c_start (?cs ! j)" by blast
  from o [THEN spec, of 1] w have "right \<le> 10" by (auto simp: sample_span_def c_span_def)
  with w show ?thesis by (intro exI [of _ left] exI [of _ right]) (simp add: sample_span_def)
qed

text \<open>
  C17. Privacy comes first in context decisions: a candidate other than a name or an address is
  always masked; a name whose window has any private signal is masked whatever public signals there
  are; a name or an address is kept only on public evidence in its own window (or as a known public
  figure) and without any private one; without an ML stage nothing is left undecided.
\<close>

theorem decide_privacy_first:
  assumes "w = u_lower U (candidate_window E text i c cands)" "dec = d_decision (decide U E text i c cands)"
  shows "(c_type c \<noteq> FULL_NAME \<and> c_type c \<noteq> ADDRESS \<longrightarrow> dec = MASK) \<and>
    (c_type c = FULL_NAME \<and> (\<exists>kw \<in> set private_keywords. keyword_hit U w kw) \<longrightarrow> dec = MASK) \<and>
    (c_type c = FULL_NAME \<and> dec = KEEP \<longrightarrow>
       (\<exists>kw \<in> set PUBLIC_MARKERS. keyword_hit U w kw) \<or> md_known_public_figure (c_metadata c)) \<and>
    (c_type c = ADDRESS \<and> dec = KEEP \<longrightarrow>
       (\<forall>kw \<in> set PERSONAL_ADDRESS_MARKERS. \<not> keyword_hit U w kw) \<and>
       (\<exists>kw \<in> set ORGANIZATIONAL_ADDRESS_MARKERS. keyword_hit U w kw \<or> keyword_hit U (u_lower U (c_value c)) kw)) \<and>
    (\<not> pe_emit_uncertain E \<longrightarrow> dec \<noteq> UNCERTAIN)"
proof (intro conjI)
  show "\<not> pe_emit_uncertain E \<longrightarrow> dec \<noteq> UNCERTAIN"
    by (auto simp: assms(2) decide_def decide_full_name_def decide_address_def Let_def)
qed (use decide_full_name_MASK [of _ U w E c] decide_full_name_KEEP [of U E c w] decide_address_KEEP [of U E c w]
      in \<open>auto simp: assms decide_def\<close>)

lemma decide_privacy_first_witness:
  "d_decision (decide ucd_ru default_engine (replicate 5 65 @ [32] @ ru ''klient'') 0 (sample_span FULL_NAME 0 5)
     [sample_span FULL_NAME 0 5]) = MASK"
proof -
  let ?t = "replicate 5 65 @ [32] @ ru ''klient''"
  let ?c = "sample_span FULL_NAME 0 5"
  have w: "candidate_window default_engine ?t 0 ?c [?c] = ?t"
    by (simp add: candidate_window_def attributed_window_def sentence_bounds_def sample_span_def default_engine_def
        other_spans_def last_sentence_end_def find_index_def sentence_end_char_def ru_letter_def ru_letters_def upto_rec1
        Let_def slice_def eval_nat_numeral)
  have "keyword_at ucd_ru (u_lower ucd_ru ?t) (ru ''klient'') 6"
    by (simp add: keyword_at_def slice_def ucd_ru_def ru_to_lower_def ascii_class_defs ctx_word_char_def
        ru_letter_def ru_letters_def upto_rec1 eval_nat_numeral)
  then have "keyword_hit ucd_ru (u_lower ucd_ru ?t) (ru ''klient'')" by (auto simp: keyword_hit_iff)
  moreover have "ru ''klient'' \<in> set private_keywords" by (simp add: private_keywords_def PERSONAL_ROLES_def)
  moreover have "c_type ?c = FULL_NAME" by (simp add: sample_span_def)
  moreover have "u_lower ucd_ru ?t = u_lower ucd_ru (candidate_window default_engine ?t 0 ?c [?c])"
    by (simp only: w)
  ultimately show ?thesis
    using decide_privacy_first [of "u_lower ucd_ru ?t" ucd_ru default_engine ?t 0 ?c "[?c]", OF _ refl] by blast
qed

end
