(* ===== verification/Interleaving.thy ===== *)
theory Interleaving
  imports Service
begin

text \<open>
  Concurrent requests. The worker threads of the service run \<open>ProcessService.process\<close>
  at the same time and share only the store, whose operations are atomic, so an execution is an
  interleaving of the pieces of \<open>process\<close> between two store calls. \<open>thread_step\<close> is one such
  piece, \<open>step\<close> lets any thread run or time pass, and \<open>solo_process\<close> shows that a thread that
  runs alone computes \<open>process\<close>. The invariant of the locale extension shows that all requests
  for one payload under one \<open>payload_id\<close> are answered with the same text, the one of the record
  that won the insert, whoever wins and whatever the consumers' policies are.
\<close>

record request =
  rq_payload :: str
  rq_payload_id :: str
  rq_consumer_id :: "str option"

datatype thread =
    Begin
  | Transforming consumer_config
  | Saving transform_result mapping_record
  | Rereading mapping_record
  | Marking process_outcome mapping_record
  | Answered "process_outcome result"

fun thread_step ::
  "'s process_service \<Rightarrow> request \<Rightarrow> time \<Rightarrow> thread \<Rightarrow> 's \<Rightarrow> thread \<times> 's" where
  "thread_step sv rq now Begin s =
     (case resolve (sv_consumers sv) (rq_consumer_id rq) of
        None \<Rightarrow> (Answered (Inl (ConsumerNotFoundError
                   (or_else (rq_consumer_id rq) (asc ''<default>'')))), s)
      | Some consumer \<Rightarrow>
          if \<not> cc_enabled consumer
          then (Answered (Inl (ConsumerDisabledError (cc_consumer_id consumer))), s)
          else (case st_get (sv_store sv) now (rq_payload_id rq) s of
                  (Inl StorageUnavailableError, s1) \<Rightarrow>
                    (Answered (answer_without_storage sv (rq_payload rq) consumer), s1)
                | (Inl e, s1) \<Rightarrow> (Answered (Inl e), s1)
                | (Inr None, s1) \<Rightarrow> (Transforming consumer, s1)
                | (Inr (Some record), s1) \<Rightarrow>
                    (case answer_from_record sv (rq_payload rq) consumer record of
                       (Inr oc, True) \<Rightarrow> (Marking oc record, s1)
                     | (ans, _) \<Rightarrow> (Answered ans, s1))))"
| "thread_step sv rq now (Transforming consumer) s =
     (case sv_pipeline sv (rq_payload rq) (cc_masking_mode consumer) consumer (rq_payload_id rq) of
        Inl e \<Rightarrow> (Answered (Inl e), s)
      | Inr transform \<Rightarrow>
          (Saving transform (build_record (sv_hashes sv) now transform (rq_payload rq)
             (cc_demask consumer) (sv_secret sv)), s))"
| "thread_step sv rq now (Saving transform record) s =
     (case st_save_if_absent (sv_store sv) now (rq_payload_id rq) record (sv_ttl sv) s of
        (Inl StorageUnavailableError, s1) \<Rightarrow>
          if mr_no_pii record then (Answered (Inr (outcome (tr_text transform) DirMASK)), s1)
          else (Answered (Inl StorageUnavailableError), s1)
      | (Inl e, s1) \<Rightarrow> (Answered (Inl e), s1)
      | (Inr True, s1) \<Rightarrow> (Answered (Inr (first_outcome transform)), s1)
      | (Inr False, s1) \<Rightarrow> (Rereading record, s1))"
| "thread_step sv rq now (Rereading record) s =
     (case st_get (sv_store sv) now (rq_payload_id rq) s of
        (Inl e, s1) \<Rightarrow> (Answered (Inl e), s1)
      | (Inr winner, s1) \<Rightarrow> (Answered (answer_from_winner (rq_payload rq) record winner), s1))"
| "thread_step sv rq now (Marking oc record) s =
     (Answered (Inr oc), transition_to_grace sv now (rq_payload_id rq) record s)"
| "thread_step sv rq now (Answered ans) s = (Answered ans, s)"

record 's world =
  w_now :: time
  w_store :: 's
  w_threads :: "thread list"

inductive step :: "'s process_service \<Rightarrow> request list \<Rightarrow> 's world \<Rightarrow> 's world \<Rightarrow> bool"
  for sv reqs where
  tick: "w_now w \<le> t \<Longrightarrow> step sv reqs w (w\<lparr>w_now := t\<rparr>)"
| run: "i < length (w_threads w) \<Longrightarrow> i < length reqs \<Longrightarrow>
    thread_step sv (reqs ! i) (w_now w) (w_threads w ! i) (w_store w) = (th, s) \<Longrightarrow>
    step sv reqs w (w\<lparr>w_store := s, w_threads := (w_threads w)[i := th]\<rparr>)"

definition start :: "time \<Rightarrow> 's \<Rightarrow> request list \<Rightarrow> 's world" where
  "start now s reqs = \<lparr>w_now = now, w_store = s, w_threads = map (\<lambda>_. Begin) reqs\<rparr>"

section \<open>A thread alone\<close>

fun instant :: "clock \<Rightarrow> thread \<Rightarrow> time" where
  "instant clk Begin = at_get clk"
| "instant clk (Transforming _) = at_build clk"
| "instant clk (Saving _ _) = at_save clk"
| "instant clk (Rereading _) = at_winner clk"
| "instant clk (Marking _ _) = at_mark clk"
| "instant clk (Answered _) = at_mark clk"

definition solo_step :: "'s process_service \<Rightarrow> request \<Rightarrow> clock \<Rightarrow> thread \<times> 's \<Rightarrow> thread \<times> 's" where
  "solo_step sv rq clk = (\<lambda>(th, s). thread_step sv rq (instant clk th) th s)"

lemma solo_Answered: "(solo_step sv rq clk ^^ n) (Answered a, s) = (Answered a, s)"
  by (induction n) (simp_all add: solo_step_def)

lemma solo_Rereading:
  "solo_step sv rq clk (Rereading r, s) =
     (case st_get (sv_store sv) (at_winner clk) (rq_payload_id rq) s of
        (Inl e, s1) \<Rightarrow> (Answered (Inl e), s1)
      | (Inr winner, s1) \<Rightarrow> (Answered (answer_from_winner (rq_payload rq) r winner), s1))"
  by (simp add: solo_step_def)

lemma solo_first_request:
  "(solo_step sv rq clk ^^ 3) (Transforming c, s) =
     (let (ans, s') = first_request sv clk (rq_payload rq) (rq_payload_id rq) c s in (Answered ans, s'))"
  by (simp add: numeral_3_eq_3 solo_step_def first_request_def Let_def
      split: sum.splits prod.splits exn.splits bool.splits)

lemma solo_process:
  "(solo_step sv rq clk ^^ 4) (Begin, s) =
     (let (ans, s') = process sv clk (rq_payload rq) (rq_payload_id rq) (rq_consumer_id rq) s
      in (Answered ans, s'))"
proof -
  have first: "(solo_step sv rq clk ^^ 4) (Begin, s) =
      (solo_step sv rq clk ^^ 3) (solo_step sv rq clk (Begin, s))"
    by (metis funpow_swap1 funpow.simps(2) comp_apply eval_nat_numeral(2) semiring_norm(26,27))
  have marked: "(solo_step sv rq clk ^^ 3) (Marking oc r, s') =
      (Answered (Inr oc), transition_to_grace sv (at_mark clk) (rq_payload_id rq) r s')" for oc r s'
    by (simp add: numeral_3_eq_3 solo_step_def)
  have no_mark: "answer_from_record sv (rq_payload rq) c r \<noteq> (Inl e, True)" for c r e
    by (auto simp: answer_from_record_def Let_def split: if_splits sum.splits)
  show ?thesis
    unfolding first
    by (auto simp: solo_step_def [of sv rq clk] process_def solo_first_request [unfolded solo_step_def]
        marked [unfolded solo_step_def] no_mark solo_Answered [unfolded solo_step_def] Let_def
        split: option.splits sum.splits prod.splits exn.splits bool.splits)
qed

text \<open>A thread that runs alone at one instant is an execution of the whole system.\<close>

lemma solo_is_execution:
  assumes "i < length (w_threads w)" "i < length reqs" "\<And>th. instant clk th = w_now w"
    and "(solo_step sv (reqs ! i) clk ^^ n) (w_threads w ! i, w_store w) = (th, s)"
  shows "(step sv reqs)\<^sup>*\<^sup>* w (w\<lparr>w_store := s, w_threads := (w_threads w)[i := th]\<rparr>)"
  using assms(4)
proof (induction n arbitrary: th s)
  case 0
  then show ?case by auto
next
  case (Suc n)
  obtain th1 s1 where r: "(solo_step sv (reqs ! i) clk ^^ n) (w_threads w ! i, w_store w) = (th1, s1)" by force
  let ?w1 = "w\<lparr>w_store := s1, w_threads := (w_threads w)[i := th1]\<rparr>"
  have "thread_step sv (reqs ! i) (w_now ?w1) (w_threads ?w1 ! i) (w_store ?w1) = (th, s)"
    using Suc.prems r assms(1,3) by (simp add: solo_step_def)
  from step.run [OF _ assms(2) this] assms(1) Suc.IH [OF r] show ?case by (simp add: rtranclp.rtrancl_into_rtrancl)
qed

section \<open>Requests that race for one payload\<close>

text \<open>Errors a request may end with for reasons that are its own.\<close>

definition own_error :: "'s process_service \<Rightarrow> request \<Rightarrow> exn \<Rightarrow> bool" where
  "own_error sv rq e \<longleftrightarrow>
     (case resolve (sv_consumers sv) (rq_consumer_id rq) of
        None \<Rightarrow> e = ConsumerNotFoundError (or_else (rq_consumer_id rq) (asc ''<default>''))
      | Some c \<Rightarrow>
          if \<not> cc_enabled c then e = ConsumerDisabledError (cc_consumer_id c)
          else sv_pipeline sv (rq_payload rq) (cc_masking_mode c) c (rq_payload_id rq) = Inl e)"

text \<open>What a thread may hold while no record is stored, and once the record \<open>r\<close> is.\<close>

fun before_insert :: "'s process_service \<Rightarrow> request \<Rightarrow> thread \<Rightarrow> bool" where
  "before_insert sv rq Begin \<longleftrightarrow> True"
| "before_insert sv rq (Transforming c) \<longleftrightarrow>
     resolve (sv_consumers sv) (rq_consumer_id rq) = Some c \<and> cc_enabled c"
| "before_insert sv rq (Saving tr r) \<longleftrightarrow> describes sv r (rq_payload rq) (tr_text tr)"
| "before_insert sv rq (Rereading r) \<longleftrightarrow> False"
| "before_insert sv rq (Marking oc r) \<longleftrightarrow> False"
| "before_insert sv rq (Answered (Inl e)) \<longleftrightarrow> own_error sv rq e"
| "before_insert sv rq (Answered (Inr oc)) \<longleftrightarrow> False"

fun after_insert :: "'s process_service \<Rightarrow> str \<Rightarrow> request \<Rightarrow> thread \<Rightarrow> bool" where
  "after_insert sv masked rq (Rereading r) \<longleftrightarrow> mr_original_fp r = fp sv (rq_payload rq)"
| "after_insert sv masked rq (Answered (Inr oc)) \<longleftrightarrow> oc_result oc = masked"
| "after_insert sv masked rq th \<longleftrightarrow> before_insert sv rq th"

lemma before_after: "before_insert sv rq th \<Longrightarrow> after_insert sv masked rq th"
  by (cases "(sv, masked, rq, th)" rule: after_insert.cases) auto

definition threads_all :: "(request \<Rightarrow> thread \<Rightarrow> bool) \<Rightarrow> request list \<Rightarrow> thread list \<Rightarrow> bool" where
  "threads_all P reqs ths \<longleftrightarrow> length ths = length reqs \<and> (\<forall>i < length ths. P (reqs ! i) (ths ! i))"

lemma threads_all_update:
  "threads_all P reqs ths \<Longrightarrow> (P (reqs ! i) (ths ! i) \<Longrightarrow> P (reqs ! i) th) \<Longrightarrow>
   threads_all P reqs (ths[i := th])"
  by (auto simp: threads_all_def) (metis nth_list_update_eq nth_list_update_neq)

lemma threads_all_mono:
  "threads_all P reqs ths \<Longrightarrow> (\<And>rq th. P rq th \<Longrightarrow> Q rq th) \<Longrightarrow> threads_all Q reqs ths"
  by (auto simp: threads_all_def)

context service
begin

text \<open>
  Until \<open>horizon\<close>, the earliest instant at which a record saved from the start on can expire,
  either nothing is stored for the identifier and no thread has answered, or one record is
  stored for good and every answer is its masked text.
\<close>

definition race_inv :: "str \<Rightarrow> str \<Rightarrow> request list \<Rightarrow> time \<Rightarrow> 's world \<Rightarrow> bool" where
  "race_inv pid payload reqs horizon w \<longleftrightarrow> invar (w_now w) (w_store w) \<and>
     ((view (w_now w) (w_store w) pid = None \<and> threads_all (before_insert sv) reqs (w_threads w)) \<or>
      (\<exists>r masked. describes sv r payload masked \<and>
         (\<forall>t. w_now w \<le> t \<and> t < horizon \<longrightarrow> view t (w_store w) pid = Some r) \<and>
         threads_all (after_insert sv masked) reqs (w_threads w)))"

lemma thread_before:
  assumes "invar now s" "view now s pid = None" "before_insert sv rq th" "rq_payload_id rq = pid"
    and "thread_step sv rq now th s = (th', s')"
  shows "invar now s' \<and>
    ((view now s' pid = None \<and> before_insert sv rq th') \<or>
     (\<exists>r masked. describes sv r (rq_payload rq) masked \<and>
        (\<forall>t. now \<le> t \<and> t < now + of_int (sv_ttl sv) \<longrightarrow> view t s' pid = Some r) \<and>
        after_insert sv masked rq th'))"
proof (cases th)
  case Begin
  then show ?thesis
    using assms get_law [OF assms(1), of pid]
    by (auto simp: store_law own_error_def split: option.splits if_splits)
next
  case (Transforming c)
  then show ?thesis
    using assms build_record_describes [OF pipeline_law]
    by (auto simp: own_error_def split: sum.splits)
next
  case (Saving tr r)
  with assms(3) have d: "describes sv r (rq_payload rq) (tr_text tr)" by simp
  obtain s1 where s1: "st_save_if_absent S now pid r (sv_ttl sv) s = (Inr True, s1)" "invar now s1"
    "\<forall>t \<ge> now. view t s1 = put now pid r (sv_ttl sv) t (view t s)"
    using save_new_law [OF assms(1,2) ttl_law] by blast
  with assms(4,5) Saving have th': "th' = Answered (Inr (first_outcome tr))" "s' = s1"
    by (simp_all add: store_law)
  have "\<forall>t. now \<le> t \<and> t < now + of_int (sv_ttl sv) \<longrightarrow> view t s' pid = Some r"
    using s1(3) th'(2) by (simp add: put_def)
  with d s1(2) th' show ?thesis
    by (intro conjI disjI2 exI [of _ r] exI [of _ "tr_text tr"]) (simp_all add: first_outcome_def)
next
  case (Answered a)
  then show ?thesis using assms by auto
qed (use assms in simp_all)

lemma thread_after:
  assumes "invar now s" "view now s pid = Some r" "after_insert sv masked rq th" "rq_payload_id rq = pid"
    and "describes sv r (rq_payload rq) masked" "thread_step sv rq now th s = (th', s')"
  shows "invar now s' \<and> (\<forall>t \<ge> now. view t s' = view t s) \<and> after_insert sv masked rq th'"
proof (cases th)
  case Begin
  then show ?thesis
    using assms get_law [OF assms(1), of pid] answer_from_record_retry [OF assms(5)]
    by (auto simp: store_law own_error_def outcome_def split: option.splits if_splits)
next
  case (Transforming c)
  then show ?thesis
    using assms build_record_describes [OF pipeline_law]
    by (auto simp: own_error_def split: sum.splits)
next
  case (Saving tr r')
  then show ?thesis
    using assms save_dup_law [OF assms(1,2) ttl_law, of r']
    by (auto simp: store_law describes_def)
next
  case (Rereading r')
  then show ?thesis
    using assms get_law [OF assms(1), of pid]
    by (auto simp: store_law answer_from_winner_def describes_def outcome_def)
next
  case (Marking oc r')
  with assms show ?thesis by simp
next
  case (Answered a)
  with assms show ?thesis by auto
qed

lemma race_inv_tick:
  assumes "race_inv pid payload reqs horizon w" "w_now w \<le> t"
  shows "race_inv pid payload reqs horizon (w\<lparr>w_now := t\<rparr>)"
proof (cases "view (w_now w) (w_store w) pid = None \<and> threads_all (before_insert sv) reqs (w_threads w)")
  case True
  with assms show ?thesis
    unfolding race_inv_def by (intro conjI disjI1) (auto intro: view_gone invar_later)
next
  case False
  with assms obtain r masked where "describes sv r payload masked"
    "\<forall>t. w_now w \<le> t \<and> t < horizon \<longrightarrow> view t (w_store w) pid = Some r"
    "threads_all (after_insert sv masked) reqs (w_threads w)" "invar (w_now w) (w_store w)"
    by (auto simp: race_inv_def)
  with assms(2) show ?thesis
    unfolding race_inv_def by (intro conjI disjI2 exI [of _ r] exI [of _ masked]) (auto intro: invar_later)
qed

lemma race_inv_step:
  assumes "race_inv pid payload reqs horizon w" "step sv reqs w w'"
    and "\<forall>rq \<in> set reqs. rq_payload rq = payload \<and> rq_payload_id rq = pid"
    and "w_now w' < horizon" "horizon \<le> w_now w + of_int (sv_ttl sv)"
  shows "race_inv pid payload reqs horizon w'"
  using assms(2)
proof (cases rule: step.cases)
  case (tick t)
  then show ?thesis using race_inv_tick [OF assms(1)] by simp
next
  case (run i th s)
  then have rq: "rq_payload (reqs ! i) = payload" "rq_payload_id (reqs ! i) = pid"
    using assms(3) nth_mem by blast+
  from assms(1) have inv: "invar (w_now w) (w_store w)" by (simp add: race_inv_def)
  show ?thesis
  proof (cases "view (w_now w) (w_store w) pid = None \<and> threads_all (before_insert sv) reqs (w_threads w)")
    case True
    then have b: "before_insert sv (reqs ! i) (w_threads w ! i)"
      using run by (simp add: threads_all_def)
    from thread_before [OF inv conjunct1 [OF True] b rq(2) run(4)] consider "invar (w_now w) s" "view (w_now w) s pid = None" "before_insert sv (reqs ! i) th"
      | r masked where "invar (w_now w) s" "describes sv r payload masked"
          "\<forall>t. w_now w \<le> t \<and> t < w_now w + of_int (sv_ttl sv) \<longrightarrow> view t s pid = Some r"
          "after_insert sv masked (reqs ! i) th"
      unfolding rq(1) by (elim conjE disjE exE)
    then show ?thesis
    proof cases
      case 1
      with True run show ?thesis by (simp add: race_inv_def threads_all_update)
    next
      case (2 r masked)
      have "threads_all (after_insert sv masked) reqs (w_threads w)"
        using threads_all_mono [OF conjunct2 [OF True] before_after] .
      with 2 run assms(5) show ?thesis
        unfolding race_inv_def
        by (intro conjI disjI2 exI [of _ r] exI [of _ masked]) (auto simp: threads_all_update)
    qed
  next
    case False
    with assms(1) obtain r masked where r: "describes sv r payload masked"
      "\<forall>t. w_now w \<le> t \<and> t < horizon \<longrightarrow> view t (w_store w) pid = Some r"
      "threads_all (after_insert sv masked) reqs (w_threads w)"
      by (auto simp: race_inv_def)
    then have a: "after_insert sv masked (reqs ! i) (w_threads w ! i)"
      using run by (simp add: threads_all_def)
    have v: "view (w_now w) (w_store w) pid = Some r" using r(2) assms(4) run by simp
    from thread_after [OF inv v a rq(2) _ run(4)] r(1) rq(1)
    have "invar (w_now w) s" "\<forall>t \<ge> w_now w. view t s = view t (w_store w)" "after_insert sv masked (reqs ! i) th"
      by simp_all
    with r run show ?thesis
      unfolding race_inv_def
      by (intro conjI disjI2 exI [of _ r] exI [of _ masked]) (auto simp: threads_all_update)
  qed
qed

lemma race_inv_start:
  "invar now s \<Longrightarrow> view now s pid = None \<Longrightarrow> race_inv pid payload reqs horizon (start now s reqs)"
  by (simp add: race_inv_def start_def threads_all_def)

lemma step_now: "step sv reqs w w' \<Longrightarrow> w_now w \<le> w_now w'"
  by (auto elim: step.cases)

lemma race_inv_reachable:
  assumes "(step sv reqs)\<^sup>*\<^sup>* (start now s reqs) w" "invar now s" "view now s pid = None"
    and "\<forall>rq \<in> set reqs. rq_payload rq = payload \<and> rq_payload_id rq = pid"
    and "w_now w < now + of_int (sv_ttl sv)"
  shows "now \<le> w_now w \<and> race_inv pid payload reqs (now + of_int (sv_ttl sv)) w"
  using assms(1,5)
proof (induction rule: rtranclp_induct)
  case base
  show ?case using race_inv_start [OF assms(2,3)] by (simp add: start_def)
next
  case (step w w')
  from step_now [OF step.hyps(2)] step.prems have "w_now w < now + of_int (sv_ttl sv)" by linarith
  with step.IH have "now \<le> w_now w" "race_inv pid payload reqs (now + of_int (sv_ttl sv)) w" by auto
  with race_inv_step [OF _ step.hyps(2) assms(4) step.prems] step_now [OF step.hyps(2)]
  show ?case by simp
qed

text \<open>Each of the racing requests gets the text of the stored record, or fails for a reason of its own.\<close>

lemma race_answers:
  assumes "(step sv reqs)\<^sup>*\<^sup>* (start now s reqs) w" "invar now s" "view now s pid = None"
    and "\<forall>rq \<in> set reqs. rq_payload rq = payload \<and> rq_payload_id rq = pid"
    and "w_now w < now + of_int (sv_ttl sv)"
  shows "\<exists>masked. \<forall>i < length reqs. \<forall>ans. w_threads w ! i = Answered ans \<longrightarrow>
      (case ans of
         Inl e \<Rightarrow> own_error sv (reqs ! i) e
       | Inr oc \<Rightarrow> oc_result oc = masked \<and>
           (\<exists>r. view (w_now w) (w_store w) pid = Some r \<and> describes sv r payload masked))"
proof -
  from race_inv_reachable [OF assms] consider
      "threads_all (before_insert sv) reqs (w_threads w)"
    | r masked where "describes sv r payload masked" "view (w_now w) (w_store w) pid = Some r"
        "threads_all (after_insert sv masked) reqs (w_threads w)"
    using assms(5) by (auto simp: race_inv_def)
  then show ?thesis
  proof cases
    case 1
    then have "w_threads w ! i = Answered (Inr oc) \<Longrightarrow> i < length reqs \<Longrightarrow> False"
      and "w_threads w ! i = Answered (Inl e) \<Longrightarrow> i < length reqs \<Longrightarrow> own_error sv (reqs ! i) e" for i oc e
      by (auto simp: threads_all_def dest!: spec [of _ i])
    then show ?thesis by (auto split: sum.splits)
  next
    case (2 r masked)
    then have "w_threads w ! i = Answered (Inr oc) \<Longrightarrow> i < length reqs \<Longrightarrow> oc_result oc = masked"
      and "w_threads w ! i = Answered (Inl e) \<Longrightarrow> i < length reqs \<Longrightarrow> own_error sv (reqs ! i) e" for i oc e
      by (auto simp: threads_all_def dest!: spec [of _ i])
    with 2(1,2) show ?thesis by (intro exI [of _ masked]) (auto split: sum.splits)
  qed
qed

end

end
