(* ===== verification/Pipeline.thy ===== *)
theory Pipeline
  imports Engine Fio Context Interleaving
begin

text \<open>
  The masking pipeline: \<^verbatim>\<open>detectors/registry.py\<close>, \<^verbatim>\<open>detectors/builtin.py\<close> and
  \<^verbatim>\<open>core/pipeline.py\<close>. The registry runs its detectors one after the other and drops what a
  detector that raises would have found; the pipeline resolves overlaps, decides every candidate in
  context, applies the policies and replaces what is personal. The interfaces meet here: the
  contract \<open>detector\<close> gives \<open>registry\<close>, whose candidates are well formed; the contract
  \<open>span_selection\<close> makes the chosen ones a chain of spans; the engine then describes its own result,
  which is what the contract \<open>service\<close> asks of a pipeline.
\<close>

section \<open>The registry\<close>

type_synonym detect_fun = "str \<Rightarrow> candidate list result"

definition register :: "detect_fun list \<Rightarrow> detect_fun \<Rightarrow> detect_fun list" where
  "register detectors d = detectors @ [d]"

fun detect_loop :: "str \<Rightarrow> candidate list \<Rightarrow> detect_fun list \<Rightarrow> candidate list" where
  "detect_loop text candidates [] = candidates"
| "detect_loop text candidates (d # ds) =
     (case d text of
        Inl _ \<Rightarrow> detect_loop text candidates ds
      | Inr found \<Rightarrow> detect_loop text (candidates @ found) ds)"

definition detect_all :: "detect_fun list \<Rightarrow> str \<Rightarrow> candidate list" where
  "detect_all detectors text = detect_loop text [] detectors"

definition register_builtin_detectors :: "ucd \<Rightarrow> analyzer \<Rightarrow> detect_fun list \<Rightarrow> detect_fun list" where
  "register_builtin_detectors U A registry =
     foldl register registry
       [email_detect, fio_detect U A, phone_detect U, inn_detect U, card_detect U, passport_detect U,
        department_code_detect U, cvv_detect U, pin_detect U, driver_license_detect U, date_detect U,
        cardholder_detect U, address_detect U, birth_place_detect U, citizenship_detect U,
        passport_issuer_detect U]"

section \<open>The pipeline\<close>

record pii_pipeline =
  pl_detectors :: "detect_fun list"
  pl_decider :: privacy_engine
  pl_rules :: "relationship_rule list"

definition analyze ::
  "ucd \<Rightarrow> pii_pipeline \<Rightarrow> str \<Rightarrow> consumer_config \<Rightarrow> candidate list \<times> privacy_decision list" where
  "analyze U pl text consumer =
     (let candidates = resolve_overlaps (detect_all (pl_detectors pl) text);
          decisions = decide_batch U (pl_decider pl) text candidates
      in (candidates, evaluate (pl_rules pl) text decisions candidates consumer))"

definition pipeline_process ::
  "ucd \<Rightarrow> analyzer \<Rightarrow> hash8 \<Rightarrow> pii_pipeline \<Rightarrow> str \<Rightarrow> masking_mode \<Rightarrow> consumer_config \<Rightarrow> str
   \<Rightarrow> transform_result result option" where
  "pipeline_process U A H pl text mode consumer session_seed =
     get_strategy mode U A H text (snd (analyze U pl text consumer)) session_seed"

text \<open>
  The pipeline as \<^verbatim>\<open>main.py\<close> builds it: the built-in detectors, the decider with the configured
  window and the default relationship rules.
\<close>

definition build_pipeline :: "ucd \<Rightarrow> analyzer \<Rightarrow> nat \<Rightarrow> pii_pipeline" where
  "build_pipeline U A context_window_chars =
     \<lparr>pl_detectors = register_builtin_detectors U A [],
      pl_decider = \<lparr>pe_window_chars = context_window_chars, pe_emit_uncertain = False\<rparr>,
      pl_rules = DEFAULT_RELATIONSHIP_RULES\<rparr>"

text \<open>The pipeline as a field of the service: a call that does not return is \<open>Diverges\<close>.\<close>

definition returned :: "'a result option \<Rightarrow> 'a result" where
  "returned r = (case r of None \<Rightarrow> Inl Diverges | Some res \<Rightarrow> res)"

definition run_pipeline ::
  "ucd \<Rightarrow> analyzer \<Rightarrow> hash8 \<Rightarrow> pii_pipeline \<Rightarrow> str \<Rightarrow> masking_mode \<Rightarrow> consumer_config \<Rightarrow> str
   \<Rightarrow> transform_result result" where
  "run_pipeline U A H pl text mode consumer session_seed =
     returned (pipeline_process U A H pl text mode consumer session_seed)"

lemma returned_Inr [simp]: "returned r = Inr x \<longleftrightarrow> r = Some (Inr x)"
  by (simp add: returned_def split: option.splits)

section \<open>Detection\<close>

lemma detect_loop_append: "detect_loop text cs ds = cs @ concat (map (\<lambda>d. case d text of Inl _ \<Rightarrow> [] | Inr found \<Rightarrow> found) ds)"
  by (induction ds arbitrary: cs) (auto split: sum.splits)

lemma detect_all_concat: "detect_all ds text = concat (map (\<lambda>d. case d text of Inl _ \<Rightarrow> [] | Inr found \<Rightarrow> found) ds)"
  by (simp add: detect_all_def detect_loop_append)

lemma found_member: "c \<in> set (case r of Inl _ \<Rightarrow> [] | Inr found \<Rightarrow> found) \<longleftrightarrow> (\<exists>found. r = Inr found \<and> c \<in> set found)"
  by (cases r) auto

lemma detect_all_member: "c \<in> set (detect_all ds text) \<longleftrightarrow> (\<exists>d \<in> set ds. \<exists>found. d text = Inr found \<and> c \<in> set found)"
  by (simp add: detect_all_concat found_member) metis

text \<open>A registry of detectors that all keep the contract.\<close>

locale registry =
  fixes detectors :: "detect_fun list"
  assumes registered: "d \<in> set detectors \<Longrightarrow> detector d"
begin

lemma detect_all_wf: "c \<in> set (detect_all detectors text) \<Longrightarrow> wf_candidate text c"
  using registered detector.detect_wf unfolding detect_all_member by blast

lemma chosen_chain: "span_chain (length text) 0 (map c_span (resolve_overlaps (detect_all detectors text)))"
proof -
  have "resolve_overlaps cs = sort_key (fst \<circ> c_span) (resolve_overlaps cs)" for cs
    using resolve_overlaps_sorted [of cs] by (intro sort_key_id_if_sorted [symmetric]) (simp add: comp_def c_span_def)
  moreover have "good_span (length text) (c_span c)" if "c \<in> set (detect_all detectors text)" for c
    using wf_good_span [OF detect_all_wf [OF that]] .
  ultimately show ?thesis
    using overlap_choice.sorted_chain [of "detect_all detectors text" "length text"] by metis
qed

end

interpretation builtin: registry "register_builtin_detectors U A []" for U A
proof (rule registry.intro)
  fix d assume "d \<in> set (register_builtin_detectors U A [])"
  then show "detector d"
    by (auto simp: register_builtin_detectors_def register_def
        intro: email.detector_axioms fio.detector_axioms phone.detector_axioms inn.detector_axioms
          card.detector_axioms passport.detector_axioms department_code.detector_axioms cvv.detector_axioms
          pin.detector_axioms driver_license.detector_axioms date.detector_axioms cardholder.detector_axioms
          address.detector_axioms birth_place.detector_axioms citizenship.detector_axioms
          passport_issuer.detector_axioms)
qed

section \<open>The pipeline describes its result\<close>

lemma analyze_spans:
  "map decision_span (snd (analyze U pl text consumer)) = map c_span (fst (analyze U pl text consumer))"
proof -
  let ?cs = "resolve_overlaps (detect_all (pl_detectors pl) text)"
  have "map decision_span (evaluate rules text ds cs consumer) = map decision_span ds" for rules ds cs
    using evaluate_candidates [of rules "text" ds cs consumer] by (metis (mono_tags, lifting) list.map_comp map_eq_conv comp_apply)
  moreover have "map decision_span (decide_batch U (pl_decider pl) text ?cs) = map c_span ?cs"
    by (rule nth_equalityI) (simp_all add: decide_batch_nth)
  ultimately show ?thesis by (simp add: analyze_def Let_def)
qed

context registry
begin

lemma analyze_chain:
  "pl_detectors pl = detectors \<Longrightarrow> span_chain (length text) 0 (map decision_span (snd (analyze U pl text consumer)))"
  unfolding analyze_spans using chosen_chain [of "text"] by (simp add: analyze_def Let_def)

lemma run_pipeline_faithful:
  assumes "pl_detectors pl = detectors" "run_pipeline U A H pl text mode consumer session_seed = Inr tr"
  shows "faithful text tr"
  using assms(2) by (intro transform_is_faithful [OF _ analyze_chain [OF assms(1)]])
    (simp add: run_pipeline_def pipeline_process_def get_strategy_def)

end

lemma run_pipeline_returns:
  assumes "\<And>seed. fair_stream (new_stream H seed)"
  shows "\<exists>res. pipeline_process U A H pl text mode consumer session_seed = Some res"
  using build_transform_returns [OF assms, of U A "text" "snd (analyze U pl text consumer)" mode session_seed]
  by (auto simp: pipeline_process_def get_strategy_def)

text \<open>A pipeline run on a text with one citizenship.\<close>

lemma sample_analysis:
  "snd (analyze ucd_ru (build_pipeline ucd_ru (\<lambda>_. []) 220) (ru ''^grawdanstvo: ^Cili'') default_consumer_config) = [sample_rf]"
  by code_simp

lemma sample_pipeline_run:
  "pipeline_process ucd_ru (\<lambda>_. []) (\<lambda>_. 2) (build_pipeline ucd_ru (\<lambda>_. []) 220) (ru ''^grawdanstvo: ^Cili'') mode
     default_consumer_config (asc ''p1'') = sample_run mode"
  by (simp only: pipeline_process_def get_strategy_def sample_analysis sample_run_def)

section \<open>Properties\<close>

text \<open>
  C12. What the built-in detectors report is well formed and independent: every candidate is a
  non-empty span inside the text and carries the text of the span; what one detector finds is in the
  result whether or not another one raises, and a detector that raises contributes nothing.
\<close>

theorem builtin_detection_sound:
  "(\<forall>c \<in> set (detect_all (register_builtin_detectors U A []) text). wf_candidate text c) \<and>
   (\<forall>d \<in> set (register_builtin_detectors U A []). \<forall>found. d text = Inr found \<longrightarrow>
      set found \<subseteq> set (detect_all (register_builtin_detectors U A []) text)) \<and>
   (\<forall>ds es d e. d text = Inl e \<longrightarrow> detect_all (ds @ d # es) text = detect_all (ds @ es) text)"
  using builtin.detect_all_wf [of _ U A "text"] by (auto simp: detect_all_member) (auto simp: detect_all_concat)

lemma builtin_detection_sound_witness:
  "\<exists>c. detect_all (register_builtin_detectors ucd_ru (\<lambda>_. []) []) (asc ''cvv 123'') = [c] \<and>
     wf_candidate (asc ''cvv 123'') c \<and> c_span c = (4, 7)"
proof -
  let ?cs = "detect_all (register_builtin_detectors ucd_ru (\<lambda>_. []) []) (asc ''cvv 123'')"
  have "map c_span ?cs = [(4, 7)]" by code_simp
  then obtain c where c: "?cs = [c]" "c_span c = (4, 7)" by auto
  have "\<forall>c \<in> set ?cs. wf_candidate (asc ''cvv 123'') c" by (rule builtin_detection_sound [THEN conjunct1])
  with c show ?thesis by simp
qed

text \<open>
  C4. The pipeline masks exactly what its analysis calls personal, and can be undone: in every mode the
  recorded occurrences are the spans of the decisions to mask, in order; masking the source with them
  gives the masked text and undoing them gives the source. When nothing is personal the text is
  unchanged.
\<close>

theorem pipeline_faithful:
  assumes "pl_detectors pl = register_builtin_detectors U A []"
    and "pipeline_process U A H pl text mode consumer session_seed = Some (Inr tr)"
  shows "map (\<lambda>occ. (nat (o_original_start occ), nat (o_original_end occ))) (tr_occurrences tr) =
      map (\<lambda>d. c_span (d_candidate d)) (filter is_personal (snd (analyze U pl text consumer))) \<and>
    apply_mask text (tr_occurrences tr) = tr_text tr \<and> apply_demask (tr_text tr) (tr_occurrences tr) = text \<and>
    (filter is_personal (snd (analyze U pl text consumer)) = [] \<longrightarrow> tr_text tr = text)"
proof -
  have run: "build_transform_result U A H text (snd (analyze U pl text consumer)) mode session_seed = Some (Inr tr)"
    using assms(2) by (simp add: pipeline_process_def get_strategy_def)
  note occs = transform_occurrences [OF run builtin.analyze_chain [OF assms(1)]]
  then have "tr_text tr = text" if "filter is_personal (snd (analyze U pl text consumer)) = []"
    using that by (auto simp: apply_mask_def splice_def py_slice_simps)
  with occs show ?thesis by blast
qed

lemma pipeline_faithful_witness:
  "\<exists>tr. pipeline_process ucd_ru (\<lambda>_. []) (\<lambda>_. 2) (build_pipeline ucd_ru (\<lambda>_. []) 220) (ru ''^grawdanstvo: ^Cili'') SYNTHETIC
       default_consumer_config (asc ''p1'') = Some (Inr tr) \<and>
     map (\<lambda>occ. (nat (o_original_start occ), nat (o_original_end occ))) (tr_occurrences tr) = [(13, 17)] \<and>
     apply_demask (tr_text tr) (tr_occurrences tr) = ru ''^grawdanstvo: ^Cili''"
proof -
  let ?pl = "build_pipeline ucd_ru (\<lambda>_. []) 220"
  obtain tr where tr: "sample_run SYNTHETIC = Some (Inr tr)" by (rule sample_run_returns)
  have det: "pl_detectors ?pl = register_builtin_detectors ucd_ru (\<lambda>_. []) []" by (simp add: build_pipeline_def)
  have spans: "map (\<lambda>d. c_span (d_candidate d)) (filter is_personal [sample_rf]) = [(13, 17)]" by code_simp
  have run: "pipeline_process ucd_ru (\<lambda>_. []) (\<lambda>_. 2) ?pl (ru ''^grawdanstvo: ^Cili'') SYNTHETIC default_consumer_config (asc ''p1'') = Some (Inr tr)"
    using tr by (simp only: sample_pipeline_run)
  note f = pipeline_faithful [OF det run, unfolded sample_analysis spans]
  show ?thesis by (rule exI [of _ tr], intro conjI) (rule run, rule f [THEN conjunct1], rule f [THEN conjunct2, THEN conjunct2, THEN conjunct1])
qed

text \<open>
  C11. The pipeline always comes back: when the digest streams never run out of acceptable draws, every
  text in every mode gets a masked text or an exception of the generator, never an endless loop.
\<close>

theorem pipeline_returns:
  assumes "\<forall>seed. fair_stream (new_stream H seed)"
  shows "\<exists>res. pipeline_process U A H pl text mode consumer session_seed = Some res \<and>
    run_pipeline U A H pl text mode consumer session_seed = res"
  using run_pipeline_returns [of H U A pl "text" mode consumer session_seed] assms by (auto simp: run_pipeline_def returned_def)

lemma pipeline_returns_witness:
  "\<exists>res. pipeline_process ucd_ru (\<lambda>_. []) (\<lambda>_. 2) (build_pipeline ucd_ru (\<lambda>_. []) 220) (asc ''a'') TOKEN default_consumer_config (asc ''p1'') = Some res"
proof -
  have "\<forall>seed. fair_stream (new_stream (\<lambda>_. 2) seed)"
    unfolding new_stream_def by (intro allI constant_stream_fair) simp
  from pipeline_returns [OF this] show ?thesis by blast
qed

end
