(* ===== verification/Admission.thy ===== *)
theory Admission
  imports Models "HOL-Library.Multiset"
begin

text \<open>
  Admission control: \<open>AdmissionController\<close> of \<^verbatim>\<open>admission/controller.py\<close> and the gate of
  \<^verbatim>\<open>admission/middleware.py\<close>. What an operation learns from outside (the monotonic clock, the
  resident memory, the health of the store) is its argument \<open>env\<close>; the lock makes an operation
  atomic and the model reads the clock once in it. Its metrics are in the theory \<open>Telemetry\<close>. A step relation over
  admitted and released requests shows that the bookkeeping is exact: the counters always describe
  the tickets that are out, so the limits hold and the clamping in \<open>release\<close> never hides a drift.
\<close>

record env =
  ev_now :: time
  ev_rss_mb :: rat
  ev_auth_degraded :: bool
  ev_cache_degraded :: bool

section \<open>Smoothed rates\<close>

record ewma_rate =
  ew_alpha :: rat
  ew_rate :: rat
  ew_last :: "time option"

definition new_ewma :: "rat \<Rightarrow> ewma_rate" where
  "new_ewma alpha = \<lparr>ew_alpha = alpha, ew_rate = 0, ew_last = None\<rparr>"

definition observe :: "time \<Rightarrow> rat \<Rightarrow> ewma_rate \<Rightarrow> ewma_rate" where
  "observe now amount e =
     (case ew_last e of
        None \<Rightarrow> e\<lparr>ew_last := Some now\<rparr>
      | Some last_at \<Rightarrow>
          (let dt = max (now - last_at) (1 / 1000);
               instant_rate = amount / dt
           in e\<lparr>ew_rate := ew_alpha e * instant_rate + (1 - ew_alpha e) * ew_rate e, ew_last := Some now\<rparr>))"

section \<open>The controller\<close>

record ticket =
  tk_work_units :: rat
  tk_started :: time

record controller =
  ac_max_in_flight :: int
  ac_max_backlog :: rat
  ac_base_cost :: rat
  ac_per_char :: rat
  ac_min_retry :: rat
  ac_max_retry :: rat
  ac_safety :: rat
  ac_rss_limit_mb :: rat
  ac_in_flight :: int
  ac_outstanding_work :: rat
  ac_arrivals :: ewma_rate
  ac_completions :: ewma_rate
  ac_work_completed :: ewma_rate
  ac_latency_ewma :: rat
  ac_rss_checked_at :: time
  ac_rss_mb :: rat

definition default_controller :: controller where
  "default_controller = \<lparr>ac_max_in_flight = 64, ac_max_backlog = 4000000, ac_base_cost = 500,
     ac_per_char = 1, ac_min_retry = 1, ac_max_retry = 30, ac_safety = 3 / 2, ac_rss_limit_mb = 12288,
     ac_in_flight = 0, ac_outstanding_work = 0, ac_arrivals = new_ewma (1 / 5),
     ac_completions = new_ewma (1 / 5), ac_work_completed = new_ewma (1 / 5), ac_latency_ewma = 0,
     ac_rss_checked_at = 0, ac_rss_mb = 0\<rparr>"

record rejection =
  rj_retry_after :: rat
  rj_load_state :: load_state
  rj_reason :: str

definition estimate_work :: "controller \<Rightarrow> int \<Rightarrow> rat" where
  "estimate_work c payload_size = ac_base_cost c + ac_per_char c * of_int payload_size"

text \<open>\<open>_rss_now_mb\<close> refreshes its reading at most once per second.\<close>

definition rss_now :: "env \<Rightarrow> controller \<Rightarrow> controller" where
  "rss_now ev c =
     (if ev_now ev - ac_rss_checked_at c > 1
      then c\<lparr>ac_rss_mb := ev_rss_mb ev, ac_rss_checked_at := ev_now ev\<rparr> else c)"

definition load_state_locked :: "env \<Rightarrow> controller \<Rightarrow> load_state \<times> controller" where
  "load_state_locked ev c0 =
     (let c = rss_now ev c0 in
      if ac_rss_mb c > ac_rss_limit_mb c then (CRITICAL, c)
      else if ev_auth_degraded ev then (STORAGE_DEGRADED, c)
      else if ac_in_flight c \<ge> ac_max_in_flight c \<or> ac_outstanding_work c > 8 / 10 * ac_max_backlog c
      then (OVERLOADED, c)
      else if ev_cache_degraded ev then (CACHE_DEGRADED, c)
      else (NORMAL, c))"

text \<open>\<open>round(x, 1)\<close>: to the nearest tenth, ties to the even one.\<close>

definition round_half_even :: "rat \<Rightarrow> int" where
  "round_half_even x =
     (let f = \<lfloor>x\<rfloor>; r = x - of_int f in
      if r < 1 / 2 then f else if r > 1 / 2 then f + 1 else if even f then f else f + 1)"

definition round1 :: "rat \<Rightarrow> rat" where
  "round1 x = of_int (round_half_even (10 * x)) / 10"

definition retry_after_locked :: "env \<Rightarrow> rat \<Rightarrow> controller \<Rightarrow> rat" where
  "retry_after_locked ev incoming_work c =
     (let service_work_rate = ew_rate (ac_work_completed c);
          base_wait = (if service_work_rate \<le> 0 then max (ac_latency_ewma c) (ac_min_retry c)
                       else (ac_outstanding_work c + incoming_work) / service_work_rate);
          arrival_rate = ew_rate (ac_arrivals c);
          pressure = (if service_work_rate > 0 then max 1 (arrival_rate / service_work_rate) else 1);
          modifier = (if ev_auth_degraded ev then 2 else 1);
          effective_min = min (ac_min_retry c * max 1 (pressure / 2)) (ac_max_retry c / 3);
          retry = base_wait * pressure * ac_safety c * modifier
      in round1 (min (max retry effective_min) (ac_max_retry c)))"

definition try_acquire :: "env \<Rightarrow> int \<Rightarrow> controller \<Rightarrow> (rejection + ticket) \<times> controller" where
  "try_acquire ev payload_size c0 =
     (let work = estimate_work c0 payload_size;
          (state, c) = load_state_locked ev (c0\<lparr>ac_arrivals := observe (ev_now ev) work (ac_arrivals c0)\<rparr>);
          reject = (\<lambda>st reason. (Inl \<lparr>rj_retry_after = retry_after_locked ev work c,
                                    rj_load_state = st, rj_reason = asc reason\<rparr>, c))
      in if state = CRITICAL then reject CRITICAL ''critical_pressure''
         else if ac_in_flight c \<ge> ac_max_in_flight c then reject OVERLOADED ''in_flight_limit''
         else if ac_outstanding_work c + work > ac_max_backlog c then reject OVERLOADED ''backlog_limit''
         else (Inr \<lparr>tk_work_units = work, tk_started = ev_now ev\<rparr>,
               c\<lparr>ac_in_flight := ac_in_flight c + 1,
                 ac_outstanding_work := ac_outstanding_work c + work\<rparr>))"

definition release :: "env \<Rightarrow> ticket \<Rightarrow> controller \<Rightarrow> controller" where
  "release ev t c =
     (let latency = ev_now ev - tk_started t in
      c\<lparr>ac_in_flight := max 0 (ac_in_flight c - 1),
        ac_outstanding_work := max 0 (ac_outstanding_work c - tk_work_units t),
        ac_completions := observe (ev_now ev) 1 (ac_completions c),
        ac_work_completed := observe (ev_now ev) (tk_work_units t) (ac_work_completed c),
        ac_latency_ewma := 2 / 10 * latency + 8 / 10 * ac_latency_ewma c\<rparr>)"

text \<open>\<open>load_state\<close> and \<open>snapshot\<close>; both may refresh the memory reading.\<close>

definition current_load_state :: "env \<Rightarrow> controller \<Rightarrow> load_state \<times> controller" where
  "current_load_state ev c = load_state_locked ev c"

record admission_snapshot =
  as_state :: load_state
  as_in_flight :: int
  as_outstanding_work :: int
  as_arrival_work_rate :: rat
  as_service_work_rate :: rat
  as_completion_rate :: rat
  as_latency_ewma_ms :: rat
  as_rss_mb :: rat

definition round2 :: "rat \<Rightarrow> rat" where
  "round2 x = of_int (round_half_even (100 * x)) / 100"

definition snapshot :: "env \<Rightarrow> controller \<Rightarrow> admission_snapshot \<times> controller" where
  "snapshot ev c0 =
     (let (state, c) = load_state_locked ev c0 in
      (\<lparr>as_state = state, as_in_flight = ac_in_flight c, as_outstanding_work = round_half_even (ac_outstanding_work c),
        as_arrival_work_rate = round1 (ew_rate (ac_arrivals c)), as_service_work_rate = round1 (ew_rate (ac_work_completed c)),
        as_completion_rate = round2 (ew_rate (ac_completions c)), as_latency_ewma_ms = round1 (ac_latency_ewma c * 1000),
        as_rss_mb = round1 (ac_rss_mb c)\<rparr>, c))"

section \<open>The middleware\<close>

text \<open>
  A request as the gate sees it: its scope type and path, and its \<open>content-length\<close> header as
  \<open>int\<close> reads it (\<open>None\<close> when it is missing, empty or no number).
\<close>

record http_scope =
  hs_is_http :: bool
  hs_path :: str
  hs_content_length :: "int option"

datatype gate_result =
    PassThrough
  | TooLarge
  | Rejected rejection int
  | Admitted ticket

text \<open>\<open>int(exc.retry_after + 0.999)\<close>; \<open>int\<close> truncates towards 0.\<close>

definition retry_header :: "rat \<Rightarrow> int" where
  "retry_header retry_after =
     (let x = retry_after + 999 / 1000 in if 0 \<le> x then \<lfloor>x\<rfloor> else \<lceil>x\<rceil>)"

text \<open>The part of \<open>AdmissionMiddleware.__call__\<close> before the application runs.\<close>

definition gate :: "env \<Rightarrow> int \<Rightarrow> http_scope \<Rightarrow> controller option \<Rightarrow> gate_result \<times> controller option" where
  "gate ev max_bytes scope admission =
     (if \<not> hs_is_http scope \<or> hs_path scope \<noteq> asc ''/process'' then (PassThrough, admission)
      else case admission of
             None \<Rightarrow> (PassThrough, None)
           | Some c \<Rightarrow>
               (let psize = (case hs_content_length scope of Some n \<Rightarrow> n | None \<Rightarrow> 0) in
                if max_bytes \<noteq> 0 \<and> psize > max_bytes then (TooLarge, Some c)
                else case try_acquire ev psize c of
                       (Inl rj, c') \<Rightarrow> (Rejected rj (retry_header (rj_retry_after rj)), Some c')
                     | (Inr t, c') \<Rightarrow> (Admitted t, Some c')))"

text \<open>
  The \<open>finally\<close> block after the application ran: the ticket is released, and the gauges are refreshed
  from a snapshot if they were not within the last quarter of a second. The middleware keeps the
  instant of the last refresh.
\<close>

definition GAUGE_REFRESH_SECONDS :: rat where
  "GAUGE_REFRESH_SECONDS = 1 / 4"

definition leave :: "env \<Rightarrow> env \<Rightarrow> ticket \<Rightarrow> time \<times> controller \<Rightarrow> time \<times> controller" where
  "leave ev ev' t = (\<lambda>(last_refresh, c).
     (let c' = release ev t c in
      if ev_now ev' - last_refresh \<ge> GAUGE_REFRESH_SECONDS then (ev_now ev', snd (snapshot ev' c')) else (last_refresh, c')))"

section \<open>When a request is admitted\<close>

text \<open>Everything the outcome of an operation leaves alone.\<close>

lemma rss_now_frame [simp]:
  "ac_in_flight (rss_now ev c) = ac_in_flight c" "ac_outstanding_work (rss_now ev c) = ac_outstanding_work c"
  "ac_max_in_flight (rss_now ev c) = ac_max_in_flight c" "ac_max_backlog (rss_now ev c) = ac_max_backlog c"
  "ac_base_cost (rss_now ev c) = ac_base_cost c" "ac_per_char (rss_now ev c) = ac_per_char c"
  "ac_rss_limit_mb (rss_now ev c) = ac_rss_limit_mb c"
  by (simp_all add: rss_now_def)

lemma load_state_frame [simp]:
  "snd (load_state_locked ev c) = rss_now ev c"
  "fst (load_state_locked ev c) = CRITICAL \<longleftrightarrow> ac_rss_mb (rss_now ev c) > ac_rss_limit_mb c"
  by (simp_all add: load_state_locked_def Let_def)

lemma snapshot_frame [simp]: "snd (snapshot ev c) = rss_now ev c"
  by (simp add: snapshot_def case_prod_beta)

text \<open>The memory reading the admission decision is based on.\<close>

definition seen_rss :: "env \<Rightarrow> controller \<Rightarrow> rat" where
  "seen_rss ev c = (if ev_now ev - ac_rss_checked_at c > 1 then ev_rss_mb ev else ac_rss_mb c)"

definition admits :: "env \<Rightarrow> int \<Rightarrow> controller \<Rightarrow> bool" where
  "admits ev psize c \<longleftrightarrow> seen_rss ev c \<le> ac_rss_limit_mb c \<and> ac_in_flight c < ac_max_in_flight c \<and>
     ac_outstanding_work c + estimate_work c psize \<le> ac_max_backlog c"

lemma rss_now_arrivals:
  "ac_rss_mb (rss_now ev (c\<lparr>ac_arrivals := a\<rparr>)) = seen_rss ev c"
  by (simp add: rss_now_def seen_rss_def)

text \<open>The controller after the readings every attempt takes, admitted or not.\<close>

definition attempted :: "env \<Rightarrow> int \<Rightarrow> controller \<Rightarrow> controller" where
  "attempted ev psize c =
     rss_now ev (c\<lparr>ac_arrivals := observe (ev_now ev) (estimate_work c psize) (ac_arrivals c)\<rparr>)"

lemma attempted_frame [simp]:
  "ac_in_flight (attempted ev n c) = ac_in_flight c"
  "ac_outstanding_work (attempted ev n c) = ac_outstanding_work c"
  "ac_max_in_flight (attempted ev n c) = ac_max_in_flight c"
  "ac_max_backlog (attempted ev n c) = ac_max_backlog c"
  "ac_base_cost (attempted ev n c) = ac_base_cost c" "ac_per_char (attempted ev n c) = ac_per_char c"
  "ac_min_retry (attempted ev n c) = ac_min_retry c" "ac_max_retry (attempted ev n c) = ac_max_retry c"
  "ac_rss_limit_mb (attempted ev n c) = ac_rss_limit_mb c"
  by (simp_all add: attempted_def rss_now_def)

lemma try_acquire_admitted:
  "admits ev n c \<Longrightarrow> try_acquire ev n c =
     (Inr \<lparr>tk_work_units = estimate_work c n, tk_started = ev_now ev\<rparr>,
      (attempted ev n c)\<lparr>ac_in_flight := ac_in_flight c + 1,
        ac_outstanding_work := ac_outstanding_work c + estimate_work c n\<rparr>)"
  by (simp add: try_acquire_def Let_def split_beta admits_def rss_now_arrivals attempted_def)

lemma try_acquire_refused:
  "\<not> admits ev n c \<Longrightarrow> \<exists>st reason. try_acquire ev n c =
     (Inl \<lparr>rj_retry_after = retry_after_locked ev (estimate_work c n) (attempted ev n c),
           rj_load_state = st, rj_reason = reason\<rparr>, attempted ev n c)"
  by (auto simp: try_acquire_def Let_def split_beta admits_def rss_now_arrivals attempted_def)

section \<open>How long a refused client is told to wait\<close>

lemma round_half_even_bounds: "x - 1 / 2 \<le> of_int (round_half_even x)" "of_int (round_half_even x) \<le> x + 1 / 2"
proof -
  define r where "r = x - of_int \<lfloor>x\<rfloor>"
  have "0 \<le> r" "r < 1" "x = of_int \<lfloor>x\<rfloor> + r" unfolding r_def by linarith+
  then show "x - 1 / 2 \<le> of_int (round_half_even x)" "of_int (round_half_even x) \<le> x + 1 / 2"
    by (auto simp: round_half_even_def Let_def simp flip: r_def)
qed

lemma round_half_even_mono:
  assumes "x \<le> y"
  shows "round_half_even x \<le> round_half_even y"
proof (cases "\<lfloor>x\<rfloor> = \<lfloor>y\<rfloor>")
  case True
  with assms show ?thesis by (auto simp: round_half_even_def Let_def)
next
  case False
  then have f: "\<lfloor>x\<rfloor> + 1 \<le> \<lfloor>y\<rfloor>" using floor_mono [OF assms] by linarith
  have "round_half_even x \<le> \<lfloor>x\<rfloor> + 1" "\<lfloor>y\<rfloor> \<le> round_half_even y"
    by (simp_all add: round_half_even_def Let_def)
  with f show ?thesis by linarith
qed

lemma round1_mono: "x \<le> y \<Longrightarrow> round1 x \<le> round1 y"
  by (simp add: round1_def divide_right_mono round_half_even_mono)

lemma retry_header_covers:
  assumes "0 \<le> x"
  shows "round1 x \<le> of_int (retry_header (round1 x))" "of_int (retry_header (round1 x)) < round1 x + 1"
proof -
  define k where "k = round_half_even (10 * x)"
  have k: "0 \<le> k" using round_half_even_mono [of 0 "10 * x"] assms by (simp add: k_def round_half_even_def)
  have h: "retry_header (round1 x) = \<lfloor>(of_int k :: rat) / 10 + 999 / 1000\<rfloor>"
    using k by (simp add: retry_header_def Let_def round1_def k_def)
  have "(k + 9) div 10 = \<lfloor>(of_int k :: rat) / 10 + 999 / 1000\<rfloor>"
  proof (rule floor_unique [symmetric])
    have "10 * ((k + 9) div 10) \<le> k + 9" "k + 10 \<le> 10 * ((k + 9) div 10) + 10" by presburger+
    then have "(of_int (10 * ((k + 9) div 10)) :: rat) \<le> of_int (k + 9)"
      "(of_int (k + 10) :: rat) \<le> of_int (10 * ((k + 9) div 10) + 10)"
      by (simp_all only: of_int_le_iff)
    then show "(of_int ((k + 9) div 10) :: rat) \<le> of_int k / 10 + 999 / 1000"
      "(of_int k :: rat) / 10 + 999 / 1000 < of_int ((k + 9) div 10) + 1" by simp_all
  qed
  with h have e: "retry_header (round1 x) = (k + 9) div 10" by simp
  have "k \<le> 10 * ((k + 9) div 10)" "10 * ((k + 9) div 10) < k + 10" by presburger+
  then have "(of_int k :: rat) \<le> of_int (10 * ((k + 9) div 10))"
    "(of_int (10 * ((k + 9) div 10)) :: rat) < of_int (k + 10)" by (simp_all only: of_int_le_iff of_int_less_iff)
  then show "round1 x \<le> of_int (retry_header (round1 x))" "of_int (retry_header (round1 x)) < round1 x + 1"
    unfolding e by (simp_all add: round1_def flip: k_def)
qed

lemma retry_after_range:
  assumes "0 \<le> ac_min_retry c" "0 \<le> ac_max_retry c"
  shows "\<exists>x. retry_after_locked ev w c = round1 x \<and> min (ac_min_retry c) (ac_max_retry c / 3) \<le> x \<and>
    x \<le> ac_max_retry c"
proof -
  define p where "p = (if ew_rate (ac_work_completed c) > 0
      then max 1 (ew_rate (ac_arrivals c) / ew_rate (ac_work_completed c)) else 1)"
  define floor_wait where "floor_wait = min (ac_min_retry c * max 1 (p / 2)) (ac_max_retry c / 3)"
  have "\<exists>retry. retry_after_locked ev w c = round1 (min (max retry floor_wait) (ac_max_retry c))"
    unfolding retry_after_locked_def Let_def p_def floor_wait_def by (rule exI) (rule refl)
  then obtain retry where
    r: "retry_after_locked ev w c = round1 (min (max retry floor_wait) (ac_max_retry c))" by blast
  have "ac_min_retry c * 1 \<le> ac_min_retry c * max 1 (p / 2)"
    by (rule mult_left_mono) (use assms in simp_all)
  then have "min (ac_min_retry c) (ac_max_retry c / 3) \<le> floor_wait" by (auto simp: floor_wait_def)
  moreover have "floor_wait \<le> ac_max_retry c" using assms(2) by (simp add: floor_wait_def min.coboundedI2)
  ultimately have "min (ac_min_retry c) (ac_max_retry c / 3) \<le> min (max retry floor_wait) (ac_max_retry c)"
    by (auto simp: min_def max_def)
  with r show ?thesis by (intro exI conjI) auto
qed

section \<open>The bookkeeping is exact\<close>

text \<open>
  The controller with the tickets that are out. The middleware releases a ticket exactly once, in
  the \<open>finally\<close> block around the application, in any order and at any time; a snapshot may be taken at
  any time.
\<close>

inductive ac_step :: "controller \<times> ticket list \<Rightarrow> controller \<times> ticket list \<Rightarrow> bool" where
  admit: "0 \<le> n \<Longrightarrow> try_acquire ev n c = (Inr t, c') \<Longrightarrow> ac_step (c, ts) (c', t # ts)"
| refuse: "0 \<le> n \<Longrightarrow> try_acquire ev n c = (Inl rj, c') \<Longrightarrow> ac_step (c, ts) (c', ts)"
| finish: "t \<in> set ts \<Longrightarrow> ac_step (c, ts) (release ev t c, remove1 t ts)"
| look: "ac_step (c, ts) (snd (snapshot ev c), ts)"

definition ac_limits :: "controller \<Rightarrow> int \<times> rat \<times> rat \<times> rat" where
  "ac_limits c = (ac_max_in_flight c, ac_max_backlog c, ac_base_cost c, ac_per_char c)"

definition work_out :: "ticket list \<Rightarrow> rat" where
  "work_out ts = sum_list (map tk_work_units ts)"

definition ac_inv :: "controller \<Rightarrow> controller \<times> ticket list \<Rightarrow> bool" where
  "ac_inv c0 = (\<lambda>(c, ts). ac_limits c = ac_limits c0 \<and>
     ac_in_flight c = int (length ts) \<and> ac_outstanding_work c = work_out ts \<and>
     (\<forall>t \<in> set ts. 0 \<le> tk_work_units t) \<and>
     int (length ts) \<le> ac_max_in_flight c0 \<and> work_out ts \<le> ac_max_backlog c0)"

definition fresh_controller :: "controller \<Rightarrow> bool" where
  "fresh_controller c \<longleftrightarrow> ac_in_flight c = 0 \<and> ac_outstanding_work c = 0 \<and>
     0 \<le> ac_max_in_flight c \<and> 0 \<le> ac_max_backlog c \<and> 0 \<le> ac_base_cost c \<and> 0 \<le> ac_per_char c"

lemma work_out_remove1: "t \<in> set ts \<Longrightarrow> work_out (remove1 t ts) = work_out ts - tk_work_units t"
  by (simp add: work_out_def sum_list_map_remove1)

lemma work_out_nonneg: "\<forall>t \<in> set ts. 0 \<le> tk_work_units t \<Longrightarrow> 0 \<le> work_out ts"
  unfolding work_out_def by (rule sum_list_nonneg) auto

lemma try_acquire_limits: "try_acquire ev n c = (res, c') \<Longrightarrow> ac_limits c' = ac_limits c"
  using try_acquire_admitted [of ev n c] try_acquire_refused [of ev n c]
  by (cases "admits ev n c") (auto simp: ac_limits_def)

lemma ac_inv_step:
  assumes "ac_inv c0 w" "ac_step w w'" "0 \<le> ac_base_cost c0" "0 \<le> ac_per_char c0"
  shows "ac_inv c0 w'"
  using assms(2)
proof cases
  case (admit n ev c t c' ts)
  then have ad: "admits ev n c" using try_acquire_refused [of ev n c] by fastforce
  from assms(1) admit have lim: "ac_limits c = ac_limits c0" by (simp add: ac_inv_def)
  then have "0 \<le> estimate_work c n" using assms(3,4) admit by (simp add: estimate_work_def ac_limits_def)
  with assms(1) admit try_acquire_admitted [OF ad] ad lim show ?thesis
    by (auto simp: ac_inv_def work_out_def admits_def ac_limits_def)
next
  case (refuse n ev c rj c' ts)
  then have "\<not> admits ev n c" using try_acquire_admitted [of ev n c] by auto
  from try_acquire_refused [OF this] refuse assms(1) show ?thesis by (auto simp: ac_inv_def ac_limits_def)
next
  case (finish t ts c ev)
  with assms(1) have inv: "ac_limits c = ac_limits c0" "ac_in_flight c = int (length ts)"
    "ac_outstanding_work c = work_out ts" "\<forall>t \<in> set ts. 0 \<le> tk_work_units t"
    "int (length ts) \<le> ac_max_in_flight c0" "work_out ts \<le> ac_max_backlog c0" by (simp_all add: ac_inv_def)
  have sub: "set (remove1 t ts) \<subseteq> set ts" by (rule set_remove1_subset)
  have "0 \<le> work_out (remove1 t ts)" by (rule work_out_nonneg) (use inv(4) sub in blast)
  moreover have "0 < length ts" "0 \<le> tk_work_units t" using finish inv(4) by (auto intro: length_pos_if_in_set)
  ultimately show ?thesis
    using finish inv sub work_out_remove1 [of t ts]
    by (auto simp: ac_inv_def release_def Let_def ac_limits_def length_remove1 of_nat_diff Suc_le_eq)
next
  case (look c ts ev)
  with assms(1) show ?thesis by (simp add: ac_inv_def ac_limits_def)
qed

lemma ac_inv_reachable:
  assumes "ac_step\<^sup>*\<^sup>* (c0, []) w" "fresh_controller c0"
  shows "ac_inv c0 w"
  using assms(1)
proof (induction rule: rtranclp_induct)
  case base
  with assms(2) show ?case by (simp add: ac_inv_def fresh_controller_def work_out_def)
next
  case (step w w')
  with ac_inv_step assms(2) show ?case by (auto simp: fresh_controller_def)
qed

section \<open>Properties\<close>

text \<open>
  C18. Admission accounting is exact: in every state reachable by admitting, refusing and releasing
  requests and taking snapshots, in any order, the two counters equal the number and the total work of the requests
  inside, and neither limit is ever exceeded.
\<close>

theorem admission_accounting:
  assumes "fresh_controller c0" "ac_step\<^sup>*\<^sup>* (c0, []) (c, ts)"
  shows "ac_in_flight c = int (length ts) \<and> ac_outstanding_work c = work_out ts \<and>
    int (length ts) \<le> ac_max_in_flight c0 \<and> work_out ts \<le> ac_max_backlog c0"
  using ac_inv_reachable [OF assms(2,1)] by (simp add: ac_inv_def)

definition calm :: "time \<Rightarrow> env" where
  "calm now = \<lparr>ev_now = now, ev_rss_mb = 100, ev_auth_degraded = False, ev_cache_degraded = False\<rparr>"

lemma admission_accounting_witness:
  "\<exists>c ts. ac_step\<^sup>*\<^sup>* (default_controller, []) (c, ts) \<and> length ts = 1 \<and> ac_in_flight c = 1"
proof -
  have adm: "admits (calm 2) 100 default_controller"
    by (simp add: admits_def seen_rss_def calm_def default_controller_def estimate_work_def)
  obtain t c where tc: "try_acquire (calm 2) 100 default_controller = (Inr t, c)"
    using try_acquire_admitted [OF adm] by blast
  have "ac_step\<^sup>*\<^sup>* (default_controller, []) (c, [t])"
    using ac_step.admit [OF _ tc, of "[]"] by simp
  moreover from admission_accounting [OF _ this] have "ac_in_flight c = 1"
    by (simp add: fresh_controller_def default_controller_def)
  ultimately show ?thesis by (intro exI [of _ c] exI [of _ "[t]"]) simp
qed

text \<open>
  C32. A request is admitted exactly when memory is below its limit, a slot is free and its work fits
  into the backlog; a refusal leaves both counters unchanged and tells the client to wait for a time
  between the smaller of the minimum and a third of the maximum, and the maximum, each rounded to
  tenths; the \<open>Retry-After\<close> header is that time rounded up to seconds.
\<close>

theorem try_acquire_decision:
  assumes "0 \<le> ac_min_retry c" "0 \<le> ac_max_retry c" "try_acquire ev n c = (res, c')"
  shows "case res of
      Inr t \<Rightarrow> admits ev n c \<and> ac_in_flight c' = ac_in_flight c + 1 \<and>
        ac_outstanding_work c' = ac_outstanding_work c + tk_work_units t
    | Inl rj \<Rightarrow> \<not> admits ev n c \<and> ac_in_flight c' = ac_in_flight c \<and>
        ac_outstanding_work c' = ac_outstanding_work c \<and>
        round1 (min (ac_min_retry c) (ac_max_retry c / 3)) \<le> rj_retry_after rj \<and>
        rj_retry_after rj \<le> round1 (ac_max_retry c) \<and>
        rj_retry_after rj \<le> of_int (retry_header (rj_retry_after rj)) \<and>
        of_int (retry_header (rj_retry_after rj)) < rj_retry_after rj + 1"
proof (cases "admits ev n c")
  case True
  with try_acquire_admitted [OF True] assms(3) show ?thesis by auto
next
  case False
  from try_acquire_refused [OF False] assms(3) obtain rj where
    rj: "res = Inl rj" "c' = attempted ev n c"
    "rj_retry_after rj = retry_after_locked ev (estimate_work c n) (attempted ev n c)" by auto
  obtain x where x: "rj_retry_after rj = round1 x" "min (ac_min_retry c) (ac_max_retry c / 3) \<le> x" "x \<le> ac_max_retry c"
    using retry_after_range [of "attempted ev n c" ev "estimate_work c n"] assms(1,2) rj(3) by auto
  have "0 \<le> x" using x(2) assms(1,2) by (auto simp: min_def split: if_splits)
  with x round1_mono [OF x(2)] round1_mono [OF x(3)] retry_header_covers [of x] False rj show ?thesis by simp
qed

lemma try_acquire_decision_witness:
  "case try_acquire (calm 2) 5000000 default_controller of (res, c') \<Rightarrow>
     (case res of Inl rj \<Rightarrow> 1 \<le> rj_retry_after rj \<and> rj_retry_after rj \<le> 30 | Inr t \<Rightarrow> False)"
proof -
  have no: "\<not> admits (calm 2) 5000000 default_controller"
    by (simp add: admits_def seen_rss_def calm_def default_controller_def estimate_work_def)
  obtain res c' where r: "try_acquire (calm 2) 5000000 default_controller = (res, c')" by force
  have "round1 1 = 1" "round1 30 = 30" by (simp_all add: round1_def round_half_even_def)
  with try_acquire_decision [OF _ _ r] no r show ?thesis
    by (auto simp: default_controller_def split: sum.splits)
qed

end
