(* ===== verification/Backends.thy ===== *)
theory Backends
  imports Resilient "HOL-Library.AList"
begin

text \<open>
  The two durable stores, \<^verbatim>\<open>storage/redis_store.py\<close> and \<^verbatim>\<open>storage/mongo_store.py\<close>. The
  client libraries (\<^verbatim>\<open>redis\<close>, \<^verbatim>\<open>orjson\<close>, \<^verbatim>\<open>pymongo\<close>) and the servers behind them are parameters: a
  record of the calls the sources make, on a state of their own, and a locale with the documented
  behaviour of those calls while the server answers. Over any server that behaves as documented the
  Redis store keeps the full contract of a mapping store and the Mongo repository the contract of a
  record store; its grace transition is batched and does not look at the expiry, which is why it
  does not keep the rest.
\<close>

section \<open>Redis\<close>

record ('r, 'b) redis_client =
  rd_set :: "time \<Rightarrow> str \<Rightarrow> 'b \<Rightarrow> bool \<Rightarrow> int \<Rightarrow> 'r \<Rightarrow> bool result \<times> 'r"
  rd_get :: "time \<Rightarrow> str \<Rightarrow> 'r \<Rightarrow> 'b option result \<times> 'r"
  rd_delete :: "time \<Rightarrow> str \<Rightarrow> 'r \<Rightarrow> unit result \<times> 'r"

record 'b json_codec =
  oj_dumps :: "mapping_record \<Rightarrow> 'b"
  oj_loads :: "'b \<Rightarrow> mapping_record result"

definition KEY_PREFIX :: str where
  "KEY_PREFIX = asc ''pii:''"

definition redis_key :: "str \<Rightarrow> str" where
  "redis_key payload_id = KEY_PREFIX @ payload_id"

definition redis_save_if_absent ::
  "('r, 'b) redis_client \<Rightarrow> 'b json_codec \<Rightarrow> time \<Rightarrow> str \<Rightarrow> mapping_record \<Rightarrow> int \<Rightarrow> 'r \<Rightarrow> bool result \<times> 'r" where
  "redis_save_if_absent C J now payload_id record ttl_seconds s =
     rd_set C now (redis_key payload_id) (oj_dumps J record) True ttl_seconds s"

definition redis_update ::
  "('r, 'b) redis_client \<Rightarrow> 'b json_codec \<Rightarrow> time \<Rightarrow> str \<Rightarrow> mapping_record \<Rightarrow> int \<Rightarrow> 'r \<Rightarrow> unit result \<times> 'r" where
  "redis_update C J now payload_id record ttl_seconds s =
     (case rd_set C now (redis_key payload_id) (oj_dumps J record) False ttl_seconds s of
        (Inl e, s') \<Rightarrow> (Inl e, s')
      | (Inr _, s') \<Rightarrow> (Inr (), s'))"

definition redis_get ::
  "('r, 'b) redis_client \<Rightarrow> 'b json_codec \<Rightarrow> time \<Rightarrow> str \<Rightarrow> 'r \<Rightarrow> mapping_record option result \<times> 'r" where
  "redis_get C J now payload_id s =
     (case rd_get C now (redis_key payload_id) s of
        (Inl e, s') \<Rightarrow> (Inl e, s')
      | (Inr None, s') \<Rightarrow> (Inr None, s')
      | (Inr (Some raw), s') \<Rightarrow> (map_sum id Some (oj_loads J raw), s'))"

definition redis_delete :: "('r, 'b) redis_client \<Rightarrow> time \<Rightarrow> str \<Rightarrow> 'r \<Rightarrow> unit result \<times> 'r" where
  "redis_delete C now payload_id s = rd_delete C now (redis_key payload_id) s"

definition redis_store :: "('r, 'b) redis_client \<Rightarrow> 'b json_codec \<Rightarrow> 'r store_ops" where
  "redis_store C J = \<lparr>st_save_if_absent = redis_save_if_absent C J, st_update = redis_update C J,
     st_get = redis_get C J, st_delete = redis_delete C,
     st_mark_demasked = base_mark_demasked (redis_get C J) (redis_update C J)\<rparr>"

subsection \<open>A server that behaves as documented\<close>

text \<open>
  \<open>keys t s\<close> is the key space a reader at \<open>t\<close> finds in state \<open>s\<close>; \<open>up t s\<close> holds while the server
  answers from \<open>t\<close> on. \<open>SET\<close> with \<open>EX\<close> keeps the key for the given number of seconds, which the
  server requires to be positive, and with \<open>NX\<close> only sets a key that does not exist.
\<close>

locale redis_server =
  fixes C :: "('r, 'b) redis_client"
    and J :: "'b json_codec"
    and keys :: "time \<Rightarrow> 'r \<Rightarrow> str \<rightharpoonup> 'b"
    and up :: "time \<Rightarrow> 'r \<Rightarrow> bool"
  assumes loads_dumps: "oj_loads J (oj_dumps J r) = Inr r"
    and up_later: "up t s \<Longrightarrow> t \<le> t' \<Longrightarrow> up t' s"
    and key_expires: "up t s \<Longrightarrow> keys t' s k = Some v \<Longrightarrow> t \<le> t' \<Longrightarrow> keys t s k = Some v"
    and get_key: "up now s \<Longrightarrow> \<exists>s'. rd_get C now k s = (Inr (keys now s k), s') \<and> up now s' \<and>
        (\<forall>t \<ge> now. keys t s' = keys t s)"
    and set_key: "up now s \<Longrightarrow> 0 < ex \<Longrightarrow> (nx \<longrightarrow> keys now s k = None) \<Longrightarrow>
        \<exists>s'. rd_set C now k v nx ex s = (Inr True, s') \<and> up now s' \<and>
          (\<forall>t \<ge> now. keys t s' = (keys t s)(k := (if t < now + of_int ex then Some v else None)))"
    and set_taken: "up now s \<Longrightarrow> 0 < ex \<Longrightarrow> keys now s k = Some w \<Longrightarrow>
        \<exists>s'. rd_set C now k v True ex s = (Inr False, s') \<and> up now s' \<and> (\<forall>t \<ge> now. keys t s' = keys t s)"
    and delete_key: "up now s \<Longrightarrow> \<exists>s'. rd_delete C now k s = (Inr (), s') \<and> up now s' \<and>
        (\<forall>t \<ge> now. keys t s' = (keys t s)(k := None))"
begin

definition redis_view :: "time \<Rightarrow> 'r \<Rightarrow> str \<rightharpoonup> mapping_record" where
  "redis_view t s pid =
     (case keys t s (redis_key pid) of
        None \<Rightarrow> None
      | Some raw \<Rightarrow> (case oj_loads J raw of Inl _ \<Rightarrow> None | Inr r \<Rightarrow> Some r))"

text \<open>The server answers, and what is stored under the service's prefix was written by it.\<close>

definition redis_inv :: "time \<Rightarrow> 'r \<Rightarrow> bool" where
  "redis_inv t s \<longleftrightarrow> up t s \<and> (\<forall>t' \<ge> t. \<forall>pid raw. keys t' s (redis_key pid) = Some raw \<longrightarrow> (\<exists>r. raw = oj_dumps J r))"

lemma redis_stored:
  "redis_inv now s \<Longrightarrow> now \<le> t \<Longrightarrow> keys t s (redis_key pid) = Some raw \<Longrightarrow> \<exists>r. raw = oj_dumps J r"
  unfolding redis_inv_def by blast

lemma redis_view_raw [simp]: "keys t s (redis_key pid) = Some (oj_dumps J r) \<Longrightarrow> redis_view t s pid = Some r"
  by (simp add: redis_view_def loads_dumps)

lemma redis_view_Some:
  assumes "redis_inv now s" "now \<le> t"
  shows "redis_view t s pid = Some r \<longleftrightarrow> keys t s (redis_key pid) = Some (oj_dumps J r)"
proof (cases "keys t s (redis_key pid)")
  case (Some raw)
  with redis_stored [OF assms] obtain r' where r': "raw = oj_dumps J r'" by blast
  have "oj_dumps J r' = oj_dumps J r \<Longrightarrow> r' = r" using loads_dumps [of r] loads_dumps [of r'] by simp
  with Some r' show ?thesis by auto
qed (simp add: redis_view_def)

lemma redis_view_None:
  assumes "redis_inv now s" "now \<le> t"
  shows "redis_view t s pid = None \<longleftrightarrow> keys t s (redis_key pid) = None"
proof (cases "keys t s (redis_key pid)")
  case (Some raw)
  with redis_stored [OF assms] obtain r' where r': "raw = oj_dumps J r'" by blast
  with Some show ?thesis by simp
qed (simp add: redis_view_def)

lemma redis_key_inject [simp]: "redis_key p = redis_key q \<longleftrightarrow> p = q"
  by (simp add: redis_key_def)

lemma redis_same: "redis_inv now s \<Longrightarrow> up now s' \<Longrightarrow> \<forall>t \<ge> now. keys t s' = keys t s \<Longrightarrow>
    redis_inv now s' \<and> (\<forall>t \<ge> now. redis_view t s' = redis_view t s)"
  by (auto simp: redis_inv_def redis_view_def fun_eq_iff)

lemma redis_written:
  assumes "redis_inv now s" "up now s'"
    "\<forall>t \<ge> now. keys t s' = (keys t s)(redis_key pid := (if t < now + of_int ttl then Some (oj_dumps J r) else None))"
  shows "redis_inv now s' \<and> (\<forall>t \<ge> now. redis_view t s' = put now pid r ttl t (redis_view t s))"
  using assms by (auto simp: redis_inv_def redis_view_def put_def fun_eq_iff loads_dumps)

lemma redis_dropped:
  assumes "redis_inv now s" "up now s'" "\<forall>t \<ge> now. keys t s' = (keys t s)(redis_key pid := None)"
  shows "redis_inv now s' \<and> (\<forall>t \<ge> now. redis_view t s' = (redis_view t s)(pid := None))"
  using assms by (auto simp: redis_inv_def redis_view_def fun_eq_iff)

lemma redis_get_view:
  assumes "redis_inv now s"
  shows "\<exists>s'. redis_get C J now pid s = (Inr (redis_view now s pid), s') \<and> redis_inv now s' \<and>
    (\<forall>t \<ge> now. redis_view t s' = redis_view t s)"
proof -
  have "up now s" using assms by (simp add: redis_inv_def)
  then obtain s' where g: "rd_get C now (redis_key pid) s = (Inr (keys now s (redis_key pid)), s')" "up now s'"
    "\<forall>t \<ge> now. keys t s' = keys t s" using get_key by blast
  have "redis_get C J now pid s = (Inr (redis_view now s pid), s')"
  proof (cases "keys now s (redis_key pid)")
    case (Some raw)
    with redis_stored [OF assms order_refl] obtain r where "raw = oj_dumps J r" by blast
    with Some g(1) show ?thesis by (simp add: redis_get_def redis_view_def loads_dumps)
  qed (use g(1) in \<open>simp add: redis_get_def redis_view_def\<close>)
  with redis_same [OF assms g(2,3)] show ?thesis by blast
qed

lemma redis_update_view:
  assumes "redis_inv now s" "0 < ttl"
  shows "\<exists>s'. redis_update C J now pid r ttl s = (Inr (), s') \<and> redis_inv now s' \<and>
    (\<forall>t \<ge> now. redis_view t s' = put now pid r ttl t (redis_view t s))"
proof -
  have "up now s" using assms(1) by (simp add: redis_inv_def)
  from set_key [OF this assms(2), of False "redis_key pid" "oj_dumps J r"] obtain s' where
    "rd_set C now (redis_key pid) (oj_dumps J r) False ttl s = (Inr True, s')" "up now s'"
    "\<forall>t \<ge> now. keys t s' = (keys t s)(redis_key pid := (if t < now + of_int ttl then Some (oj_dumps J r) else None))"
    by blast
  with redis_written [OF assms(1)] show ?thesis by (auto simp: redis_update_def)
qed

end

sublocale redis_server \<subseteq> redis: mapping_store "redis_store C J" redis_view redis_inv
proof
  fix s now pid and r r0 :: mapping_record and ttl grace :: int and t' :: time
  assume inv: "redis_inv now s"
  then have up: "up now s" by (simp add: redis_inv_def)
  show "now \<le> t' \<Longrightarrow> redis_inv t' s" using inv up_later [OF up] unfolding redis_inv_def by (meson order_trans)
  show "redis_view t' s pid = Some r \<Longrightarrow> now \<le> t' \<Longrightarrow> redis_view now s pid = Some r"
    using key_expires [OF up] by (simp add: redis_view_Some [OF inv])
  show "\<exists>s'. st_get (redis_store C J) now pid s = (Inr (redis_view now s pid), s') \<and> redis_inv now s' \<and>
      (\<forall>t \<ge> now. redis_view t s' = redis_view t s)"
    using redis_get_view [OF inv] by (simp add: redis_store_def)
  show "0 < ttl \<Longrightarrow> \<exists>s'. st_update (redis_store C J) now pid r ttl s = (Inr (), s') \<and> redis_inv now s' \<and>
      (\<forall>t \<ge> now. redis_view t s' = put now pid r ttl t (redis_view t s))"
    using redis_update_view [OF inv] by (simp add: redis_store_def)
  show "\<exists>s'. st_delete (redis_store C J) now pid s = (Inr (), s') \<and> redis_inv now s' \<and>
      (\<forall>t \<ge> now. redis_view t s' = (redis_view t s)(pid := None))"
    using delete_key [OF up, of "redis_key pid"] redis_dropped [OF inv, of _ pid] by (auto simp: redis_store_def redis_delete_def)
  show "redis_view now s pid = None \<Longrightarrow> 0 < ttl \<Longrightarrow>
      \<exists>s'. st_save_if_absent (redis_store C J) now pid r ttl s = (Inr True, s') \<and> redis_inv now s' \<and>
        (\<forall>t \<ge> now. redis_view t s' = put now pid r ttl t (redis_view t s))"
    using set_key [OF up, of ttl True "redis_key pid" "oj_dumps J r"] redis_written [OF inv, of _ pid ttl r]
    by (auto simp: redis_store_def redis_save_if_absent_def redis_view_None [OF inv])
  show "redis_view now s pid = Some r0 \<Longrightarrow> 0 < ttl \<Longrightarrow>
      \<exists>s'. st_save_if_absent (redis_store C J) now pid r ttl s = (Inr False, s') \<and> redis_inv now s' \<and>
        (\<forall>t \<ge> now. redis_view t s' = redis_view t s)"
    using set_taken [OF up, of ttl "redis_key pid" _ "oj_dumps J r"] redis_same [OF inv]
    by (fastforce simp: redis_store_def redis_save_if_absent_def redis_view_Some [OF inv])
  obtain s1 where s1: "redis_get C J now pid s = (Inr (redis_view now s pid), s1)" "redis_inv now s1"
    "\<forall>t \<ge> now. redis_view t s1 = redis_view t s" using redis_get_view [OF inv] by blast
  show "redis_view now s pid = None \<Longrightarrow>
      \<exists>s'. st_mark_demasked (redis_store C J) now pid grace s = (Inr (), s') \<and> redis_inv now s' \<and>
        (\<forall>t \<ge> now. redis_view t s' = redis_view t s)"
    using s1 by (simp add: redis_store_def base_mark_demasked_def)
  show "redis_view now s pid = Some r \<Longrightarrow> 0 < grace \<Longrightarrow>
      \<exists>s'. st_mark_demasked (redis_store C J) now pid grace s = (Inr (), s') \<and> redis_inv now s' \<and>
        (\<forall>t \<ge> now. redis_view t s' = put now pid (to_grace now r) grace t (redis_view t s))"
    using s1 redis_update_view [OF s1(2), of grace pid "to_grace now r"] by (simp add: redis_store_def base_mark_demasked_def)
qed

section \<open>Mongo\<close>

text \<open>
  A document of the collection; \<open>expires_at\<close> may be missing. The calls take the values the sources
  pass: the identifier of the query, the condition on \<open>expires_at\<close> in it as a predicate on documents,
  and a \<open>$set\<close> update as the change it makes to a document. \<open>insert_one\<close> answers \<open>False\<close> for a
  \<open>DuplicateKeyError\<close>, \<open>replace_one\<close> the number of modified documents.
\<close>

record mongo_doc =
  do_expires_at :: "time option"
  do_record :: mapping_record

record 'm collection =
  co_insert_one :: "str \<Rightarrow> mongo_doc \<Rightarrow> 'm \<Rightarrow> bool result \<times> 'm"
  co_replace_one :: "str \<Rightarrow> (mongo_doc \<Rightarrow> bool) \<Rightarrow> mongo_doc \<Rightarrow> bool \<Rightarrow> 'm \<Rightarrow> nat result \<times> 'm"
  co_find_one :: "str \<Rightarrow> 'm \<Rightarrow> mongo_doc option result \<times> 'm"
  co_delete_one :: "str \<Rightarrow> 'm \<Rightarrow> unit result \<times> 'm"
  co_update_one :: "str \<Rightarrow> (mongo_doc \<Rightarrow> mongo_doc) \<Rightarrow> 'm \<Rightarrow> unit result \<times> 'm"
  co_bulk_write :: "(str \<times> (mongo_doc \<Rightarrow> mongo_doc)) list \<Rightarrow> 'm \<Rightarrow> unit result \<times> 'm"
  co_create_index :: "'m \<Rightarrow> unit result \<times> 'm"
  co_ping :: "'m \<Rightarrow> unit result \<times> 'm"

text \<open>
  The repository: \<open>batch_grace\<close>, the monotonic clock at an instant, and the fields it changes. The
  lock around \<open>_grace_pending\<close> makes the accesses to it atomic.
\<close>

record 'm mongo_cfg =
  mg_collection :: "'m collection"
  mg_batch_grace :: bool
  mg_monotonic :: "time \<Rightarrow> time"

record 'm mongo_state =
  ms_docs :: 'm
  ms_indexes_ready :: bool
  ms_last_index_attempt :: time
  ms_grace_pending :: "(str \<times> int) list"

definition new_mongo_state :: "'m \<Rightarrow> 'm mongo_state" where
  "new_mongo_state m = \<lparr>ms_docs = m, ms_indexes_ready = False, ms_last_index_attempt = 0, ms_grace_pending = []\<rparr>"

text \<open>A call of the collection, with the collection's state put back.\<close>

definition on_docs :: "('m \<Rightarrow> 'x \<times> 'm) \<Rightarrow> 'm mongo_state \<Rightarrow> 'x \<times> 'm mongo_state" where
  "on_docs f s = (case f (ms_docs s) of (x, m) \<Rightarrow> (x, s\<lparr>ms_docs := m\<rparr>))"

definition ensure_indexes :: "'m mongo_cfg \<Rightarrow> 'm mongo_state \<Rightarrow> unit result \<times> 'm mongo_state" where
  "ensure_indexes K s =
     (case on_docs (co_create_index (mg_collection K)) s of
        (Inl e, s') \<Rightarrow> (Inl e, s')
      | (Inr _, s') \<Rightarrow> (Inr (), s'\<lparr>ms_indexes_ready := True\<rparr>))"

definition ensure_indexes_lazy :: "'m mongo_cfg \<Rightarrow> time \<Rightarrow> 'm mongo_state \<Rightarrow> 'm mongo_state" where
  "ensure_indexes_lazy K now s =
     (if ms_indexes_ready s then s
      else if mg_monotonic K now - ms_last_index_attempt s < 60 then s
      else snd (ensure_indexes K (s\<lparr>ms_last_index_attempt := mg_monotonic K now\<rparr>)))"

definition is_live :: "time \<Rightarrow> mongo_doc \<Rightarrow> bool" where
  "is_live now doc \<longleftrightarrow> (case do_expires_at doc of None \<Rightarrow> True | Some e \<Rightarrow> now < e)"

definition mongo_document :: "time \<Rightarrow> mapping_record \<Rightarrow> int \<Rightarrow> mongo_doc" where
  "mongo_document now record ttl_seconds = \<lparr>do_expires_at = Some (now + of_int ttl_seconds), do_record = record\<rparr>"

definition expired_at :: "time \<Rightarrow> mongo_doc \<Rightarrow> bool" where
  "expired_at now doc \<longleftrightarrow> (case do_expires_at doc of None \<Rightarrow> False | Some e \<Rightarrow> e \<le> now)"

text \<open>\<open>save_if_absent\<close>: the insertion, and the claim of an expired document that is still there.\<close>

definition claim_expired ::
  "'m mongo_cfg \<Rightarrow> time \<Rightarrow> str \<Rightarrow> mongo_doc \<Rightarrow> 'm mongo_state \<Rightarrow> bool result \<times> 'm mongo_state" where
  "claim_expired K now payload_id doc s =
     (case on_docs (co_replace_one (mg_collection K) payload_id (expired_at now) doc False) s of
        (Inl e, s') \<Rightarrow> (Inl e, s')
      | (Inr modified, s') \<Rightarrow> (Inr (0 < modified), s'))"

definition mongo_save_if_absent ::
  "'m mongo_cfg \<Rightarrow> time \<Rightarrow> str \<Rightarrow> mapping_record \<Rightarrow> int \<Rightarrow> 'm mongo_state \<Rightarrow> bool result \<times> 'm mongo_state" where
  "mongo_save_if_absent K now payload_id record ttl_seconds s =
     (let s0 = ensure_indexes_lazy K now s; doc = mongo_document now record ttl_seconds in
      case on_docs (co_insert_one (mg_collection K) payload_id doc) s0 of
        (Inl e, s1) \<Rightarrow> (Inl e, s1)
      | (Inr True, s1) \<Rightarrow> (Inr True, s1)
      | (Inr False, s1) \<Rightarrow> claim_expired K now payload_id doc s1)"

definition mongo_update ::
  "'m mongo_cfg \<Rightarrow> time \<Rightarrow> str \<Rightarrow> mapping_record \<Rightarrow> int \<Rightarrow> 'm mongo_state \<Rightarrow> unit result \<times> 'm mongo_state" where
  "mongo_update K now payload_id record ttl_seconds s =
     (case on_docs (co_replace_one (mg_collection K) payload_id (\<lambda>_. True) (mongo_document now record ttl_seconds) True) s of
        (Inl e, s') \<Rightarrow> (Inl e, s')
      | (Inr _, s') \<Rightarrow> (Inr (), s'))"

definition mongo_get :: "'m mongo_cfg \<Rightarrow> time \<Rightarrow> str \<Rightarrow> 'm mongo_state \<Rightarrow> mapping_record option result \<times> 'm mongo_state" where
  "mongo_get K now payload_id s =
     (case on_docs (co_find_one (mg_collection K) payload_id) s of
        (Inl e, s') \<Rightarrow> (Inl e, s')
      | (Inr None, s') \<Rightarrow> (Inr None, s')
      | (Inr (Some doc), s') \<Rightarrow> (Inr (if is_live now doc then Some (do_record doc) else None), s'))"

definition mongo_delete :: "'m mongo_cfg \<Rightarrow> time \<Rightarrow> str \<Rightarrow> 'm mongo_state \<Rightarrow> unit result \<times> 'm mongo_state" where
  "mongo_delete K now payload_id s = on_docs (co_delete_one (mg_collection K) payload_id) s"

definition grace_update :: "time \<Rightarrow> int \<Rightarrow> mongo_doc \<Rightarrow> mongo_doc" where
  "grace_update now grace_seconds doc =
     doc\<lparr>do_record := to_grace now (do_record doc), do_expires_at := Some (now + of_int grace_seconds)\<rparr>"

definition flush_grace_now :: "'m mongo_cfg \<Rightarrow> time \<Rightarrow> 'm mongo_state \<Rightarrow> nat result \<times> 'm mongo_state" where
  "flush_grace_now K now s =
     (let pending = ms_grace_pending s; s0 = s\<lparr>ms_grace_pending := []\<rparr> in
      if pending = [] then (Inr 0, s0)
      else let ops = map (\<lambda>(pid, g). (pid, grace_update now g)) pending in
           case on_docs (co_bulk_write (mg_collection K) ops) s0 of
             (Inl e, s1) \<Rightarrow> (Inl e, s1)
           | (Inr _, s1) \<Rightarrow> (Inr (length ops), s1))"

definition mongo_mark_demasked ::
  "'m mongo_cfg \<Rightarrow> time \<Rightarrow> str \<Rightarrow> int \<Rightarrow> 'm mongo_state \<Rightarrow> unit result \<times> 'm mongo_state" where
  "mongo_mark_demasked K now payload_id grace_seconds s =
     (if mg_batch_grace K then
        (let s0 = s\<lparr>ms_grace_pending := AList.update payload_id grace_seconds (ms_grace_pending s)\<rparr> in
         if 500 \<le> length (ms_grace_pending s0)
         then (case flush_grace_now K now s0 of (Inl e, s1) \<Rightarrow> (Inl e, s1) | (Inr _, s1) \<Rightarrow> (Inr (), s1))
         else (Inr (), s0))
      else on_docs (co_update_one (mg_collection K) payload_id (grace_update now grace_seconds)) s)"

text \<open>One turn of the flushing thread: whatever the flush raises is swallowed.\<close>

definition grace_flush_turn :: "'m mongo_cfg \<Rightarrow> time \<Rightarrow> 'm mongo_state \<Rightarrow> 'm mongo_state" where
  "grace_flush_turn K now s = snd (flush_grace_now K now s)"

definition mongo_health :: "'m mongo_cfg \<Rightarrow> 'm mongo_state \<Rightarrow> bool \<times> 'm mongo_state" where
  "mongo_health K s =
     (case on_docs (co_ping (mg_collection K)) s of (Inl _, s') \<Rightarrow> (False, s') | (Inr _, s') \<Rightarrow> (True, s'))"

definition mongo_store :: "'m mongo_cfg \<Rightarrow> 'm mongo_state store_ops" where
  "mongo_store K = \<lparr>st_save_if_absent = mongo_save_if_absent K, st_update = mongo_update K, st_get = mongo_get K,
     st_delete = mongo_delete K, st_mark_demasked = mongo_mark_demasked K\<rparr>"

subsection \<open>A collection that behaves as documented\<close>

text \<open>
  \<open>docs\<close> are the committed documents by identifier; every call is atomic. A replacement modifies the
  matching document unless it is already the new one; a bulk write applies each of its updates, here
  for distinct identifiers, so that their order does not matter.
\<close>

locale mongo_collection =
  fixes K :: "'m mongo_cfg"
    and docs :: "'m \<Rightarrow> str \<rightharpoonup> mongo_doc"
    and up :: "'m \<Rightarrow> bool"
  assumes insert_new: "up m \<Longrightarrow> docs m pid = None \<Longrightarrow>
        \<exists>m'. co_insert_one (mg_collection K) pid d m = (Inr True, m') \<and> up m' \<and> docs m' = (docs m)(pid \<mapsto> d)"
    and insert_duplicate: "up m \<Longrightarrow> docs m pid = Some d0 \<Longrightarrow>
        \<exists>m'. co_insert_one (mg_collection K) pid d m = (Inr False, m') \<and> up m' \<and> docs m' = docs m"
    and replace_match: "up m \<Longrightarrow> docs m pid = Some d0 \<Longrightarrow> P d0 \<Longrightarrow>
        \<exists>m'. co_replace_one (mg_collection K) pid P d upsert m = (Inr (if d0 = d then 0 else 1), m') \<and> up m' \<and>
          docs m' = (docs m)(pid \<mapsto> d)"
    and replace_no_match: "up m \<Longrightarrow> (\<forall>d0. docs m pid = Some d0 \<longrightarrow> \<not> P d0) \<Longrightarrow>
        \<exists>m'. co_replace_one (mg_collection K) pid P d False m = (Inr 0, m') \<and> up m' \<and> docs m' = docs m"
    and replace_upsert: "up m \<Longrightarrow> docs m pid = None \<Longrightarrow>
        \<exists>m'. co_replace_one (mg_collection K) pid P d True m = (Inr 0, m') \<and> up m' \<and> docs m' = (docs m)(pid \<mapsto> d)"
    and find_one: "up m \<Longrightarrow> \<exists>m'. co_find_one (mg_collection K) pid m = (Inr (docs m pid), m') \<and> up m' \<and> docs m' = docs m"
    and delete_one: "up m \<Longrightarrow> \<exists>m'. co_delete_one (mg_collection K) pid m = (Inr (), m') \<and> up m' \<and> docs m' = (docs m)(pid := None)"
    and update_one: "up m \<Longrightarrow> \<exists>m'. co_update_one (mg_collection K) pid f m = (Inr (), m') \<and> up m' \<and>
        docs m' = (docs m)(pid := map_option f (docs m pid))"
    and bulk_write: "up m \<Longrightarrow> distinct (map fst ops) \<Longrightarrow> \<exists>m'. co_bulk_write (mg_collection K) ops m = (Inr (), m') \<and> up m' \<and>
        docs m' = (\<lambda>pid. case map_of ops pid of None \<Rightarrow> docs m pid | Some f \<Rightarrow> map_option f (docs m pid))"
    and create_index: "up m \<Longrightarrow> up (snd (co_create_index (mg_collection K) m)) \<and> docs (snd (co_create_index (mg_collection K) m)) = docs m"
begin

definition mongo_view :: "time \<Rightarrow> 'm mongo_state \<Rightarrow> str \<rightharpoonup> mapping_record" where
  "mongo_view t s pid =
     (case docs (ms_docs s) pid of None \<Rightarrow> None | Some d \<Rightarrow> if is_live t d then Some (do_record d) else None)"

definition mongo_inv :: "time \<Rightarrow> 'm mongo_state \<Rightarrow> bool" where
  "mongo_inv t s \<longleftrightarrow> up (ms_docs s) \<and> distinct (map fst (ms_grace_pending s))"

lemma lazy_indexes:
  assumes "up (ms_docs s)"
  shows "up (ms_docs (ensure_indexes_lazy K now s))" "docs (ms_docs (ensure_indexes_lazy K now s)) = docs (ms_docs s)"
    "ms_grace_pending (ensure_indexes_lazy K now s) = ms_grace_pending s"
proof -
  obtain x m where "co_create_index (mg_collection K) (ms_docs s) = (x, m)" by force
  with create_index [OF assms]
  show "up (ms_docs (ensure_indexes_lazy K now s))" "docs (ms_docs (ensure_indexes_lazy K now s)) = docs (ms_docs s)"
    "ms_grace_pending (ensure_indexes_lazy K now s) = ms_grace_pending s"
    using assms by (auto simp: ensure_indexes_lazy_def ensure_indexes_def on_docs_def split: sum.splits)
qed

lemma mongo_view_written:
  assumes "docs (ms_docs s') = (docs (ms_docs s))(pid \<mapsto> mongo_document now r ttl)"
  shows "mongo_view t s' = put now pid r ttl t (mongo_view t s)"
  using assms by (auto simp: mongo_view_def put_def mongo_document_def is_live_def fun_eq_iff)

lemma mongo_save_absent:
  assumes "mongo_inv now s" "mongo_view now s pid = None" "0 < ttl"
  shows "\<exists>s'. mongo_save_if_absent K now pid r ttl s = (Inr True, s') \<and> mongo_inv now s' \<and>
    docs (ms_docs s') = (docs (ms_docs s))(pid \<mapsto> mongo_document now r ttl)"
proof -
  define s0 where "s0 = ensure_indexes_lazy K now s"
  have s0: "up (ms_docs s0)" "docs (ms_docs s0) = docs (ms_docs s)" "ms_grace_pending s0 = ms_grace_pending s"
    using lazy_indexes [of s now] assms(1) by (simp_all add: mongo_inv_def s0_def)
  let ?d = "mongo_document now r ttl"
  show ?thesis
  proof (cases "docs (ms_docs s) pid")
    case None
    with insert_new [of "ms_docs s0" pid ?d] s0 assms(1) show ?thesis
      by (auto simp: mongo_save_if_absent_def on_docs_def mongo_inv_def simp flip: s0_def)
  next
    case (Some d0)
    from insert_duplicate [of "ms_docs s0" pid d0 ?d] s0 Some obtain m where
      m: "co_insert_one (mg_collection K) pid ?d (ms_docs s0) = (Inr False, m)" "up m" "docs m = docs (ms_docs s)" by auto
    have ex: "expired_at now d0" using assms(2) Some by (simp add: mongo_view_def is_live_def expired_at_def split: option.splits if_splits)
    then have "d0 \<noteq> ?d" using assms(3) by (auto simp: expired_at_def mongo_document_def)
    with replace_match [where P = "expired_at now" and d = ?d and upsert = False, OF m(2) _ ex, of pid] m(3) Some obtain m' where
      "co_replace_one (mg_collection K) pid (expired_at now) ?d False m = (Inr 1, m')" "up m'" "docs m' = (docs (ms_docs s))(pid \<mapsto> ?d)"
      by auto
    with m(1) s0(3) assms(1) show ?thesis
      by (simp add: mongo_save_if_absent_def claim_expired_def on_docs_def mongo_inv_def flip: s0_def)
  qed
qed

lemma mongo_save_present:
  assumes "mongo_inv now s" "mongo_view now s pid = Some r0"
  shows "\<exists>s'. mongo_save_if_absent K now pid r ttl s = (Inr False, s') \<and> mongo_inv now s' \<and> docs (ms_docs s') = docs (ms_docs s)"
proof -
  define s0 where "s0 = ensure_indexes_lazy K now s"
  have s0: "up (ms_docs s0)" "docs (ms_docs s0) = docs (ms_docs s)" "ms_grace_pending s0 = ms_grace_pending s"
    using lazy_indexes [of s now] assms(1) by (simp_all add: mongo_inv_def s0_def)
  let ?d = "mongo_document now r ttl"
  from assms(2) obtain d0 where d0: "docs (ms_docs s) pid = Some d0" "is_live now d0"
    by (auto simp: mongo_view_def split: option.splits if_splits)
  from insert_duplicate [of "ms_docs s0" pid d0 ?d] s0 d0(1) obtain m where
    m: "co_insert_one (mg_collection K) pid ?d (ms_docs s0) = (Inr False, m)" "up m" "docs m = docs (ms_docs s)" by auto
  have "\<not> expired_at now d0" using d0(2) by (auto simp: is_live_def expired_at_def split: option.splits)
  with replace_no_match [OF m(2), of pid "expired_at now" ?d] m(3) d0(1) obtain m' where
    "co_replace_one (mg_collection K) pid (expired_at now) ?d False m = (Inr 0, m')" "up m'" "docs m' = docs (ms_docs s)" by auto
  with m(1) s0(3) assms(1) show ?thesis
    by (simp add: mongo_save_if_absent_def claim_expired_def on_docs_def mongo_inv_def flip: s0_def)
qed

lemma flush_applies:
  assumes "mongo_inv now s"
  shows "\<exists>s'. flush_grace_now K now s = (Inr (length (ms_grace_pending s)), s') \<and> mongo_inv now s' \<and> ms_grace_pending s' = [] \<and>
    docs (ms_docs s') = (\<lambda>pid. case map_of (ms_grace_pending s) pid of
        None \<Rightarrow> docs (ms_docs s) pid | Some g \<Rightarrow> map_option (grace_update now g) (docs (ms_docs s) pid))"
proof (cases "ms_grace_pending s = []")
  case True
  with assms show ?thesis by (simp add: flush_grace_now_def mongo_inv_def)
next
  case False
  let ?ops = "map (\<lambda>(pid, g). (pid, grace_update now g)) (ms_grace_pending s)"
  have "distinct (map fst ?ops)" using assms by (simp add: mongo_inv_def comp_def case_prod_unfold)
  from bulk_write [OF _ this, of "ms_docs s"] assms obtain m where
    m: "co_bulk_write (mg_collection K) ?ops (ms_docs s) = (Inr (), m)" "up m"
    "docs m = (\<lambda>pid. case map_of ?ops pid of None \<Rightarrow> docs (ms_docs s) pid | Some f \<Rightarrow> map_option f (docs (ms_docs s) pid))"
    by (auto simp: mongo_inv_def)
  have "map_of ?ops pid = map_option (grace_update now) (map_of (ms_grace_pending s) pid)" for pid
    by (induction "ms_grace_pending s") (auto simp: map_of_map)
  with m False show ?thesis
    by (auto simp: flush_grace_now_def on_docs_def mongo_inv_def fun_eq_iff split: option.splits)
qed

end

sublocale mongo_collection \<subseteq> mongo: record_store "mongo_store K" mongo_view mongo_inv
proof
  fix s now pid and r r0 :: mapping_record and ttl :: int and t' :: time
  assume inv: "mongo_inv now s"
  then have up: "up (ms_docs s)" by (simp add: mongo_inv_def)
  show "mongo_inv t' s" using inv by (simp add: mongo_inv_def)
  show "mongo_view t' s pid = Some r \<Longrightarrow> now \<le> t' \<Longrightarrow> mongo_view now s pid = Some r"
    by (auto simp: mongo_view_def is_live_def split: option.splits if_splits)
  show "\<exists>s'. st_get (mongo_store K) now pid s = (Inr (mongo_view now s pid), s') \<and> mongo_inv now s' \<and>
      (\<forall>t \<ge> now. mongo_view t s' = mongo_view t s)"
    using find_one [OF up, of pid] inv
    by (auto simp: mongo_store_def mongo_get_def on_docs_def mongo_view_def mongo_inv_def fun_eq_iff split: option.splits)
  show "0 < ttl \<Longrightarrow> \<exists>s'. st_update (mongo_store K) now pid r ttl s = (Inr (), s') \<and> mongo_inv now s' \<and>
      (\<forall>t \<ge> now. mongo_view t s' = put now pid r ttl t (mongo_view t s))"
    using replace_match [OF up, of pid _ "\<lambda>_. True" "mongo_document now r ttl" True] inv
      replace_upsert [OF up, of pid "\<lambda>_. True" "mongo_document now r ttl"]
    by (cases "docs (ms_docs s) pid") (auto simp: mongo_store_def mongo_update_def on_docs_def mongo_inv_def intro!: mongo_view_written)
  show "\<exists>s'. st_delete (mongo_store K) now pid s = (Inr (), s') \<and> mongo_inv now s' \<and>
      (\<forall>t \<ge> now. mongo_view t s' = (mongo_view t s)(pid := None))"
    using delete_one [OF up, of pid] inv
    by (auto simp: mongo_store_def mongo_delete_def on_docs_def mongo_view_def mongo_inv_def fun_eq_iff)
  show "mongo_view now s pid = None \<Longrightarrow> 0 < ttl \<Longrightarrow>
      \<exists>s'. st_save_if_absent (mongo_store K) now pid r ttl s = (Inr True, s') \<and> mongo_inv now s' \<and>
        (\<forall>t \<ge> now. mongo_view t s' = put now pid r ttl t (mongo_view t s))"
    using mongo_save_absent [OF inv, of pid ttl r] mongo_view_written by (fastforce simp: mongo_store_def)
  show "mongo_view now s pid = Some r0 \<Longrightarrow> 0 < ttl \<Longrightarrow>
      \<exists>s'. st_save_if_absent (mongo_store K) now pid r ttl s = (Inr False, s') \<and> mongo_inv now s' \<and>
        (\<forall>t \<ge> now. mongo_view t s' = mongo_view t s)"
    using mongo_save_present [OF inv, of pid r0 r ttl] by (fastforce simp: mongo_store_def mongo_view_def fun_eq_iff)
qed

context mongo_collection
begin

lemma keeps_contract: "record_store (mongo_store K) mongo_view mongo_inv"
  by unfold_locales

end

section \<open>Servers as maps\<close>

text \<open>The documented behaviour as functions on maps: the assumptions about the servers can be met.\<close>

definition redis_map :: "(str \<rightharpoonup> (time \<times> 'b), 'b) redis_client" where
  "redis_map =
     \<lparr>rd_set = (\<lambda>now k v nx ex s.
        if ex \<le> 0 then (Inl BackendError, s)
        else if nx \<and> (case s k of None \<Rightarrow> False | Some (e, _) \<Rightarrow> now < e) then (Inr False, s)
        else (Inr True, s(k \<mapsto> (now + of_int ex, v)))),
      rd_get = (\<lambda>now k s. (Inr (case s k of None \<Rightarrow> None | Some (e, v) \<Rightarrow> if now < e then Some v else None), s)),
      rd_delete = (\<lambda>now k s. (Inr (), s(k := None)))\<rparr>"

definition redis_map_keys :: "time \<Rightarrow> (str \<rightharpoonup> (time \<times> 'b)) \<Rightarrow> str \<rightharpoonup> 'b" where
  "redis_map_keys t s k = (case s k of None \<Rightarrow> None | Some (e, v) \<Rightarrow> if t < e then Some v else None)"

definition plain_codec :: "mapping_record json_codec" where
  "plain_codec = \<lparr>oj_dumps = id, oj_loads = Inr\<rparr>"

lemma redis_map_set:
  "redis_map_keys t (s(k \<mapsto> (e, v))) = (redis_map_keys t s)(k := (if t < e then Some v else None))"
  by (simp add: redis_map_keys_def fun_eq_iff)

lemma redis_map_server: "redis_server redis_map plain_codec redis_map_keys (\<lambda>_ _. True)"
proof
  fix now k nx and s :: "str \<rightharpoonup> (time \<times> mapping_record)" and v w :: mapping_record and ex :: int
  have live: "(case s k of None \<Rightarrow> False | Some (e, _) \<Rightarrow> now < e) \<longleftrightarrow> redis_map_keys now s k \<noteq> None"
    by (simp add: redis_map_keys_def split: option.splits)
  show "0 < ex \<Longrightarrow> (nx \<longrightarrow> redis_map_keys now s k = None) \<Longrightarrow>
      \<exists>s'. rd_set redis_map now k v nx ex s = (Inr True, s') \<and> True \<and>
        (\<forall>t \<ge> now. redis_map_keys t s' = (redis_map_keys t s)(k := (if t < now + of_int ex then Some v else None)))"
    by (rule exI [of _ "s(k \<mapsto> (now + of_int ex, v))"]) (auto simp: redis_map_def live redis_map_set)
  show "0 < ex \<Longrightarrow> redis_map_keys now s k = Some w \<Longrightarrow>
      \<exists>s'. rd_set redis_map now k v True ex s = (Inr False, s') \<and> True \<and> (\<forall>t \<ge> now. redis_map_keys t s' = redis_map_keys t s)"
    by (simp add: redis_map_def live)
  show "\<exists>s'. rd_get redis_map now k s = (Inr (redis_map_keys now s k), s') \<and> True \<and> (\<forall>t \<ge> now. redis_map_keys t s' = redis_map_keys t s)"
    by (simp add: redis_map_def redis_map_keys_def)
  show "\<exists>s'. rd_delete redis_map now k s = (Inr (), s') \<and> True \<and> (\<forall>t \<ge> now. redis_map_keys t s' = (redis_map_keys t s)(k := None))"
    by (simp add: redis_map_def) (simp add: redis_map_keys_def fun_eq_iff)
qed (auto simp: redis_map_keys_def plain_codec_def split: option.splits if_splits)

definition mongo_map :: "(str \<rightharpoonup> mongo_doc) collection" where
  "mongo_map =
     \<lparr>co_insert_one = (\<lambda>pid d m. case m pid of None \<Rightarrow> (Inr True, m(pid \<mapsto> d)) | Some _ \<Rightarrow> (Inr False, m)),
      co_replace_one = (\<lambda>pid P d upsert m. case m pid of
          None \<Rightarrow> if upsert then (Inr 0, m(pid \<mapsto> d)) else (Inr 0, m)
        | Some d0 \<Rightarrow> if P d0 then (Inr (if d0 = d then 0 else 1), m(pid \<mapsto> d)) else (Inr 0, m)),
      co_find_one = (\<lambda>pid m. (Inr (m pid), m)),
      co_delete_one = (\<lambda>pid m. (Inr (), m(pid := None))),
      co_update_one = (\<lambda>pid f m. (Inr (), m(pid := map_option f (m pid)))),
      co_bulk_write = (\<lambda>ops m. (Inr (), \<lambda>pid. case map_of ops pid of None \<Rightarrow> m pid | Some f \<Rightarrow> map_option f (m pid))),
      co_create_index = (\<lambda>m. (Inr (), m)),
      co_ping = (\<lambda>m. (Inr (), m))\<rparr>"

definition mongo_map_cfg :: "bool \<Rightarrow> (str \<rightharpoonup> mongo_doc) mongo_cfg" where
  "mongo_map_cfg batch = \<lparr>mg_collection = mongo_map, mg_batch_grace = batch, mg_monotonic = id\<rparr>"

lemma mongo_map_collection: "mongo_collection (mongo_map_cfg batch) id (\<lambda>_. True)"
  by unfold_locales (auto simp: mongo_map_cfg_def mongo_map_def id_def split: option.splits)

interpretation redis_map: redis_server redis_map plain_codec redis_map_keys "\<lambda>_ _. True"
  by (rule redis_map_server)

interpretation mongo_map: mongo_collection "mongo_map_cfg batch" id "\<lambda>_. True" for batch
  by (rule mongo_map_collection)

section \<open>Mongo with Redis in front\<close>

text \<open>
  The deployment the service is built for: the repository is the authority, Redis the cache. While
  both answer and agree they are one record store.
\<close>

locale production = m: mongo_collection K docs upM + r: redis_server C J keys upR
  for K :: "'m mongo_cfg" and docs :: "'m \<Rightarrow> str \<rightharpoonup> mongo_doc" and upM :: "'m \<Rightarrow> bool"
    and C :: "('r, 'b) redis_client" and J :: "'b json_codec" and keys :: "time \<Rightarrow> 'r \<Rightarrow> str \<rightharpoonup> 'b"
    and upR :: "time \<Rightarrow> 'r \<Rightarrow> bool" +
  fixes backfill :: int

sublocale production \<subseteq> coherent_tiers "mongo_store K" m.mongo_view m.mongo_inv "redis_store C J" r.redis_view r.redis_inv backfill
  by unfold_locales

interpretation production_map: production "mongo_map_cfg True" id "\<lambda>_. True" redis_map plain_codec redis_map_keys "\<lambda>_ _. True" 600
  by unfold_locales

section \<open>Properties\<close>

text \<open>
  C19. Creation is atomic in the Mongo repository, also when an expired document that the server has
  not purged yet still occupies the identifier: of two saves under an identifier without a live
  record exactly the first creates, and until it expires every reader finds its record.
\<close>

theorem mongo_one_creator:
  assumes "mongo_collection K docs up" "up (ms_docs s)" "distinct (map fst (ms_grace_pending s))"
    and "\<forall>d. docs (ms_docs s) pid = Some d \<longrightarrow> \<not> is_live now d"
    and "0 < ttl'" "now \<le> now'" "now' < now + of_int ttl"
    and "mongo_save_if_absent K now pid r ttl s = (res, s1)" "mongo_save_if_absent K now' pid r' ttl' s1 = (res', s2)"
  shows "res = Inr True \<and> res' = Inr False \<and> fst (mongo_get K now' pid s2) = Inr (Some r)"
proof -
  have inv: "mongo_collection.mongo_inv up now s"
    using assms(2,3) by (simp add: mongo_collection.mongo_inv_def [OF assms(1)])
  have free: "mongo_collection.mongo_view docs now s pid = None"
    using assms(4) by (simp add: mongo_collection.mongo_view_def [OF assms(1)] split: option.splits)
  note S = mongo_collection.keeps_contract [OF assms(1)]
  have "res = Inr True \<and> res' = Inr False \<and> mongo_collection.mongo_inv up now' s2 \<and> mongo_collection.mongo_view docs now' s2 pid = Some r"
    by (rule record_store.exactly_one_creator [OF S inv free assms(6,7,5)]) (use assms(8,9) in \<open>simp_all add: mongo_store_def\<close>)
  with record_store.get_law [OF S, of now' s2 pid] show ?thesis by (auto simp: mongo_store_def)
qed

lemma mongo_one_creator_witness:
  "let s = new_mongo_state [[1] \<mapsto> mongo_document 0 (sample_record [6]) 5];
       (res, s1) = mongo_save_if_absent (mongo_map_cfg True) 10 [1] (sample_record [7]) 600 s;
       (res', s2) = mongo_save_if_absent (mongo_map_cfg True) 11 [1] (sample_record [8]) 600 s1
   in res = Inr True \<and> res' = Inr False \<and> fst (mongo_get (mongo_map_cfg True) 11 [1] s2) = Inr (Some (sample_record [7]))"
proof -
  let ?s = "new_mongo_state [[1] \<mapsto> mongo_document 0 (sample_record [6]) 5]"
  have "\<forall>d. id (ms_docs ?s) [1] = Some d \<longrightarrow> \<not> is_live 10 d"
    by (simp add: new_mongo_state_def mongo_document_def is_live_def)
  moreover obtain res s1 where a: "mongo_save_if_absent (mongo_map_cfg True) 10 [1] (sample_record [7]) 600 ?s = (res, s1)" by force
  moreover obtain res' s2 where b: "mongo_save_if_absent (mongo_map_cfg True) 11 [1] (sample_record [8]) 600 s1 = (res', s2)" by force
  ultimately have "res = Inr True \<and> res' = Inr False \<and> fst (mongo_get (mongo_map_cfg True) 11 [1] s2) = Inr (Some (sample_record [7]))"
    by (intro mongo_one_creator [OF mongo_map_collection, of ?s "[1]" 10 600 11 600 True "sample_record [7]" res s1 "sample_record [8]" res' s2])
      (simp_all add: new_mongo_state_def)
  with a b show ?thesis by simp
qed

text \<open>
  C31. The batched grace transition loses nothing while Mongo answers: marking a record only notes it,
  and the next flush puts every noted record that is still stored into its grace period, counted from
  the flush, leaves every other document alone and empties the batch; a batch that reaches 500 entries
  is flushed by the request that fills it.
\<close>

theorem mongo_grace_batch:
  assumes "mongo_collection K docs up" "up (ms_docs s)" "distinct (map fst (ms_grace_pending s))" "mg_batch_grace K"
    and "mongo_mark_demasked K now pid grace s = (res, s1)" "flush_grace_now K now' s1 = (n, s2)"
  defines "pending \<equiv> AList.update pid grace (ms_grace_pending s)"
  defines "flushed \<equiv> \<lambda>t q. case map_of pending q of None \<Rightarrow> docs (ms_docs s) q
      | Some g \<Rightarrow> map_option (grace_update t g) (docs (ms_docs s) q)"
  shows "res = Inr () \<and> ms_grace_pending s2 = [] \<and> map_of pending pid = Some grace \<and>
    (if length pending < 500 then docs (ms_docs s1) = docs (ms_docs s) \<and> n = Inr (length pending) \<and> docs (ms_docs s2) = flushed now'
     else docs (ms_docs s1) = flushed now \<and> n = Inr 0 \<and> docs (ms_docs s2) = docs (ms_docs s1))"
proof -
  define s0 where "s0 = s\<lparr>ms_grace_pending := pending\<rparr>"
  have s0: "ms_grace_pending s0 = pending" "ms_docs s0 = ms_docs s" by (simp_all add: s0_def)
  have inv: "mongo_collection.mongo_inv up t s0" for t
    using assms(2,3) by (simp add: mongo_collection.mongo_inv_def [OF assms(1)] s0_def pending_def distinct_update)
  note flush = mongo_collection.flush_applies [OF assms(1)]
  have pid: "map_of pending pid = Some grace" by (simp add: pending_def update_conv)
  show ?thesis
  proof (cases "length pending < 500")
    case True
    with assms(4,5) have "res = Inr ()" "s1 = s0" by (simp_all add: mongo_mark_demasked_def s0_def pending_def Let_def)
    moreover from flush [OF inv, of now'] obtain s' where "flush_grace_now K now' s0 = (Inr (length pending), s')"
      "ms_grace_pending s' = []" "docs (ms_docs s') = flushed now'"
      unfolding s0 flushed_def by blast
    with assms(6) \<open>s1 = s0\<close> have "n = Inr (length pending)" "ms_grace_pending s2 = []" "docs (ms_docs s2) = flushed now'" by simp_all
    ultimately show ?thesis using True pid s0(2) by simp
  next
    case False
    from flush [OF inv, of now] obtain s' where s': "flush_grace_now K now s0 = (Inr (length pending), s')"
      "mongo_collection.mongo_inv up now s'" "ms_grace_pending s' = []" "docs (ms_docs s') = flushed now"
      unfolding s0 flushed_def by blast
    with False assms(4,5) have "res = Inr ()" "s1 = s'" by (simp_all add: mongo_mark_demasked_def s0_def pending_def Let_def)
    moreover from assms(6) s'(3) \<open>s1 = s'\<close> have "n = Inr 0" "ms_grace_pending s2 = []" "ms_docs s2 = ms_docs s'"
      by (auto simp: flush_grace_now_def)
    ultimately show ?thesis using False pid s'(4) by simp
  qed
qed

lemma mongo_grace_batch_witness:
  "\<exists>s1 s2 n. mongo_mark_demasked (mongo_map_cfg True) 3 [1] 60 (new_mongo_state [[1] \<mapsto> mongo_document 0 (sample_record [6]) 600]) = (Inr (), s1) \<and>
     ms_docs s1 [1] = Some (mongo_document 0 (sample_record [6]) 600) \<and>
     flush_grace_now (mongo_map_cfg True) 4 s1 = (n, s2) \<and> ms_docs s2 [1] = Some (grace_update 4 60 (mongo_document 0 (sample_record [6]) 600))"
proof -
  let ?s = "new_mongo_state [[1] \<mapsto> mongo_document 0 (sample_record [6]) 600]"
  obtain res s1 where m: "mongo_mark_demasked (mongo_map_cfg True) 3 [1] 60 ?s = (res, s1)" by force
  obtain n s2 where f: "flush_grace_now (mongo_map_cfg True) 4 s1 = (n, s2)" by force
  from mongo_grace_batch [OF mongo_map_collection _ _ _ m f] m f show ?thesis
    by (simp add: new_mongo_state_def mongo_map_cfg_def)
qed

section \<open>Where the stores differ\<close>

text \<open>
  Without the batch, the repository's grace transition does not look at the expiry either: a document
  that expired and is not purged yet comes back to life for the grace period, where the inherited
  \<open>mark_demasked\<close> of the other stores leaves it dead.
\<close>

lemma mongo_mark_revives_expired:
  assumes "mongo_collection K docs up" "up (ms_docs s)" "\<not> mg_batch_grace K" "0 < grace"
    and "docs (ms_docs s) pid = Some d" "\<not> is_live now d" "mongo_mark_demasked K now pid grace s = (res, s1)"
  shows "fst (mongo_get K now pid s) = Inr None \<and> fst (mongo_get K now pid s1) = Inr (Some (to_grace now (do_record d)))"
proof -
  from mongo_collection.update_one [OF assms(1,2), of pid "grace_update now grace"] assms(3,5,7)
  have s1: "up (ms_docs s1)" "docs (ms_docs s1) pid = Some (grace_update now grace d)"
    by (auto simp: mongo_mark_demasked_def on_docs_def)
  from mongo_collection.find_one [OF assms(1,2), of pid] mongo_collection.find_one [OF assms(1) s1(1), of pid] s1(2) assms(4-6)
  show ?thesis by (auto simp: mongo_get_def on_docs_def grace_update_def is_live_def)
qed

text \<open>
  A read that finds the cache empty fills it with the full mapping lifetime, not with what is left of
  it in the authority: the record is served from the cache after the authority's copy has expired.
\<close>

lemma backfill_outlives_authority:
  "let cfg = two_tiers (mongo_store (mongo_map_cfg True)) (redis_store redis_map plain_codec) 600;
       s = \<lparr>rs_auth = new_mongo_state [[1] \<mapsto> mongo_document 0 (sample_record [6]) 600], rs_cache = Map.empty,
            rs_auth_breaker = new_breaker 3 10, rs_cache_breaker = new_breaker 3 10\<rparr>;
       s1 = snd (rs_get cfg 599 [1] s)
   in fst (rs_get cfg 900 [1] s1) = Inr (Some (sample_record [6])) \<and>
      fst (mongo_get (mongo_map_cfg True) 900 [1] (rs_auth s1)) = Inr None"
  by (simp add: rs_get_def cache_call_def auth_call_def two_tiers_def mongo_store_def redis_store_def mongo_get_def redis_get_def
      redis_update_def on_docs_def mongo_map_cfg_def mongo_map_def redis_map_def new_mongo_state_def new_breaker_def allow_def
      breaker_state_def record_success_def is_live_def mongo_document_def plain_codec_def redis_key_def KEY_PREFIX_def Let_def)

end
