(* ===== verification/App.thy ===== *)
theory App
  imports Pipeline Admission Backends
begin

text \<open>
  The application: the settings of \<^verbatim>\<open>config/settings.py\<close>, the assembly in \<^verbatim>\<open>main.py\<close> (which
  stores back the service, the pipeline, the service and the admission controller), the routes of
  \<^verbatim>\<open>api/routes.py\<close> and \<^verbatim>\<open>api/inspect.py\<close>, and the path of one HTTP request through the admission
  gate to the service and back. The contract \<open>service\<close> is interpreted here on the service as it is
  assembled, over each of the stores it can be given, and the properties of whole requests follow.
  Parameters are the Unicode tables, the morphological analyser, the digests, and whether a client
  library accepts a URL. Logging and metrics are in the theory \<open>Telemetry\<close>.
\<close>

section \<open>Settings\<close>

record settings =
  se_redis_url :: "str option"
  se_mongo_url :: "str option"
  se_mapping_ttl_seconds :: int
  se_demask_retry_grace_seconds :: int
  se_fingerprint_secret :: "str option"
  se_storage_failure_threshold :: int
  se_storage_cooldown_seconds :: time
  se_context_window_chars :: nat
  se_max_payload_bytes :: int
  se_admission_max_in_flight :: int
  se_admission_max_backlog_work_units :: rat
  se_admission_base_cost :: rat
  se_admission_per_char_cost :: rat
  se_min_retry_after_seconds :: rat
  se_max_retry_after_seconds :: rat
  se_admission_safety_factor :: rat
  se_admission_rss_limit_mb :: rat

definition default_settings :: settings where
  "default_settings =
     \<lparr>se_redis_url = Some (asc ''redis://localhost:6379/0''), se_mongo_url = None,
      se_mapping_ttl_seconds = 600, se_demask_retry_grace_seconds = 60, se_fingerprint_secret = None,
      se_storage_failure_threshold = 3, se_storage_cooldown_seconds = 10, se_context_window_chars = 220,
      se_max_payload_bytes = 3000000, se_admission_max_in_flight = 32,
      se_admission_max_backlog_work_units = 4000000, se_admission_base_cost = 500,
      se_admission_per_char_cost = 1, se_min_retry_after_seconds = 1, se_max_retry_after_seconds = 30,
      se_admission_safety_factor = 3 / 2, se_admission_rss_limit_mb = 12288\<rparr>"

section \<open>Which store\<close>

datatype authority = MongoAuthority | RedisAuthority | MemoryAuthority

record store_plan =
  sp_authority :: authority
  sp_auth_name :: str
  sp_redis_cache :: bool
  sp_failure_threshold :: int
  sp_cooldown_seconds :: time
  sp_backfill_ttl_seconds :: int

text \<open>
  \<open>accepts_mongo\<close> and \<open>accepts_redis\<close> tell whether the client can be constructed from a URL. A Mongo
  client that cannot is not caught; a Redis client that cannot is as if there were none. Whether a
  server answers at startup makes no difference.
\<close>

definition configured_mongo :: "(str \<Rightarrow> bool) \<Rightarrow> settings \<Rightarrow> bool result" where
  "configured_mongo accepts_mongo st =
     (if \<not> truthy (se_mongo_url st) then Inr False
      else if accepts_mongo (the (se_mongo_url st)) then Inr True
      else Inl BackendError)"

definition configured_redis :: "(str \<Rightarrow> bool) \<Rightarrow> settings \<Rightarrow> bool" where
  "configured_redis accepts_redis st \<longleftrightarrow> truthy (se_redis_url st) \<and> accepts_redis (the (se_redis_url st))"

definition store_plan_for :: "authority \<Rightarrow> string \<Rightarrow> bool \<Rightarrow> settings \<Rightarrow> store_plan" where
  "store_plan_for authority name cached st =
     \<lparr>sp_authority = authority, sp_auth_name = asc name, sp_redis_cache = cached,
      sp_failure_threshold = se_storage_failure_threshold st, sp_cooldown_seconds = se_storage_cooldown_seconds st,
      sp_backfill_ttl_seconds = se_mapping_ttl_seconds st\<rparr>"

definition build_mapping_store :: "(str \<Rightarrow> bool) \<Rightarrow> (str \<Rightarrow> bool) \<Rightarrow> settings \<Rightarrow> store_plan result" where
  "build_mapping_store accepts_mongo accepts_redis st =
     (case configured_mongo accepts_mongo st of
        Inl e \<Rightarrow> Inl e
      | Inr mongo \<Rightarrow>
          (let redis = configured_redis accepts_redis st in
           if mongo then Inr (store_plan_for MongoAuthority ''mongo'' redis st)
           else if redis then Inr (store_plan_for RedisAuthority ''redis'' False st)
           else if truthy (se_redis_url st) then Inl ValueError
           else Inr (store_plan_for MemoryAuthority ''memory'' False st)))"

section \<open>Assembly\<close>

text \<open>What the service gets from outside the repository.\<close>

record platform =
  pf_ucd :: ucd
  pf_analyzer :: analyzer
  pf_hash8 :: hash8
  pf_hashes :: hashes

definition app_pipeline :: "platform \<Rightarrow> settings \<Rightarrow> pii_pipeline" where
  "app_pipeline P st = build_pipeline (pf_ucd P) (pf_analyzer P) (se_context_window_chars st)"

definition app_service :: "platform \<Rightarrow> settings \<Rightarrow> consumer_registry \<Rightarrow> 's store_ops \<Rightarrow> 's process_service" where
  "app_service P st reg store =
     \<lparr>sv_pipeline = run_pipeline (pf_ucd P) (pf_analyzer P) (pf_hash8 P) (app_pipeline P st),
      sv_demask = demask (pf_ucd P) (pf_analyzer P),
      sv_store = store,
      sv_consumers = reg,
      sv_ttl = se_mapping_ttl_seconds st,
      sv_grace = se_demask_retry_grace_seconds st,
      sv_secret = se_fingerprint_secret st,
      sv_hashes = pf_hashes P,
      sv_ucd = pf_ucd P\<rparr>"

definition app_admission :: "settings \<Rightarrow> controller" where
  "app_admission st =
     default_controller\<lparr>ac_max_in_flight := se_admission_max_in_flight st,
       ac_max_backlog := se_admission_max_backlog_work_units st, ac_base_cost := se_admission_base_cost st,
       ac_per_char := se_admission_per_char_cost st, ac_min_retry := se_min_retry_after_seconds st,
       ac_max_retry := se_max_retry_after_seconds st, ac_safety := se_admission_safety_factor st,
       ac_rss_limit_mb := se_admission_rss_limit_mb st\<rparr>"

section \<open>The process route\<close>

record http_error =
  he_status :: nat
  he_detail :: str
  he_retry_after :: "str option"

definition plain_error :: "nat \<Rightarrow> string \<Rightarrow> http_error" where
  "plain_error status detail = \<lparr>he_status = status, he_detail = asc detail, he_retry_after = None\<rparr>"

fun map_process_error :: "exn \<Rightarrow> http_error" where
  "map_process_error (ConsumerNotFoundError _) = plain_error 403 ''unknown consumer''"
| "map_process_error (ConsumerDisabledError _) = plain_error 403 ''consumer disabled''"
| "map_process_error PayloadConflictError = plain_error 409 ''payload_id conflict; use a new payload_id''"
| "map_process_error StorageUnavailableError =
     (plain_error 503 ''mapping storage unavailable'')\<lparr>he_retry_after := Some (asc ''5'')\<rparr>"
| "map_process_error _ = plain_error 500 ''internal error''"

definition approx_token_count :: "str \<Rightarrow> nat" where
  "approx_token_count text = (if text = [] then 0 else max (length text div 4) 1)"

text \<open>
  The answer of the service as an HTTP response. \<open>Unprocessable\<close> is the rejection of a body by its
  schema (an empty \<open>payload_id\<close>), \<open>Hangs\<close> a request whose pipeline does not return.
\<close>

datatype response =
    Result str
  | Failed http_error
  | Unprocessable
  | PayloadTooLarge
  | OverCapacity int
  | Hangs

definition process_route ::
  "'s process_service \<Rightarrow> clock \<Rightarrow> str \<Rightarrow> str \<Rightarrow> 's \<Rightarrow> response \<times> 's" where
  "process_route sv clk payload payload_id s =
     (if payload_id = [] then (Unprocessable, s)
      else case process sv clk payload payload_id None s of
             (Inr oc, s') \<Rightarrow> (Result (oc_result oc), s')
           | (Inl Diverges, s') \<Rightarrow> (Hangs, s')
           | (Inl e, s') \<Rightarrow> (Failed (map_process_error e), s'))"

text \<open>
  One request to \<open>/process\<close>: the gate, the route, and the release of the ticket, which happens
  whatever the route answers (but not while it hangs). \<open>mw\<close> is the instant of the last gauge refresh
  and the controller.
\<close>

definition serve_process ::
  "env \<Rightarrow> env \<Rightarrow> env \<Rightarrow> int \<Rightarrow> int option \<Rightarrow> time \<times> controller \<Rightarrow> 's process_service \<Rightarrow> clock \<Rightarrow> str \<Rightarrow> str \<Rightarrow> 's
   \<Rightarrow> response \<times> (time \<times> controller) \<times> 's" where
  "serve_process ev ev' ev'' max_bytes content_length mw sv clk payload payload_id s =
     (let (last_refresh, c) = mw in
      case gate ev max_bytes \<lparr>hs_is_http = True, hs_path = asc ''/process'', hs_content_length = content_length\<rparr> (Some c) of
        (TooLarge, c1) \<Rightarrow> (PayloadTooLarge, (last_refresh, the c1), s)
      | (Rejected _ header, c1) \<Rightarrow> (OverCapacity header, (last_refresh, the c1), s)
      | (PassThrough, c1) \<Rightarrow>
          (case process_route sv clk payload payload_id s of (resp, s') \<Rightarrow> (resp, (last_refresh, the c1), s'))
      | (Admitted t, c1) \<Rightarrow>
          (case process_route sv clk payload payload_id s of
             (Hangs, s') \<Rightarrow> (Hangs, (last_refresh, the c1), s')
           | (resp, s') \<Rightarrow> (resp, leave ev' ev'' t (last_refresh, the c1), s')))"

section \<open>The health route\<close>

text \<open>
  The dictionaries \<open>health()\<close> returns. The inherited one names the class and claims to be well; the
  resilient store puts its own name and the circuit first, and the backend's entries over them.
  Whether the Mongo server answers a ping is a parameter.
\<close>

record backend_health =
  bh_backend :: str
  bh_ok :: bool
  bh_state :: "str option"

record tier_health =
  th_backend :: str
  th_circuit :: circuit
  th_ok :: bool
  th_state :: "str option"

definition base_health :: "string \<Rightarrow> backend_health" where
  "base_health class_name = \<lparr>bh_backend = asc class_name, bh_ok = True, bh_state = None\<rparr>"

fun authority_health :: "bool \<Rightarrow> authority \<Rightarrow> backend_health" where
  "authority_health mongo_ping MongoAuthority =
     \<lparr>bh_backend = asc ''mongo'', bh_ok = mongo_ping, bh_state = Some (asc ''closed'')\<rparr>"
| "authority_health mongo_ping RedisAuthority = base_health ''RedisMappingStore''"
| "authority_health mongo_ping MemoryAuthority = base_health ''InMemoryMappingStore''"

definition merge_health :: "str \<Rightarrow> circuit \<Rightarrow> backend_health \<Rightarrow> tier_health" where
  "merge_health name circ h =
     (let own = \<lparr>th_backend = name, th_circuit = circ, th_ok = True, th_state = None\<rparr>
      in own\<lparr>th_backend := bh_backend h, th_ok := bh_ok h, th_state := bh_state h\<rparr>)"

definition resilient_health ::
  "bool \<Rightarrow> store_plan \<Rightarrow> time \<Rightarrow> ('a, 'c) resilient_state \<Rightarrow> tier_health \<times> tier_health option" where
  "resilient_health mongo_ping plan now s =
     (merge_health (sp_auth_name plan) (breaker_state now (rs_auth_breaker s)) (authority_health mongo_ping (sp_authority plan)),
      if sp_redis_cache plan
      then Some (merge_health (asc ''redis'') (breaker_state now (rs_cache_breaker s)) (base_health ''RedisMappingStore''))
      else None)"

definition redis_status :: "tier_health \<times> tier_health option \<Rightarrow> str" where
  "redis_status storage =
     (case snd storage of
        Some cache \<Rightarrow> if th_ok cache \<and> th_circuit cache = Closed then asc ''ok'' else asc ''degraded''
      | None \<Rightarrow>
          if th_backend (fst storage) = asc ''redis''
          then (if th_ok (fst storage) then asc ''ok'' else asc ''unreachable'')
          else if th_backend (fst storage) \<in> {asc ''memory'', asc ''InMemoryMappingStore''} then asc ''in-memory''
          else asc ''not-configured'')"

record health_response =
  hr_status :: str
  hr_redis :: str
  hr_storage :: "tier_health \<times> tier_health option"
  hr_admission :: "admission_snapshot option"
  hr_load_state :: load_state

definition health :: "env \<Rightarrow> tier_health \<times> tier_health option \<Rightarrow> controller option \<Rightarrow> health_response \<times> controller option" where
  "health ev storage admission =
     (let snap = map_option (snapshot ev) admission in
      (\<lparr>hr_status = asc ''ok'', hr_redis = redis_status storage, hr_storage = storage, hr_admission = map_option fst snap,
        hr_load_state = (case snap of None \<Rightarrow> NORMAL | Some (sn, _) \<Rightarrow> as_state sn)\<rparr>, map_option snd snap))"

section \<open>The inspect route\<close>

record inspect_request =
  iq_payload :: str
  iq_mode :: str
  iq_consumer_id :: "str option"

record candidate_out =
  co_type :: str
  co_value :: str
  co_start :: nat
  co_end :: nat
  co_detector :: str
  co_confidence :: rat

record decision_out =
  do_type :: str
  do_value :: str
  do_start :: nat
  do_end :: nat
  do_decision :: str
  do_confidence :: rat
  do_reasons :: "str list"

record mapping_out =
  mo_entity_id :: str
  mo_type :: str
  mo_original :: str
  mo_token :: str
  mo_synthetic :: str
  mo_partial :: str
  mo_grammatical_case :: "str option"
  mo_gender :: "str option"

record inspect_response =
  ir_mode :: str
  ir_candidates :: "candidate_out list"
  ir_decisions :: "decision_out list"
  ir_masked_text :: str
  ir_mappings :: "mapping_out list"
  ir_demasked_text :: str
  ir_round_trip_ok :: "bool option"

definition to_candidate_out :: "candidate \<Rightarrow> candidate_out" where
  "to_candidate_out c = \<lparr>co_type = pii_value (c_type c), co_value = c_value c, co_start = c_start c, co_end = c_end c,
     co_detector = c_detector c, co_confidence = c_confidence c\<rparr>"

fun decision_value :: "decision \<Rightarrow> str" where
  "decision_value MASK = asc ''MASK''"
| "decision_value KEEP = asc ''KEEP''"
| "decision_value UNCERTAIN = asc ''UNCERTAIN''"

definition to_decision_out :: "privacy_decision \<Rightarrow> decision_out" where
  "to_decision_out d = \<lparr>do_type = pii_value (c_type (d_candidate d)), do_value = c_value (d_candidate d),
     do_start = c_start (d_candidate d), do_end = c_end (d_candidate d), do_decision = decision_value (d_decision d),
     do_confidence = d_confidence d, do_reasons = d_reasons d\<rparr>"

definition to_mapping_out :: "entity_mapping \<Rightarrow> mapping_out" where
  "to_mapping_out m = \<lparr>mo_entity_id = em_entity_id m, mo_type = pii_value (em_type m), mo_original = em_original m,
     mo_token = em_token m, mo_synthetic = em_synthetic m, mo_partial = em_partial m,
     mo_grammatical_case = em_grammatical_case m, mo_gender = em_gender m\<rparr>"

text \<open>
  The route's errors: 422 for a mode that does not exist, 404 for an unknown consumer; an exception
  of the strategy is not caught. \<open>None\<close> is a strategy that does not return.
\<close>

datatype inspect_error = InvalidMode str | UnknownConsumer "str option" | Raised exn

definition inspect ::
  "platform \<Rightarrow> pii_pipeline \<Rightarrow> consumer_registry \<Rightarrow> inspect_request \<Rightarrow> (inspect_error + inspect_response) option" where
  "inspect P pl reg body =
     (case mode_of_value (iq_mode body) of
        None \<Rightarrow> Some (Inl (InvalidMode (iq_mode body)))
      | Some mode \<Rightarrow>
          (case resolve reg (iq_consumer_id body) of
             None \<Rightarrow> Some (Inl (UnknownConsumer (iq_consumer_id body)))
           | Some consumer \<Rightarrow>
               (let (candidates, decisions) = analyze (pf_ucd P) pl (iq_payload body) consumer;
                    session_seed = h_sha256_hex (pf_hashes P) (iq_payload body)
                in case get_strategy mode (pf_ucd P) (pf_analyzer P) (pf_hash8 P) (iq_payload body) decisions session_seed of
                     None \<Rightarrow> None
                   | Some (Inl e) \<Rightarrow> Some (Inl (Raised e))
                   | Some (Inr tr) \<Rightarrow>
                       (let demasked_text = demask (pf_ucd P) (pf_analyzer P) (tr_text tr) (tr_mappings tr) mode
                        in Some (Inr \<lparr>ir_mode = mode_value mode, ir_candidates = map to_candidate_out candidates,
                             ir_decisions = map to_decision_out decisions, ir_masked_text = tr_text tr,
                             ir_mappings = map to_mapping_out (tr_mappings tr), ir_demasked_text = demasked_text,
                             ir_round_trip_ok = (if mode = PARTIAL then None
                                                 else Some (demasked_text = iq_payload body))\<rparr>)))))"

section \<open>The assembled service\<close>

lemma app_service_fields [simp]:
  "sv_store (app_service P st reg S) = S" "sv_consumers (app_service P st reg S) = reg"
  "sv_ttl (app_service P st reg S) = se_mapping_ttl_seconds st" "sv_grace (app_service P st reg S) = se_demask_retry_grace_seconds st"
  "sv_pipeline (app_service P st reg S) = run_pipeline (pf_ucd P) (pf_analyzer P) (pf_hash8 P) (app_pipeline P st)"
  by (simp_all add: app_service_def)

lemma app_pipeline_detectors [simp]:
  "pl_detectors (app_pipeline P st) = register_builtin_detectors (pf_ucd P) (pf_analyzer P) []"
  by (simp add: app_pipeline_def build_pipeline_def)

text \<open>Over any store that keeps the contract the assembled service is a service in the sense of the locale.\<close>

lemma app_is_service:
  assumes "record_store S view invar" "0 < se_mapping_ttl_seconds st"
  shows "service S view invar (app_service P st reg S)"
proof -
  have "faithful text tr" if "sv_pipeline (app_service P st reg S) text mode c seed = Inr tr" for "text" mode c seed tr
    using that builtin.run_pipeline_faithful [OF app_pipeline_detectors] by simp
  with assms show ?thesis by (simp add: service_def service_axioms_def)
qed

lemma app_is_graceful:
  assumes "mapping_store S view invar" "0 < se_mapping_ttl_seconds st" "0 < se_demask_retry_grace_seconds st"
  shows "graceful_service S view invar (app_service P st reg S)"
  using assms app_is_service [of S view invar st P reg]
  by (simp add: graceful_service_def graceful_service_axioms_def mapping_store_def)


interpretation guarded_redis: guarded_store "redis_store redis_map plain_codec" redis_map.redis_view redis_map.redis_inv 600
  by unfold_locales

interpretation app_memory: graceful_service "resilient_store (single_tier memory_store 600)" "guarded_view mem_view"
  "guarded_inv (\<lambda>_ _. True)" "app_service P default_settings reg (resilient_store (single_tier memory_store 600))" for P reg
  by (rule app_is_graceful) (unfold_locales, simp_all add: default_settings_def)

interpretation app_redis: graceful_service "resilient_store (single_tier (redis_store redis_map plain_codec) 600)"
  "guarded_view redis_map.redis_view" "guarded_inv redis_map.redis_inv"
  "app_service P default_settings reg (resilient_store (single_tier (redis_store redis_map plain_codec) 600))" for P reg
  by (rule app_is_graceful) (unfold_locales, simp_all add: default_settings_def)

interpretation app_production: service "resilient_store (two_tiers (mongo_store (mongo_map_cfg True)) (redis_store redis_map plain_codec) 600)"
  "\<lambda>t s. mongo_map.mongo_view t (rs_auth s)" production_map.coherent
  "app_service P default_settings reg (resilient_store (two_tiers (mongo_store (mongo_map_cfg True)) (redis_store redis_map plain_codec) 600))" for P reg
  by (rule app_is_service) (unfold_locales, simp_all add: default_settings_def)


section \<open>What an answer tells about the pipeline\<close>

context service
begin

text \<open>An answered first request ran the pipeline, and its answer is the pipeline's.\<close>

lemma first_answer:
  assumes "resolve (sv_consumers sv) cid = Some c" "cc_enabled c"
    and "invar (at_get clk) s" "view (at_get clk) s pid = None" "at_get clk \<le> at_save clk"
    and "process sv clk payload pid cid s = (Inr oc, s')"
  obtains tr where "sv_pipeline sv payload (cc_masking_mode c) c pid = Inr tr" "oc = first_outcome tr" "oc_result oc = tr_text tr"
proof -
  obtain s1 where s1: "st_get S (at_get clk) pid s = (Inr None, s1)"
    using get_law [OF assms(3), of pid] assms(4) by auto
  have "process sv clk payload pid cid s = first_request sv clk payload pid c s1"
    using process_new [OF assms(1,2)] s1 by (simp add: store_law)
  with assms(6) obtain tr where tr: "sv_pipeline sv payload (cc_masking_mode c) c pid = Inr tr"
    by (auto simp: first_request_def split: sum.splits)
  from process_creates [OF assms(1-5) tr refl] assms(6) have "oc = first_outcome tr" by auto
  with tr that show thesis by (simp add: first_outcome_def)
qed

lemma retry_answer:
  assumes "resolve (sv_consumers sv) cid = Some c" "cc_enabled c"
    and "invar (at_get clk) s" "view (at_get clk) s pid = None" "at_get clk \<le> at_save clk"
    and "process sv clk payload pid cid s = (Inr oc, s')"
    and "at_save clk \<le> at_get clk'" "at_get clk' < at_save clk + of_int (sv_ttl sv)"
    and "process sv clk' payload pid cid s' = (res', s'')"
  shows "res' = Inr (outcome (oc_result oc) DirRETRY_MASK) \<and> (\<forall>t \<ge> at_get clk'. view t s'' = view t s')"
proof -
  obtain tr where tr: "sv_pipeline sv payload (cc_masking_mode c) c pid = Inr tr" "oc_result oc = tr_text tr"
    by (rule first_answer [OF assms(1-6)])
  define r where "r = build_record (sv_hashes sv) (at_build clk) tr payload (cc_demask c) (sv_secret sv)"
  obtain s1 where "process sv clk payload pid cid s = (Inr (first_outcome tr), s1)" "invar (at_save clk) s1"
    "\<forall>t \<ge> at_save clk. view t s1 = put (at_save clk) pid r (sv_ttl sv) t (view t s)"
    by (rule process_creates [OF assms(1-5) tr(1) r_def])
  with assms(6) have s': "invar (at_save clk) s'"
    "\<forall>t \<ge> at_save clk. view t s' = put (at_save clk) pid r (sv_ttl sv) t (view t s)" by simp_all
  have d: "describes sv r payload (tr_text tr)"
    unfolding r_def by (rule build_record_describes) (rule pipeline_law [OF tr(1)])
  have v: "view (at_get clk') s' pid = Some r" using s'(2) assms(7,8) by (simp add: put_def)
  from process_retry [OF assms(1,2) invar_later [OF s'(1) assms(7)] v d] assms(9) tr(2) show ?thesis by auto
qed

end

text \<open>A pipeline run without mappings found nothing personal.\<close>

lemma no_mappings_no_personal:
  assumes "pl_detectors pl = register_builtin_detectors U A []"
    and "run_pipeline U A H pl text mode consumer seed = Inr tr" "tr_mappings tr = []"
  shows "tr_text tr = text \<and> filter is_personal (snd (analyze U pl text consumer)) = []"
proof -
  have f: "faithful text tr" by (rule builtin.run_pipeline_faithful [OF assms(1,2)])
  have run: "build_transform_result U A H text (snd (analyze U pl text consumer)) mode seed = Some (Inr tr)"
    using assms(2) by (simp add: run_pipeline_def pipeline_process_def get_strategy_def)
  from transform_occurrences [OF run builtin.analyze_chain [OF assms(1)]] f assms(3)
  show ?thesis by (simp add: faithful_no_pii) (simp add: faithful_def)
qed

text \<open>The decisions of an analysis are about the text they point at.\<close>

lemma analyze_values:
  assumes "pl_detectors pl = register_builtin_detectors U A []" "d \<in> set (snd (analyze U pl text consumer))"
  shows "wf_candidate text (d_candidate d)"
proof -
  let ?cs = "resolve_overlaps (detect_all (pl_detectors pl) text)"
  have cs: "wf_candidate text c" if "c \<in> set ?cs" for c
    using builtin.detect_all_wf [of c U A "text"] overlap_choice.chosen_subset that assms(1) by auto
  have "d_candidate d \<in> set (map d_candidate (decide_batch U (pl_decider pl) text ?cs))"
    using assms(2) evaluate_candidates [of "pl_rules pl" "text" "decide_batch U (pl_decider pl) text ?cs" ?cs consumer]
    by (simp add: analyze_def Let_def) (metis image_eqI image_set)
  then obtain i where "i < length ?cs" "d_candidate d = d_candidate (decide U (pl_decider pl) text i (?cs ! i) ?cs)"
    by (auto simp: in_set_conv_nth decide_batch_nth)
  with cs show ?thesis by simp
qed

section \<open>A sample deployment\<close>

text \<open>
  The properties below are about every platform, registry and store; their instances are over this
  one: the tables of the Russian alphabet, an analyser without a dictionary, digests that keep the
  text, the default consumer, and a payload in which the pipeline masks a citizenship.
\<close>

definition sample_platform :: platform where
  "sample_platform = \<lparr>pf_ucd = ucd_ru, pf_analyzer = \<lambda>_. [], pf_hash8 = \<lambda>_. 2,
     pf_hashes = \<lparr>h_sha256_hex = (\<lambda>x. x), h_hmac_hex = (\<lambda>k x. x)\<rparr>\<rparr>"

definition sample_registry :: consumer_registry where
  "sample_registry = \<lparr>cr_default = default_consumer_config, cr_consumers = []\<rparr>"

definition sample_clock :: "time \<Rightarrow> clock" where
  "sample_clock t = \<lparr>at_get = t, at_build = t, at_save = t, at_winner = t, at_mark = t\<rparr>"

definition sample_payload :: str where
  "sample_payload = ru ''^grawdanstvo: ^Cili''"

abbreviation sample_service :: "'s store_ops \<Rightarrow> 's process_service" where
  "sample_service S \<equiv> app_service sample_platform default_settings sample_registry S"

lemma sample_platform_fields [simp]:
  "pf_ucd sample_platform = ucd_ru" "pf_analyzer sample_platform = (\<lambda>_. [])" "pf_hash8 sample_platform = (\<lambda>_. 2)"
  "h_sha256_hex (pf_hashes sample_platform) x = x"
  by (simp_all add: sample_platform_def)

lemma sample_clock_fields [simp]:
  "at_get (sample_clock t) = t" "at_build (sample_clock t) = t" "at_save (sample_clock t) = t"
  "at_winner (sample_clock t) = t" "at_mark (sample_clock t) = t"
  by (simp_all add: sample_clock_def)

lemma sample_resolve:
  "resolve sample_registry None = Some default_consumer_config" "cc_enabled default_consumer_config" "cc_demask default_consumer_config"
  by (simp_all add: resolve_def sample_registry_def default_consumer_config_def)

lemma default_ttls [simp]: "se_mapping_ttl_seconds default_settings = 600" "se_demask_retry_grace_seconds default_settings = 60"
  by (simp_all add: default_settings_def)

lemma sample_fp: "fp (sample_service S) x = x"
  by (simp add: fp_def payload_fingerprint_def app_service_def default_settings_def truthy_def)

lemma sample_pipeline:
  obtains tr where "sv_pipeline (sample_service S) sample_payload mode default_consumer_config (asc ''p1'') = Inr tr"
proof -
  obtain tr where "sample_run mode = Some (Inr tr)" by (rule sample_run_returns)
  with that sample_pipeline_run [of mode] show thesis
    by (simp add: run_pipeline_def app_pipeline_def default_settings_def sample_payload_def)
qed

lemma sample_first_request:
  assumes "record_store S view invar" "invar t s" "view t s (asc ''p1'') = None"
  obtains oc s' where "process (sample_service S) (sample_clock t) sample_payload (asc ''p1'') None s = (Inr oc, s')"
proof -
  obtain tr where tr: "sv_pipeline (sample_service S) sample_payload (cc_masking_mode default_consumer_config) default_consumer_config (asc ''p1'') = Inr tr"
    by (rule sample_pipeline)
  have "service S view invar (sample_service S)" by (rule app_is_service [OF assms(1)]) simp
  from service.process_creates [OF this _ _ _ _ _ tr refl, of None "sample_clock t" s] assms(2,3) sample_resolve that
  show thesis by auto
qed

lemma memory_empty [simp]: "mem_view t Map.empty pid = None"
  by (simp add: mem_view_def)

lemma sample_memory_request:
  obtains oc s' where "process (sample_service memory_store) (sample_clock t) sample_payload (asc ''p1'') None Map.empty = (Inr oc, s')"
  by (rule sample_first_request [OF memory.record_store_axioms, OF TrueI, OF memory_empty])

text \<open>The first request of the sample deployment is admitted and answered, over any store that is empty.\<close>

lemma sample_served:
  assumes "record_store S view invar" "invar 2 s" "view 2 s (asc ''p1'') = None"
  obtains ans r c s' where "serve_process (calm 2) (calm 3) (calm 3) 3000000 (Some 100) (0, app_admission default_settings)
    (sample_service S) (sample_clock 2) sample_payload (asc ''p1'') s = (Result ans, (r, c), s')"
proof -
  obtain oc s' where p: "process (sample_service S) (sample_clock 2) sample_payload (asc ''p1'') None s = (Inr oc, s')"
    by (rule sample_first_request [OF assms])
  have "admits (calm 2) 100 (app_admission default_settings)"
    by (simp add: admits_def seen_rss_def calm_def default_controller_def estimate_work_def app_admission_def default_settings_def)
  from try_acquire_admitted [OF this] obtain t c1 where
    t: "try_acquire (calm 2) 100 (app_admission default_settings) = (Inr t, c1)" by blast
  obtain l c2 where l: "leave (calm 3) (calm 3) t (0, c1) = (l, c2)" by (rule prod.exhaust)
  have id_nonempty: "asc ''p1'' \<noteq> []" by (simp add: asc_def)
  have "serve_process (calm 2) (calm 3) (calm 3) 3000000 (Some 100) (0, app_admission default_settings)
      (sample_service S) (sample_clock 2) sample_payload (asc ''p1'') s = (Result (oc_result oc), (l, c2), s')"
    using p l by (simp add: serve_process_def gate_def t process_route_def id_nonempty)
  then show thesis by (rule that)
qed

definition sample_request :: request where
  "sample_request = \<lparr>rq_payload = sample_payload, rq_payload_id = asc ''p1'', rq_consumer_id = None\<rparr>"

lemma sample_clock_instant [simp]: "instant (sample_clock t) th = t"
  by (cases th) simp_all

definition sample_grace_record :: mapping_record where
  "sample_grace_record = \<lparr>mr_version = RECORD_VERSION, mr_state = ACTIVE, mr_mode = TOKEN, mr_original_fp = asc ''ab'',
     mr_transformed_fp = asc ''x'', mr_no_pii = False, mr_demask_enabled = True, mr_mappings = [],
     mr_occurrences = [\<lparr>o_entity_id = asc ''FIO_1'', o_original_start = 0, o_original_end = 2, o_masked_start = 0,
       o_masked_end = 1, o_original = asc ''ab'', o_masked = asc ''x''\<rparr>], mr_created_at = 0, mr_demasked_at = None\<rparr>"

abbreviation down_store :: "(unit, unit) resilient_state store_ops" where
  "down_store \<equiv> resilient_store (single_tier failing_store 600)"

text \<open>Payloads the analysis finds nothing in, processed while the store is down.\<close>

lemma nothing_decided:
  "build_transform_result U A H text [] mode session =
     Some (Inr \<lparr>tr_text = text, tr_mode = mode, tr_mappings = [], tr_detected_entities = [], tr_kept_entities = [], tr_occurrences = []\<rparr>)"
proof -
  have "group_personal_decisions U [] = ([], [])" by code_simp
  then show ?thesis by (simp add: build_transform_result_def finish_transform_def splice_spans_def)
qed

lemma down_answer:
  assumes "snd (analyze ucd_ru (app_pipeline sample_platform default_settings) payload default_consumer_config) = []"
    and "\<not> re_search (TOKEN_PATTERN ucd_ru) payload" "\<not> str_in stars payload"
  shows "fst (process (sample_service down_store) (sample_clock 0) payload (asc ''p1'') None (sample_tiers () ())) =
     Inr (outcome payload DirMASK)"
proof -
  obtain g s1 where g: "st_get down_store 0 (asc ''p1'') (sample_tiers () ()) = (g, s1)" by force
  have "fst (st_get down_store 0 (asc ''p1'') (sample_tiers () ())) = Inl StorageUnavailableError" by code_simp
  with g have "st_get down_store 0 (asc ''p1'') (sample_tiers () ()) = (Inl StorageUnavailableError, s1)" by simp
  then have "process (sample_service down_store) (sample_clock 0) payload (asc ''p1'') None (sample_tiers () ()) =
      (answer_without_storage (sample_service down_store) payload default_consumer_config, s1)"
    using process_storage_down [of "sample_service down_store" None default_consumer_config "sample_clock 0"] sample_resolve by simp
  with assms show ?thesis
    by (simp add: answer_without_storage_def app_service_def run_pipeline_def pipeline_process_def get_strategy_def nothing_decided returned_def)
qed

lemma sample_down_answer:
  "fst (process (sample_service down_store) (sample_clock 0) (asc ''abc'') (asc ''p1'') None (sample_tiers () ())) =
     Inr (outcome (asc ''abc'') DirMASK)"
proof (rule down_answer)
  have "snd (analyze ucd_ru (build_pipeline ucd_ru (\<lambda>_. []) 220) (asc ''abc'') default_consumer_config) = []" by code_simp
  then show "snd (analyze ucd_ru (app_pipeline sample_platform default_settings) (asc ''abc'') default_consumer_config) = []"
    by (simp add: app_pipeline_def default_settings_def)
qed code_simp+

text \<open>
  A name masked in the default mode (its initials) carries no trace of a mask and is not detected
  again, so a demasking request for it is answered with the masked text while the store is down.
\<close>

lemma partial_name_not_failed_closed:
  "fst (process (sample_service down_store) (sample_clock 0) (partial_mask ucd_ru FULL_NAME (ru ''^ivan ^petrov'')) (asc ''p1'') None (sample_tiers () ())) =
     Inr (outcome (ru ''^i. ^p.'') DirMASK)"
proof -
  have m: "partial_mask ucd_ru FULL_NAME (ru ''^ivan ^petrov'') = ru ''^i. ^p.''" by code_simp
  have a: "snd (analyze ucd_ru (build_pipeline ucd_ru (\<lambda>_. []) 220) (ru ''^i. ^p.'') default_consumer_config) = []" by code_simp
  have "\<not> re_search (TOKEN_PATTERN ucd_ru) (ru ''^i. ^p.'')" "\<not> str_in stars (ru ''^i. ^p.'')" by code_simp+
  with down_answer [of "ru ''^i. ^p.''"] a show ?thesis unfolding m by (simp add: app_pipeline_def default_settings_def)
qed
section \<open>What the health route says of Redis\<close>

text \<open>
  With Redis as the authority the route answers "not-configured": the inherited \<open>health()\<close> of the
  Redis store names its class, which replaces the name the route compares with.
\<close>

lemma redis_authority_not_configured:
  assumes "sp_authority plan = RedisAuthority" "\<not> sp_redis_cache plan"
  shows "redis_status (resilient_health mongo_ping plan now s) = asc ''not-configured''"
proof -
  have "asc ''RedisMappingStore'' \<notin> {asc ''redis'', asc ''memory'', asc ''InMemoryMappingStore''}" by code_simp
  with assms show ?thesis
    by (simp add: redis_status_def resilient_health_def merge_health_def base_health_def Let_def)
qed

lemma redis_only_not_configured:
  "build_mapping_store accepts_mongo (\<lambda>_. True) default_settings = Inr plan \<Longrightarrow>
   redis_status (resilient_health mongo_ping plan now s) = asc ''not-configured''"
  by (rule redis_authority_not_configured)
    (auto simp: build_mapping_store_def configured_mongo_def configured_redis_def store_plan_for_def default_settings_def
      truthy_def asc_def)

section \<open>Properties\<close>

text \<open>
  C1. The round trip of the service: over any store that keeps its contract, the text that a first
  request was answered with, sent back under the same identifier while the record is kept, is
  answered with the payload of the first request, character for character, in every masking mode
  and whatever the payload contains, as long as the fingerprints of the two texts do not collide.
\<close>

theorem service_round_trip:
  assumes "record_store S view invar" "0 < se_mapping_ttl_seconds st"
    and "resolve reg cid = Some c" "cc_enabled c" "cc_demask c"
    and "invar (at_get clk) s" "view (at_get clk) s pid = None" "at_get clk \<le> at_save clk"
    and "process (app_service P st reg S) clk payload pid cid s = (Inr oc, s')"
    and "at_save clk \<le> at_get clk'" "at_get clk' < at_save clk + of_int (se_mapping_ttl_seconds st)"
    and "fp (app_service P st reg S) (oc_result oc) = fp (app_service P st reg S) payload \<longrightarrow> oc_result oc = payload"
    and "process (app_service P st reg S) clk' (oc_result oc) pid cid s' = (res', s'')"
  shows "\<exists>oc'. res' = Inr oc' \<and> oc_result oc' = payload"
proof -
  note sv = app_is_service [OF assms(1,2), of P reg]
  have r: "resolve (sv_consumers (app_service P st reg S)) cid = Some c" using assms(3) by simp
  obtain tr where tr: "sv_pipeline (app_service P st reg S) payload (cc_masking_mode c) c pid = Inr tr" "oc_result oc = tr_text tr"
    by (rule service.first_answer [OF sv r assms(4,6-9)])
  from service.mask_then_demask [OF sv r assms(4-8) tr(1) assms(10)] assms(9,11-13) tr(2)
  show ?thesis by (metis app_service_fields(3))
qed

lemma service_round_trip_witness:
  "\<exists>oc s' oc'. process (sample_service memory_store) (sample_clock 0) sample_payload (asc ''p1'') None Map.empty = (Inr oc, s') \<and>
     fst (process (sample_service memory_store) (sample_clock 1) (oc_result oc) (asc ''p1'') None s') = Inr oc' \<and>
     oc_result oc' = sample_payload"
proof -
  note rs = memory.record_store_axioms
  obtain oc s' where p: "process (sample_service memory_store) (sample_clock 0) sample_payload (asc ''p1'') None Map.empty = (Inr oc, s')"
    by (rule sample_memory_request)
  obtain res' s'' where p': "process (sample_service memory_store) (sample_clock 1) (oc_result oc) (asc ''p1'') None s' = (res', s'')" by force
  from service_round_trip [OF rs _ sample_resolve _ _ _ p _ _ _ p'] have "\<exists>oc'. res' = Inr oc' \<and> oc_result oc' = sample_payload"
    by (simp add: sample_fp mem_view_def)
  with p p' show ?thesis by auto
qed

text \<open>
  C5. Retries are idempotent: sending the same payload again under the same identifier while the record
  is kept is answered with the same masked text, and leaves the store as it is.
\<close>

theorem service_retry:
  assumes "record_store S view invar" "0 < se_mapping_ttl_seconds st"
    and "resolve reg cid = Some c" "cc_enabled c"
    and "invar (at_get clk) s" "view (at_get clk) s pid = None" "at_get clk \<le> at_save clk"
    and "process (app_service P st reg S) clk payload pid cid s = (Inr oc, s')"
    and "at_save clk \<le> at_get clk'" "at_get clk' < at_save clk + of_int (se_mapping_ttl_seconds st)"
    and "process (app_service P st reg S) clk' payload pid cid s' = (res', s'')"
  shows "res' = Inr (outcome (oc_result oc) DirRETRY_MASK) \<and> (\<forall>t \<ge> at_get clk'. view t s'' = view t s')"
  using service.retry_answer [OF app_is_service [OF assms(1,2), of P reg], of cid c clk s pid payload oc s' clk' res' s''] assms(3-11) by simp

lemma service_retry_witness:
  "\<exists>oc s'. process (sample_service memory_store) (sample_clock 0) sample_payload (asc ''p1'') None Map.empty = (Inr oc, s') \<and>
     fst (process (sample_service memory_store) (sample_clock 1) sample_payload (asc ''p1'') None s') =
       Inr (outcome (oc_result oc) DirRETRY_MASK)"
proof -
  note rs = memory.record_store_axioms
  obtain oc s' where p: "process (sample_service memory_store) (sample_clock 0) sample_payload (asc ''p1'') None Map.empty = (Inr oc, s')"
    by (rule sample_memory_request)
  obtain res' s'' where p': "process (sample_service memory_store) (sample_clock 1) sample_payload (asc ''p1'') None s' = (res', s'')" by force
  from service_retry [OF rs _ sample_resolve(1,2) _ _ _ p _ _ p'] have "res' = Inr (outcome (oc_result oc) DirRETRY_MASK)" by (simp add: mem_view_def)
  with p p' show ?thesis by auto
qed

text \<open>
  C2. Requests that race agree: when any number of requests for one payload under one fresh identifier
  run at the same time, interleaved in any way, possibly for different consumers, then before the
  record expires all of them that are answered with a text are answered with the same text, the one
  that the stored record turns back into the payload; the others fail for a reason of their own
  (their consumer, or their pipeline).
\<close>

theorem race_same_answer:
  assumes "record_store S view invar" "0 < se_mapping_ttl_seconds st"
    and "(step (app_service P st reg S) reqs)\<^sup>*\<^sup>* (start now s reqs) w" "invar now s" "view now s pid = None"
    and "\<forall>rq \<in> set reqs. rq_payload rq = payload \<and> rq_payload_id rq = pid"
    and "w_now w < now + of_int (se_mapping_ttl_seconds st)"
  shows "\<exists>masked. \<forall>i < length reqs. \<forall>ans. w_threads w ! i = Answered ans \<longrightarrow>
      (case ans of
         Inl e \<Rightarrow> own_error (app_service P st reg S) (reqs ! i) e
       | Inr oc \<Rightarrow> oc_result oc = masked \<and>
           (\<exists>r. view (w_now w) (w_store w) pid = Some r \<and> apply_mask_from_record payload r = masked \<and>
                apply_demask_from_record masked r = payload))"
proof -
  from service.race_answers [OF app_is_service [OF assms(1,2), of P reg] assms(3-6)] assms(7) obtain masked where
    m: "\<forall>i < length reqs. \<forall>ans. w_threads w ! i = Answered ans \<longrightarrow>
      (case ans of Inl e \<Rightarrow> own_error (app_service P st reg S) (reqs ! i) e
       | Inr oc \<Rightarrow> oc_result oc = masked \<and>
           (\<exists>r. view (w_now w) (w_store w) pid = Some r \<and> describes (app_service P st reg S) r payload masked))" by auto
  have "apply_mask_from_record payload r = masked \<and> apply_demask_from_record masked r = payload"
    if "describes (app_service P st reg S) r payload masked" for r using that by (simp add: describes_def)
  with m show ?thesis by (intro exI [of _ masked]) (fastforce split: sum.splits)
qed

lemma race_same_answer_witness:
  "\<exists>w oc oc'. (step (sample_service memory_store) [sample_request, sample_request])\<^sup>*\<^sup>* (start 0 Map.empty [sample_request, sample_request]) w \<and>
     w_threads w = [Answered (Inr oc), Answered (Inr oc')] \<and> oc_result oc' = oc_result oc"
proof -
  note rs = memory.record_store_axioms
  let ?sv = "sample_service memory_store" and ?reqs = "[sample_request, sample_request]"
  obtain oc s' where p: "process ?sv (sample_clock 0) sample_payload (asc ''p1'') None Map.empty = (Inr oc, s')"
    by (rule sample_memory_request)
  obtain res' s'' where p': "process ?sv (sample_clock 0) sample_payload (asc ''p1'') None s' = (res', s'')" by force
  have sv: "service memory_store mem_view (\<lambda>_ _. True) ?sv" by (rule app_is_service [OF rs]) simp
  from service.retry_answer [OF this _ _ _ _ _ p _ _ p'] sample_resolve obtain oc' where oc': "res' = Inr oc'" by (auto simp: mem_view_def)
  have first: "(step ?sv ?reqs)\<^sup>*\<^sup>* (start 0 Map.empty ?reqs) \<lparr>w_now = 0, w_store = s', w_threads = [Answered (Inr oc), Begin]\<rparr>"
    using solo_process [of ?sv sample_request "sample_clock 0" Map.empty] solo_is_execution [of 0 "start 0 Map.empty ?reqs" ?reqs "sample_clock 0" 4 ?sv] p by (simp add: start_def sample_request_def)
  let ?w = "\<lparr>w_now = 0, w_store = s'', w_threads = [Answered (Inr oc), Answered (Inr oc')]\<rparr>"
  have "(step ?sv ?reqs)\<^sup>*\<^sup>* \<lparr>w_now = 0, w_store = s', w_threads = [Answered (Inr oc), Begin]\<rparr> ?w"
    using solo_process [of ?sv sample_request "sample_clock 0" s'] solo_is_execution [of 1 "\<lparr>w_now = 0, w_store = s', w_threads = [Answered (Inr oc), Begin]\<rparr>" ?reqs "sample_clock 0" 4 ?sv] p' oc'
    by (simp add: sample_request_def)
  with first have exec: "(step ?sv ?reqs)\<^sup>*\<^sup>* (start 0 Map.empty ?reqs) ?w" by (rule rtranclp_trans)
  from race_same_answer [OF rs _ exec, of "asc ''p1''" sample_payload] obtain masked where
    "\<forall>i < 2. \<forall>ans. w_threads ?w ! i = Answered ans \<longrightarrow> (case ans of Inl e \<Rightarrow> own_error ?sv (?reqs ! i) e | Inr oc \<Rightarrow> oc_result oc = masked)"
    by (fastforce simp: sample_request_def mem_view_def numeral_2_eq_2 split: sum.splits)
  from this [THEN spec, of 0] this [THEN spec, of 1] exec show ?thesis by auto
qed



text \<open>
  C3. Without storage the service fails closed: when the store cannot be read, or a new record cannot be
  saved, the only text a request is ever answered with is its own payload, unchanged, and only if the
  analysis of the payload found nothing to mask; if the store could not be read, the payload also
  carries no trace of a mask.
\<close>

theorem storage_down_fails_closed:
  assumes "resolve reg cid = Some c" "cc_enabled c"
    and "fst (st_get S (at_get clk) pid s) = Inl StorageUnavailableError \<or>
      fst (st_get S (at_get clk) pid s) = Inr None \<and>
      (\<forall>r s1. fst (st_save_if_absent S (at_save clk) pid r (se_mapping_ttl_seconds st) s1) = Inl StorageUnavailableError)"
    and "process (app_service P st reg S) clk payload pid cid s = (Inr oc, s')"
  shows "oc_result oc = payload \<and> oc_direction oc = DirMASK \<and>
    filter is_personal (snd (analyze (pf_ucd P) (app_pipeline P st) payload c)) = [] \<and>
    (fst (st_get S (at_get clk) pid s) = Inl StorageUnavailableError \<longrightarrow>
       \<not> re_search (TOKEN_PATTERN (pf_ucd P)) payload \<and> \<not> str_in stars payload)"
proof -
  let ?sv = "app_service P st reg S"
  have r: "resolve (sv_consumers ?sv) cid = Some c" using assms(1) by simp
  obtain g s1 where g: "st_get S (at_get clk) pid s = (g, s1)" by force
  consider "g = Inl StorageUnavailableError" | "g = Inr None"
    "\<forall>r s1. fst (st_save_if_absent S (at_save clk) pid r (se_mapping_ttl_seconds st) s1) = Inl StorageUnavailableError"
    using assms(3) g by auto
  then show ?thesis
  proof cases
    case 1
    then have "answer_without_storage ?sv payload c = Inr oc"
      using process_storage_down [OF r assms(2), of clk pid s s1 payload] g assms(4) by simp
    from answer_without_storage_Inr [OF this] obtain tr where
      "oc = outcome payload DirMASK" "\<not> re_search (TOKEN_PATTERN (pf_ucd P)) payload" "\<not> str_in stars payload"
      and tr: "run_pipeline (pf_ucd P) (pf_analyzer P) (pf_hash8 P) (app_pipeline P st) payload (cc_masking_mode c) c (asc ''degraded'') = Inr tr"
        "tr_mappings tr = []" by (auto simp: app_service_def)
    with no_mappings_no_personal [OF app_pipeline_detectors tr] show ?thesis by (simp add: outcome_def)
  next
    case 2
    then have "first_request ?sv clk payload pid c s1 = (Inr oc, s')"
      using process_new [OF r assms(2), of clk pid s s1 payload] g assms(4) by simp
    then obtain tr where tr: "run_pipeline (pf_ucd P) (pf_analyzer P) (pf_hash8 P) (app_pipeline P st) payload (cc_masking_mode c) c pid = Inr tr"
      by (auto simp: first_request_def split: sum.splits)
    define rec where "rec = build_record (sv_hashes ?sv) (at_build clk) tr payload (cc_demask c) (sv_secret ?sv)"
    obtain s2 where "st_save_if_absent S (at_save clk) pid rec (se_mapping_ttl_seconds st) s1 = (Inl StorageUnavailableError, s2)"
      using 2(2) by (metis prod.collapse)
    with \<open>first_request ?sv clk payload pid c s1 = (Inr oc, s')\<close> tr have "mr_no_pii rec" "oc = outcome (tr_text tr) DirMASK"
      by (auto simp: first_request_def rec_def [symmetric] Let_def split: if_splits)
    then have "tr_mappings tr = []" by (simp add: rec_def build_record_def)
    from no_mappings_no_personal [OF app_pipeline_detectors tr this] \<open>oc = _\<close> g 2(1) show ?thesis by (simp add: outcome_def)
  qed
qed

lemma storage_down_fails_closed_witness:
  "fst (process (sample_service down_store) (sample_clock 0) (asc ''abc'') (asc ''p1'') None (sample_tiers () ())) = Inr (outcome (asc ''abc'') DirMASK) \<and>
   filter is_personal (snd (analyze ucd_ru (app_pipeline sample_platform default_settings) (asc ''abc'') default_consumer_config)) = []"
proof -
  obtain s' where a: "process (sample_service down_store) (sample_clock 0) (asc ''abc'') (asc ''p1'') None (sample_tiers () ()) =
      (Inr (outcome (asc ''abc'') DirMASK), s')"
    using sample_down_answer by (metis prod.collapse)
  have "fst (st_get down_store (at_get (sample_clock 0)) (asc ''p1'') (sample_tiers () ())) = Inl StorageUnavailableError" by code_simp
  with storage_down_fails_closed [OF sample_resolve(1,2) _ a] a show ?thesis by simp
qed

text \<open>What the parts of a request tell: the error mapping, the route, the gate.\<close>

lemma map_process_error_status:
  "he_status (map_process_error e) \<in> {403, 409, 500, 503}"
  "he_retry_after (map_process_error e) \<noteq> None \<longleftrightarrow> he_status (map_process_error e) = 503"
  "he_status (map_process_error e) = 503 \<longleftrightarrow> e = StorageUnavailableError"
  by (cases e rule: map_process_error.cases, simp_all add: plain_error_def)+

lemma process_route_cases:
  assumes "process_route sv clk payload payload_id s = (r, s')"
  obtains (unprocessable) "payload_id = []" "r = Unprocessable" "s' = s"
    | (answered) oc where "payload_id \<noteq> []" "process sv clk payload payload_id None s = (Inr oc, s')" "r = Result (oc_result oc)"
    | (hangs) "r = Hangs"
    | (failed) e where "payload_id \<noteq> []" "fst (process sv clk payload payload_id None s) = Inl e" "r = Failed (map_process_error e)"
proof (cases "payload_id = []")
  case True
  with assms that(1) show thesis by (simp add: process_route_def)
next
  case False
  obtain a s1 where p: "process sv clk payload payload_id None s = (a, s1)" by force
  show thesis
  proof (cases a)
    case (Inr oc)
    with False p assms that(2) show thesis by (simp add: process_route_def)
  next
    case (Inl e)
    with False p assms have "r = Hangs \<or> r = Failed (map_process_error e)"
      by (auto simp: process_route_def split: exn.splits)
    with False p Inl that(3,4) show thesis by auto
  qed
qed

lemma gate_in_flight:
  assumes "gate ev max_bytes scope (Some c) = (gr, c1)"
  shows "ac_in_flight (the c1) = (case gr of Admitted _ \<Rightarrow> ac_in_flight c + 1 | _ \<Rightarrow> ac_in_flight c)"
proof -
  have "ac_in_flight (snd (try_acquire ev n c)) = (case fst (try_acquire ev n c) of Inl _ \<Rightarrow> ac_in_flight c | Inr _ \<Rightarrow> ac_in_flight c + 1)" for n
    by (simp add: try_acquire_def Let_def case_prod_beta)
  then have "ac_in_flight c2 = ac_in_flight c + 1" if "try_acquire ev n c = (Inr t, c2)" for n t c2
    using that by (metis fst_conv snd_conv sum.case(2))
  moreover have "ac_in_flight c2 = ac_in_flight c" if "try_acquire ev n c = (Inl t, c2)" for n t c2
    using that \<open>\<And>n. ac_in_flight (snd (try_acquire ev n c)) = _ n\<close> by (metis fst_conv snd_conv sum.case(1))
  ultimately show ?thesis
    using assms unfolding gate_def by (auto split: if_splits sum.splits prod.splits option.splits)
qed

lemma serve_process_cases:
  assumes "serve_process ev ev' ev'' max_bytes content_length (last_refresh, c) sv clk payload payload_id s = (resp, (last_refresh', c'), s')"
    "0 \<le> ac_in_flight c"
  obtains (refused) "resp = PayloadTooLarge \<or> (\<exists>h. resp = OverCapacity h)" "s' = s" "ac_in_flight c' = ac_in_flight c"
    | (served) "process_route sv clk payload payload_id s = (resp, s')" "resp \<noteq> Hangs \<longrightarrow> ac_in_flight c' = ac_in_flight c"
proof -
  obtain gr c1 where g: "gate ev max_bytes \<lparr>hs_is_http = True, hs_path = asc ''/process'', hs_content_length = content_length\<rparr> (Some c) = (gr, c1)"
    by force
  obtain r s1 where p: "process_route sv clk payload payload_id s = (r, s1)" by force
  note n = gate_in_flight [OF g]
  have rel: "ac_in_flight (snd (leave ev' ev'' t (last_refresh, the c1))) = ac_in_flight c" if "gr = Admitted t" for t
    using n that assms(2) by (simp add: leave_def release_def Let_def)
  show thesis
  proof (cases gr)
    case (Admitted t)
    with assms(1) g p have "resp = r" "s' = s1" "resp \<noteq> Hangs \<longrightarrow> leave ev' ev'' t (last_refresh, the c1) = (last_refresh', c')"
      by (cases r; simp add: serve_process_def)+
    with rel [OF Admitted] p that(2) show thesis by (cases "resp = Hangs") simp_all
  qed (use assms(1) g p n that in \<open>auto simp: serve_process_def\<close>)
qed

text \<open>
  C8. The HTTP answers of \<open>/process\<close>: a text is only sent when the service answered the payload with it;
  a request that is refused by the gate, or whose identifier is empty, does not touch the store; every
  exception of the service becomes an error, 503 with \<open>Retry-After\<close> exactly for missing storage; and
  whatever is answered, the request has left the admission count as it found it.
\<close>

theorem process_http:
  assumes "serve_process ev ev' ev'' max_bytes content_length (last_refresh, c) sv clk payload payload_id s = (resp, (last_refresh', c'), s')"
    "0 \<le> ac_in_flight c"
  shows "(resp = PayloadTooLarge \<or> (\<exists>h. resp = OverCapacity h) \<or> resp = Unprocessable \<longrightarrow> s' = s) \<and>
    (resp \<noteq> Hangs \<longrightarrow> ac_in_flight c' = ac_in_flight c) \<and>
    (\<forall>txt. resp = Result txt \<longrightarrow> payload_id \<noteq> [] \<and>
       (\<exists>oc. process sv clk payload payload_id None s = (Inr oc, s') \<and> oc_result oc = txt)) \<and>
    (\<forall>e. resp = Failed e \<longrightarrow> he_status e \<in> {403, 409, 500, 503} \<and> (he_retry_after e \<noteq> None \<longleftrightarrow> he_status e = 503) \<and>
       (he_status e = 503 \<longleftrightarrow> fst (process sv clk payload payload_id None s) = Inl StorageUnavailableError))"
  using assms
proof (cases rule: serve_process_cases)
  case refused
  then show ?thesis by auto
next
  case served
  from served(1) show ?thesis
  proof (cases rule: process_route_cases)
    case (failed e)
    with served(2) map_process_error_status [of e] show ?thesis by simp
  qed (use served(2) in simp_all)
qed

lemma process_http_witness:
  "\<exists>ans r c' s'. serve_process (calm 2) (calm 3) (calm 3) 3000000 (Some 100) (0, app_admission default_settings) (sample_service memory_store)
       (sample_clock 2) sample_payload (asc ''p1'') Map.empty = (Result ans, (r, c'), s') \<and> ac_in_flight c' = 0"
proof -
  obtain ans r c' s' where a: "serve_process (calm 2) (calm 3) (calm 3) 3000000 (Some 100) (0, app_admission default_settings)
      (sample_service memory_store) (sample_clock 2) sample_payload (asc ''p1'') Map.empty = (Result ans, (r, c'), s')"
    by (rule sample_served [OF memory.record_store_axioms, OF TrueI, OF memory_empty])
  have "ac_in_flight (app_admission default_settings) = 0" by (simp add: app_admission_def default_controller_def)
  with process_http [OF a] have "ac_in_flight c' = 0" by simp
  with a show ?thesis by blast
qed

text \<open>
  A configured authority is never replaced: when the application starts, the in-memory store is
  chosen exactly if neither Mongo nor Redis is configured; Mongo is the authority exactly if it is
  configured, and Redis is then only a cache; a Redis URL that cannot be used without Mongo, or a
  Mongo URL that cannot be used, prevents the start.
\<close>

lemma store_ladder:
  "(\<forall>plan. build_mapping_store accepts_mongo accepts_redis st = Inr plan \<longrightarrow>
      (sp_authority plan = MemoryAuthority \<longleftrightarrow> \<not> truthy (se_mongo_url st) \<and> \<not> truthy (se_redis_url st)) \<and>
      (sp_authority plan = MongoAuthority \<longleftrightarrow> truthy (se_mongo_url st)) \<and>
      (sp_redis_cache plan \<longleftrightarrow> sp_authority plan = MongoAuthority \<and> configured_redis accepts_redis st)) \<and>
   ((\<exists>e. build_mapping_store accepts_mongo accepts_redis st = Inl e) \<longleftrightarrow>
      (if truthy (se_mongo_url st) then \<not> accepts_mongo (the (se_mongo_url st))
       else truthy (se_redis_url st) \<and> \<not> accepts_redis (the (se_redis_url st))))"
  by (auto simp: build_mapping_store_def configured_mongo_def configured_redis_def store_plan_for_def Let_def split: if_splits)

text \<open>
  C40. The inspect page tells the truth about tokens: for a payload without an opening angle bracket in
  which every mention of an entity reads like its first mention, inspecting in token mode reports a
  successful round trip.
\<close>

theorem inspect_token_round_trip:
  assumes "inspect P (app_pipeline P st) reg body = Some (Inr resp)" "iq_mode body = asc ''token''"
    and "resolve reg (iq_consumer_id body) = Some c" "60 \<notin> set (iq_payload body)"
    and "\<forall>g \<in> set (fst (group_personal_decisions (pf_ucd P) (snd (analyze (pf_ucd P) (app_pipeline P st) (iq_payload body) c)))).
       \<forall>d \<in> set (map snd (eg_decisions g)). c_value (d_candidate d) = c_value (eg_first g)"
  shows "ir_demasked_text resp = iq_payload body \<and> ir_round_trip_ok resp = Some True"
proof -
  have mode: "mode_of_value (asc ''token'') = Some TOKEN" by code_simp
  from assms(1-3) obtain tr where
    tr: "build_transform_result (pf_ucd P) (pf_analyzer P) (pf_hash8 P) (iq_payload body)
       (snd (analyze (pf_ucd P) (app_pipeline P st) (iq_payload body) c)) TOKEN (h_sha256_hex (pf_hashes P) (iq_payload body)) = Some (Inr tr)"
    and resp: "ir_demasked_text resp = demask (pf_ucd P) (pf_analyzer P) (tr_text tr) (tr_mappings tr) TOKEN"
      "ir_round_trip_ok resp = Some (ir_demasked_text resp = iq_payload body)"
    by (auto simp: inspect_def mode get_strategy_def Let_def split: option.splits sum.splits prod.splits)
  have "\<forall>d \<in> set (snd (analyze (pf_ucd P) (app_pipeline P st) (iq_payload body) c)).
      c_value (d_candidate d) = slice (iq_payload body) (c_start (d_candidate d)) (c_end (d_candidate d))"
    using analyze_values [OF app_pipeline_detectors] by (auto simp: wf_candidate_def)
  from token_demasks [OF tr builtin.analyze_chain [OF app_pipeline_detectors] this assms(4,5)]
  show ?thesis using resp by simp
qed

lemma inspect_token_round_trip_witness:
  "\<exists>resp. inspect sample_platform (app_pipeline sample_platform default_settings) sample_registry
       \<lparr>iq_payload = sample_payload, iq_mode = asc ''token'', iq_consumer_id = None\<rparr> = Some (Inr resp) \<and>
     ir_decisions resp = [to_decision_out sample_rf] \<and> ir_round_trip_ok resp = Some True"
proof -
  let ?body = "\<lparr>iq_payload = sample_payload, iq_mode = asc ''token'', iq_consumer_id = None\<rparr>"
  have mode: "mode_of_value (asc ''token'') = Some TOKEN" by code_simp
  have a: "snd (analyze ucd_ru (app_pipeline sample_platform default_settings) sample_payload default_consumer_config) = [sample_rf]"
    using sample_analysis by (simp add: app_pipeline_def default_settings_def sample_payload_def)
  obtain cs where cs: "analyze ucd_ru (app_pipeline sample_platform default_settings) sample_payload default_consumer_config = (cs, [sample_rf])"
    using a by (metis prod.collapse)
  obtain tr where tr: "build_transform_result ucd_ru (\<lambda>_. []) (\<lambda>_. 2) sample_payload [sample_rf] TOKEN sample_payload = Some (Inr tr)"
    unfolding sample_payload_def by (rule sample_transform)
  obtain resp where resp: "inspect sample_platform (app_pipeline sample_platform default_settings) sample_registry ?body = Some (Inr resp)"
    "ir_decisions resp = [to_decision_out sample_rf]"
    using cs tr sample_resolve(1) by (simp add: inspect_def mode get_strategy_def Let_def)
  have no: "60 \<notin> set sample_payload" by code_simp
  have "\<forall>g \<in> set (fst (group_personal_decisions ucd_ru [sample_rf])). \<forall>d \<in> set (map snd (eg_decisions g)).
      c_value (d_candidate d) = c_value (eg_first g)"
    unfolding sample_groups by (simp add: sample_group_def eg_first_def)
  with inspect_token_round_trip [OF resp(1), of default_consumer_config] no a sample_resolve(1) resp show ?thesis by auto
qed

end
