(* ===== verification/Telemetry.thy ===== *)
theory Telemetry
  imports App
begin

text \<open>
  What the service tells about its work: the metrics of \<^verbatim>\<open>metrics/registry.py\<close>, the log pipeline of
  \<^verbatim>\<open>config/logging.py\<close>, and the calls of both in \<^verbatim>\<open>storage/resilient_store.py\<close>,
  \<^verbatim>\<open>core/process_service.py\<close>, \<^verbatim>\<open>api/routes.py\<close> and \<^verbatim>\<open>admission/middleware.py\<close>. The instrumented operations
  work on a state with the list of effects so far. The predicate \<open>traces\<close> relates an instrumented
  operation to the plain one of the other theories: same answer, same state, and only effects of a
  given kind. The locale \<open>traced_store\<close> states it for the operations of a store, is interpreted on the
  instrumented resilient store, and carries over to whole requests. Measured durations have no value
  here, and the debug entries of the Mongo store and the entry of a raising detector are left out.
\<close>

section \<open>Metrics and log entries\<close>

datatype counter =
    REQUEST_COUNT str str
  | TOKENS_PROCESSED str
  | ENTITIES_DETECTED
  | ENTITIES_MASKED
  | ERRORS str
  | STORAGE_ERRORS str
  | STORAGE_DEGRADED_EVENTS str
  | ADMISSION_REJECTED str

datatype histogram =
    REQUEST_LATENCY str
  | REDIS_LATENCY str
  | STORAGE_LATENCY str str
  | RETRY_AFTER

datatype gauge = IN_FLIGHT | BACKLOG_WORK | LOAD_STATE load_state

datatype log_level = DebugLevel | InfoLevel | WarningLevel | ErrorLevel

datatype log_value = LText str | LInt int | LDuration

record log_entry =
  le_level :: log_level
  le_event :: str
  le_fields :: "(str \<times> log_value) list"

text \<open>An effect; \<open>None\<close> is a measured duration.\<close>

datatype effect =
    Inc counter nat
  | Observe histogram "rat option"
  | SetGauge gauge rat
  | Log log_entry

definition FORBIDDEN_KEYS :: "str list" where
  "FORBIDDEN_KEYS = map asc [''payload'', ''original'', ''original_text'', ''value'', ''text'', ''mapping'', ''mappings'']"

definition drop_forbidden_fields :: "log_entry \<Rightarrow> log_entry" where
  "drop_forbidden_fields e = e\<lparr>le_fields := filter (\<lambda>(k, _). k \<notin> set FORBIDDEN_KEYS) (le_fields e)\<rparr>"

fun severity :: "log_level \<Rightarrow> nat" where
  "severity DebugLevel = 10"
| "severity InfoLevel = 20"
| "severity WarningLevel = 30"
| "severity ErrorLevel = 40"

text \<open>
  A call of a logger that \<open>configure_logging(level)\<close> set up: entries below the level are discarded,
  the others pass the processor.
\<close>

definition log_call :: "log_level \<Rightarrow> log_level \<Rightarrow> string \<Rightarrow> (string \<times> log_value) list \<Rightarrow> effect list" where
  "log_call threshold level event kvs =
     (if severity threshold \<le> severity level
      then [Log (drop_forbidden_fields
              \<lparr>le_level = level, le_event = asc event, le_fields = map (\<lambda>(k, v). (asc k, v)) kvs\<rparr>)]
      else [])"

type_synonym 's traced = "'s \<times> effect list"

definition emit :: "effect list \<Rightarrow> 's traced \<Rightarrow> 's traced" where
  "emit es w = (fst w, snd w @ es)"

section \<open>The instrumented store\<close>

record telemetry =
  tl_level :: log_level
  tl_auth_name :: str
  tl_cache_name :: str

text \<open>The log entry of \<open>CircuitBreaker.record_failure\<close>, for the breaker before the failure.\<close>

definition failure_log :: "telemetry \<Rightarrow> str \<Rightarrow> breaker \<Rightarrow> effect list" where
  "failure_log T name b =
     (if br_failures b + 1 \<ge> br_threshold b \<and> br_opened_at b = None
      then log_call (tl_level T) WarningLevel ''circuit_opened'' [(''breaker'', LText name)] else [])"

definition auth_call_t ::
  "telemetry \<Rightarrow> string \<Rightarrow> time \<Rightarrow> ('a \<Rightarrow> 'x result \<times> 'a) \<Rightarrow> ('a, 'c) resilient_state traced
   \<Rightarrow> 'x result \<times> ('a, 'c) resilient_state traced" where
  "auth_call_t T op now fn = (\<lambda>(s, tr).
     if \<not> allow now (rs_auth_breaker s) then (Inl StorageUnavailableError, (s, tr))
     else
       (let latency = [Observe (STORAGE_LATENCY (tl_auth_name T) (asc op)) None] in
        case fn (rs_auth s) of
          (Inl exc, a) \<Rightarrow>
            (Inl StorageUnavailableError,
             (s\<lparr>rs_auth := a, rs_auth_breaker := record_failure now (rs_auth_breaker s)\<rparr>,
              tr @ [Inc (STORAGE_ERRORS (tl_auth_name T)) 1] @ failure_log T (tl_auth_name T) (rs_auth_breaker s) @ latency))
        | (Inr res, a) \<Rightarrow>
            (Inr res, (s\<lparr>rs_auth := a, rs_auth_breaker := record_success (rs_auth_breaker s)\<rparr>, tr @ latency))))"

definition cache_call_t ::
  "telemetry \<Rightarrow> string \<Rightarrow> ('a, 'c) resilient_cfg \<Rightarrow> time \<Rightarrow> ('c store_ops \<Rightarrow> 'c \<Rightarrow> 'x result \<times> 'c)
   \<Rightarrow> ('a, 'c) resilient_state traced \<Rightarrow> 'x option \<times> ('a, 'c) resilient_state traced" where
  "cache_call_t T op cfg now fn = (\<lambda>(s, tr).
     case rf_cache cfg of
       None \<Rightarrow> (None, (s, tr))
     | Some cache \<Rightarrow>
         (if \<not> allow now (rs_cache_breaker s) then (None, (s, tr))
          else
            (let latency = [Observe (STORAGE_LATENCY (tl_cache_name T) (asc op)) None] in
             case fn cache (rs_cache s) of
               (Inl exc, c) \<Rightarrow>
                 (None,
                  (s\<lparr>rs_cache := c, rs_cache_breaker := record_failure now (rs_cache_breaker s)\<rparr>,
                   tr @ [Inc (STORAGE_ERRORS (tl_cache_name T)) 1, Inc (STORAGE_DEGRADED_EVENTS (asc ''cache_error'')) 1] @
                   failure_log T (tl_cache_name T) (rs_cache_breaker s) @ latency))
             | (Inr res, c) \<Rightarrow>
                 (Some res,
                  (s\<lparr>rs_cache := c, rs_cache_breaker := record_success (rs_cache_breaker s)\<rparr>, tr @ latency)))))"

definition rs_save_if_absent_t ::
  "telemetry \<Rightarrow> ('a, 'c) resilient_cfg \<Rightarrow> time \<Rightarrow> str \<Rightarrow> mapping_record \<Rightarrow> int \<Rightarrow> ('a, 'c) resilient_state traced
   \<Rightarrow> bool result \<times> ('a, 'c) resilient_state traced" where
  "rs_save_if_absent_t T cfg now payload_id record ttl_seconds w =
     (case auth_call_t T ''save_if_absent'' now (st_save_if_absent (rf_auth cfg) now payload_id record ttl_seconds) w of
        (Inl e, w1) \<Rightarrow> (Inl e, w1)
      | (Inr created, w1) \<Rightarrow>
          (if created
           then (Inr True,
                 snd (cache_call_t T ''update'' cfg now (\<lambda>C. st_update C now payload_id record ttl_seconds) w1))
           else (Inr False, w1)))"

definition rs_get_t ::
  "telemetry \<Rightarrow> ('a, 'c) resilient_cfg \<Rightarrow> time \<Rightarrow> str \<Rightarrow> ('a, 'c) resilient_state traced
   \<Rightarrow> mapping_record option result \<times> ('a, 'c) resilient_state traced" where
  "rs_get_t T cfg now payload_id w =
     (case cache_call_t T ''get'' cfg now (\<lambda>C. st_get C now payload_id) w of
        (Some (Some cached), w1) \<Rightarrow> (Inr (Some cached), w1)
      | (cached, w1) \<Rightarrow>
          (case auth_call_t T ''get'' now (st_get (rf_auth cfg) now payload_id) w1 of
             (Inl e, w2) \<Rightarrow> (Inl e, w2)
           | (Inr None, w2) \<Rightarrow> (Inr None, w2)
           | (Inr (Some record), w2) \<Rightarrow>
               (if rf_cache cfg \<noteq> None \<and> cached \<noteq> None
                then (Inr (Some record),
                      snd (cache_call_t T ''update'' cfg now
                             (\<lambda>C. st_update C now payload_id record (rf_backfill_ttl cfg)) w2))
                else (Inr (Some record), w2))))"

definition rs_update_t ::
  "telemetry \<Rightarrow> ('a, 'c) resilient_cfg \<Rightarrow> time \<Rightarrow> str \<Rightarrow> mapping_record \<Rightarrow> int \<Rightarrow> ('a, 'c) resilient_state traced
   \<Rightarrow> unit result \<times> ('a, 'c) resilient_state traced" where
  "rs_update_t T cfg now payload_id record ttl_seconds w =
     (case auth_call_t T ''update'' now (st_update (rf_auth cfg) now payload_id record ttl_seconds) w of
        (Inl e, w1) \<Rightarrow> (Inl e, w1)
      | (Inr _, w1) \<Rightarrow>
          (Inr (), snd (cache_call_t T ''update'' cfg now (\<lambda>C. st_update C now payload_id record ttl_seconds) w1)))"

definition rs_delete_t ::
  "telemetry \<Rightarrow> ('a, 'c) resilient_cfg \<Rightarrow> time \<Rightarrow> str \<Rightarrow> ('a, 'c) resilient_state traced
   \<Rightarrow> unit result \<times> ('a, 'c) resilient_state traced" where
  "rs_delete_t T cfg now payload_id w =
     auth_call_t T ''delete'' now (st_delete (rf_auth cfg) now payload_id)
       (snd (cache_call_t T ''delete'' cfg now (\<lambda>C. st_delete C now payload_id) w))"

definition rs_mark_demasked_t ::
  "telemetry \<Rightarrow> ('a, 'c) resilient_cfg \<Rightarrow> time \<Rightarrow> str \<Rightarrow> int \<Rightarrow> ('a, 'c) resilient_state traced
   \<Rightarrow> unit result \<times> ('a, 'c) resilient_state traced" where
  "rs_mark_demasked_t T cfg now payload_id grace_seconds w =
     (let w1 = (case auth_call_t T ''mark_demasked'' now (st_mark_demasked (rf_auth cfg) now payload_id grace_seconds) w of
                  (Inl e, w1) \<Rightarrow> emit [Inc (STORAGE_DEGRADED_EVENTS (asc ''grace_transition_not_durable'')) 1] w1
                | (Inr _, w1) \<Rightarrow> w1)
      in if rf_cache cfg = None then (Inr (), w1)
         else case cache_call_t T ''get'' cfg now (\<lambda>C. st_get C now payload_id) w1 of
                (Some (Some cached), w2) \<Rightarrow>
                  (Inr (),
                   snd (cache_call_t T ''update'' cfg now
                          (\<lambda>C. st_update C now payload_id (to_grace now cached) grace_seconds) w2))
              | (_, w2) \<Rightarrow> (Inr (), w2))"

definition resilient_store_t :: "telemetry \<Rightarrow> ('a, 'c) resilient_cfg \<Rightarrow> ('a, 'c) resilient_state traced store_ops" where
  "resilient_store_t T cfg = \<lparr>st_save_if_absent = rs_save_if_absent_t T cfg, st_update = rs_update_t T cfg,
     st_get = rs_get_t T cfg, st_delete = rs_delete_t T cfg, st_mark_demasked = rs_mark_demasked_t T cfg\<rparr>"

section \<open>The instrumented service\<close>

definition timed_get :: "'s traced store_ops \<Rightarrow> time \<Rightarrow> str \<Rightarrow> 's traced \<Rightarrow> mapping_record option result \<times> 's traced" where
  "timed_get store now payload_id w =
     (case st_get store now payload_id w of (r, w1) \<Rightarrow> (r, emit [Observe (REDIS_LATENCY (asc ''get'')) None] w1))"

definition timed_save_if_absent ::
  "'s traced store_ops \<Rightarrow> time \<Rightarrow> str \<Rightarrow> mapping_record \<Rightarrow> int \<Rightarrow> 's traced \<Rightarrow> bool result \<times> 's traced" where
  "timed_save_if_absent store now payload_id record ttl w =
     (case st_save_if_absent store now payload_id record ttl w of
        (r, w1) \<Rightarrow> (r, emit [Observe (REDIS_LATENCY (asc ''save_if_absent'')) None] w1))"

definition degraded_event :: "string \<Rightarrow> effect" where
  "degraded_event kind = Inc (STORAGE_DEGRADED_EVENTS (asc kind)) 1"

definition answer_without_storage_t ::
  "'s traced process_service \<Rightarrow> str \<Rightarrow> consumer_config \<Rightarrow> 's traced \<Rightarrow> process_outcome result \<times> 's traced" where
  "answer_without_storage_t sv payload consumer w =
     (case answer_without_storage sv payload consumer of
        Inl e \<Rightarrow> (Inl e, w)
      | Inr oc \<Rightarrow> (Inr oc, emit [degraded_event ''no_pii_unpersisted''] w))"

definition transition_to_grace_t ::
  "'s traced process_service \<Rightarrow> time \<Rightarrow> str \<Rightarrow> mapping_record \<Rightarrow> 's traced \<Rightarrow> 's traced" where
  "transition_to_grace_t sv now payload_id record w =
     (if mr_state record = DEMASKED_GRACE then w
      else case st_mark_demasked (sv_store sv) now payload_id (sv_grace sv) w of
             (Inl _, w1) \<Rightarrow> emit [degraded_event ''grace_transition_failed''] w1
           | (Inr _, w1) \<Rightarrow> w1)"

definition first_request_t ::
  "'s traced process_service \<Rightarrow> clock \<Rightarrow> str \<Rightarrow> str \<Rightarrow> consumer_config \<Rightarrow> 's traced
   \<Rightarrow> process_outcome result \<times> 's traced" where
  "first_request_t sv clk payload payload_id consumer w =
     (case sv_pipeline sv payload (cc_masking_mode consumer) consumer payload_id of
        Inl e \<Rightarrow> (Inl e, w)
      | Inr transform \<Rightarrow>
          (let record = build_record (sv_hashes sv) (at_build clk) transform payload
                          (cc_demask consumer) (sv_secret sv) in
           case timed_save_if_absent (sv_store sv) (at_save clk) payload_id record (sv_ttl sv) w of
             (Inl StorageUnavailableError, w1) \<Rightarrow>
               if mr_no_pii record
               then (Inr (outcome (tr_text transform) DirMASK), emit [degraded_event ''no_pii_unpersisted''] w1)
               else (Inl StorageUnavailableError, w1)
           | (Inl e, w1) \<Rightarrow> (Inl e, w1)
           | (Inr True, w1) \<Rightarrow>
               (let oc = first_outcome transform in
                (Inr oc, emit [Inc ENTITIES_DETECTED (oc_entities_detected oc), Inc ENTITIES_MASKED (oc_entities_masked oc)] w1))
           | (Inr False, w1) \<Rightarrow>
               (case timed_get (sv_store sv) (at_winner clk) payload_id (emit [degraded_event ''save_race_lost''] w1) of
                  (Inl e, w2) \<Rightarrow> (Inl e, w2)
                | (Inr winner, w2) \<Rightarrow> (answer_from_winner payload record winner, w2))))"

definition process_t ::
  "'s traced process_service \<Rightarrow> clock \<Rightarrow> str \<Rightarrow> str \<Rightarrow> str option \<Rightarrow> 's traced
   \<Rightarrow> process_outcome result \<times> 's traced" where
  "process_t sv clk payload payload_id consumer_id w =
     (case resolve (sv_consumers sv) consumer_id of
        None \<Rightarrow> (Inl (ConsumerNotFoundError (or_else consumer_id (asc ''<default>''))), w)
      | Some consumer \<Rightarrow>
          if \<not> cc_enabled consumer then (Inl (ConsumerDisabledError (cc_consumer_id consumer)), w)
          else (case timed_get (sv_store sv) (at_get clk) payload_id w of
                  (Inl StorageUnavailableError, w1) \<Rightarrow> answer_without_storage_t sv payload consumer w1
                | (Inl e, w1) \<Rightarrow> (Inl e, w1)
                | (Inr None, w1) \<Rightarrow> first_request_t sv clk payload payload_id consumer w1
                | (Inr (Some record), w1) \<Rightarrow>
                    (case answer_from_record sv payload consumer record of
                       (ans, demasked) \<Rightarrow>
                         (ans, if demasked then transition_to_grace_t sv (at_mark clk) payload_id record w1
                               else w1))))"

section \<open>The instrumented request\<close>

fun direction_value :: "process_direction \<Rightarrow> str" where
  "direction_value DirMASK = asc ''mask''"
| "direction_value DirDEMASK = asc ''demask''"
| "direction_value DirRETRY_MASK = asc ''retry_mask''"
| "direction_value DirRETRY_DEMASK = asc ''retry_demask''"

text \<open>\<open>type(exc).__name__\<close>; the exception of a backend driver stands for its class.\<close>

fun error_type :: "exn \<Rightarrow> str" where
  "error_type (ConsumerNotFoundError _) = asc ''ConsumerNotFoundError''"
| "error_type (ConsumerDisabledError _) = asc ''ConsumerDisabledError''"
| "error_type PayloadConflictError = asc ''PayloadConflictError''"
| "error_type StorageUnavailableError = asc ''StorageUnavailableError''"
| "error_type ValueError = asc ''ValueError''"
| "error_type KeyError = asc ''KeyError''"
| "error_type IndexError = asc ''IndexError''"
| "error_type BackendError = asc ''BackendError''"
| "error_type Diverges = []"

fun error_effects :: "log_level \<Rightarrow> str \<Rightarrow> exn \<Rightarrow> effect list" where
  "error_effects lv payload_id_hash (ConsumerNotFoundError _) = [Inc (ERRORS (asc ''consumer_not_found'')) 1]"
| "error_effects lv payload_id_hash (ConsumerDisabledError _) = [Inc (ERRORS (asc ''consumer_disabled'')) 1]"
| "error_effects lv payload_id_hash PayloadConflictError = [Inc (ERRORS (asc ''payload_conflict'')) 1]"
| "error_effects lv payload_id_hash StorageUnavailableError =
     Inc (ERRORS (asc ''storage_unavailable'')) 1 #
     log_call lv ErrorLevel ''storage_unavailable'' [(''payload_id_hash'', LText payload_id_hash)]"
| "error_effects lv payload_id_hash e =
     Inc (ERRORS (asc ''internal'')) 1 #
     log_call lv ErrorLevel ''process_failed''
       [(''payload_id_hash'', LText payload_id_hash), (''error_type'', LText (error_type e))]"

text \<open>The \<open>finally\<close> block of the route.\<close>

definition request_effects :: "log_level \<Rightarrow> str \<Rightarrow> str \<Rightarrow> str \<Rightarrow> effect list" where
  "request_effects lv payload_id_hash direction payload =
     [Observe (REQUEST_LATENCY direction) None, Inc (TOKENS_PROCESSED direction) (approx_token_count payload)] @
     log_call lv InfoLevel ''process_request''
       [(''payload_id_hash'', LText payload_id_hash), (''direction'', LText direction),
        (''request_size'', LInt (int (length payload))), (''estimated_tokens'', LInt (int (approx_token_count payload))),
        (''latency_ms'', LDuration)]"

text \<open>All effects of the route after the service answered, or raised.\<close>

definition success_effects :: "log_level \<Rightarrow> str \<Rightarrow> process_direction \<Rightarrow> str \<Rightarrow> effect list" where
  "success_effects lv payload_id_hash direction payload =
     Inc (REQUEST_COUNT (direction_value direction) (asc ''success'')) 1 #
     request_effects lv payload_id_hash (direction_value direction) payload"

definition failure_effects :: "log_level \<Rightarrow> str \<Rightarrow> exn \<Rightarrow> str \<Rightarrow> effect list" where
  "failure_effects lv payload_id_hash e payload =
     Inc (REQUEST_COUNT (asc ''unknown'') (asc ''error'')) 1 # error_effects lv payload_id_hash e @
     request_effects lv payload_id_hash (asc ''unknown'') payload"

definition payload_id_hash :: "hashes \<Rightarrow> str \<Rightarrow> str" where
  "payload_id_hash H payload_id = take 16 (h_sha256_hex H payload_id)"

definition process_route_t ::
  "telemetry \<Rightarrow> 's traced process_service \<Rightarrow> clock \<Rightarrow> str \<Rightarrow> str \<Rightarrow> 's traced \<Rightarrow> response \<times> 's traced" where
  "process_route_t T sv clk payload payload_id w =
     (if payload_id = [] then (Unprocessable, w)
      else
        (let h = payload_id_hash (sv_hashes sv) payload_id in
         case process_t sv clk payload payload_id None w of
           (Inr oc, w1) \<Rightarrow> (Result (oc_result oc), emit (success_effects (tl_level T) h (oc_direction oc) payload) w1)
         | (Inl Diverges, w1) \<Rightarrow> (Hangs, w1)
         | (Inl e, w1) \<Rightarrow> (Failed (map_process_error e), emit (failure_effects (tl_level T) h e payload) w1)))"

definition set_load_state_metric :: "load_state \<Rightarrow> effect list" where
  "set_load_state_metric state =
     map (\<lambda>s. SetGauge (LOAD_STATE s) (if s = state then 1 else 0))
       [NORMAL, CACHE_DEGRADED, STORAGE_DEGRADED, OVERLOADED, CRITICAL]"

text \<open>The effects of a refusal by the gate, and of the \<open>finally\<close> block after an admitted request.\<close>

definition rejection_effects :: "rejection \<Rightarrow> effect list" where
  "rejection_effects rj =
     [Inc (ADMISSION_REJECTED (rj_reason rj)) 1, Observe RETRY_AFTER (Some (rj_retry_after rj))] @
     set_load_state_metric (rj_load_state rj) @ [Inc (REQUEST_COUNT (asc ''rejected'') (asc ''429'')) 1]"

definition leave_effects :: "env \<Rightarrow> env \<Rightarrow> ticket \<Rightarrow> time \<times> controller \<Rightarrow> effect list" where
  "leave_effects ev ev' t = (\<lambda>(last_refresh, c).
     if ev_now ev' - last_refresh \<ge> GAUGE_REFRESH_SECONDS
     then (let snap = fst (snapshot ev' (release ev t c)) in
           [SetGauge IN_FLIGHT (of_int (as_in_flight snap)), SetGauge BACKLOG_WORK (of_int (as_outstanding_work snap))] @
           set_load_state_metric (as_state snap))
     else [])"

definition serve_process_t ::
  "telemetry \<Rightarrow> env \<Rightarrow> env \<Rightarrow> env \<Rightarrow> int \<Rightarrow> int option \<Rightarrow> time \<times> controller \<Rightarrow> 's traced process_service \<Rightarrow> clock \<Rightarrow> str \<Rightarrow> str
   \<Rightarrow> 's traced \<Rightarrow> response \<times> (time \<times> controller) \<times> 's traced" where
  "serve_process_t T ev ev' ev'' max_bytes content_length mw sv clk payload payload_id w =
     (let (last_refresh, c) = mw in
      case gate ev max_bytes \<lparr>hs_is_http = True, hs_path = asc ''/process'', hs_content_length = content_length\<rparr> (Some c) of
        (TooLarge, c1) \<Rightarrow> (PayloadTooLarge, (last_refresh, the c1), w)
      | (Rejected rj header, c1) \<Rightarrow> (OverCapacity header, (last_refresh, the c1), emit (rejection_effects rj) w)
      | (PassThrough, c1) \<Rightarrow>
          (case process_route_t T sv clk payload payload_id w of (resp, w') \<Rightarrow> (resp, (last_refresh, the c1), w'))
      | (Admitted t, c1) \<Rightarrow>
          (case process_route_t T sv clk payload payload_id w of
             (Hangs, w') \<Rightarrow> (Hangs, (last_refresh, the c1), w')
           | (resp, w') \<Rightarrow>
               (resp, leave ev' ev'' t (last_refresh, the c1), emit (leave_effects ev' ev'' t (last_refresh, the c1)) w')))"

section \<open>Instrumentation that only watches\<close>

text \<open>
  From \<open>w\<close> to \<open>w'\<close> only effects satisfying \<open>ok\<close> were added; an operation with effects traces a plain
  one if it answers the same, changes the state in the same way, and adds only such effects.
\<close>

definition grows :: "(effect \<Rightarrow> bool) \<Rightarrow> 's traced \<Rightarrow> 's traced \<Rightarrow> bool" where
  "grows ok w w' \<longleftrightarrow> (\<exists>new. snd w' = snd w @ new \<and> list_all ok new)"

definition traces :: "(effect \<Rightarrow> bool) \<Rightarrow> ('s traced \<Rightarrow> 'r \<times> 's traced) \<Rightarrow> ('s \<Rightarrow> 'r \<times> 's) \<Rightarrow> bool" where
  "traces ok f' f \<longleftrightarrow> (\<forall>w. map_prod id fst (f' w) = f (fst w) \<and> grows ok w (snd (f' w)))"

lemma grows_refl [simp, intro]: "grows ok w w"
  by (simp add: grows_def)

lemma grows_trans [trans]: "grows ok w1 w2 \<Longrightarrow> grows ok w2 w3 \<Longrightarrow> grows ok w1 w3"
  by (auto simp: grows_def)

lemma grows_mono: "grows ok w w' \<Longrightarrow> (\<And>e. ok e \<Longrightarrow> ok' e) \<Longrightarrow> grows ok' w w'"
  by (auto simp: grows_def list_all_iff)

lemma emit_fst [simp]: "fst (emit es w) = fst w"
  by (simp add: emit_def)

lemma grows_emit [intro]: "grows ok w w' \<Longrightarrow> list_all ok es \<Longrightarrow> grows ok w (emit es w')"
  by (auto simp: grows_def emit_def)

lemma tracesI:
  "(\<And>w r w'. f' w = (r, w') \<Longrightarrow> f (fst w) = (r, fst w') \<and> grows ok w w') \<Longrightarrow> traces ok f' f"
  unfolding traces_def by (metis eq_fst_iff eq_id_iff map_prod_simp prod.collapse)

lemma tracesD:
  assumes "traces ok f' f" "f' w = (r, w')"
  shows "f (fst w) = (r, fst w')" "grows ok w w'"
proof -
  from assms(1) have "map_prod id fst (f' w) = f (fst w)" "grows ok w (snd (f' w))" unfolding traces_def by blast+
  with assms(2) show "f (fst w) = (r, fst w')" "grows ok w w'" by simp_all
qed

lemma traces_mono: "traces ok f' f \<Longrightarrow> (\<And>e. ok e \<Longrightarrow> ok' e) \<Longrightarrow> traces ok' f' f"
  by (auto simp: traces_def intro: grows_mono)

locale traced_store =
  fixes S' :: "'s traced store_ops" and S :: "'s store_ops" and ok :: "effect \<Rightarrow> bool"
  assumes save_traced: "traces ok (st_save_if_absent S' now pid r ttl) (st_save_if_absent S now pid r ttl)"
    and update_traced: "traces ok (st_update S' now pid r ttl) (st_update S now pid r ttl)"
    and get_traced: "traces ok (st_get S' now pid) (st_get S now pid)"
    and delete_traced: "traces ok (st_delete S' now pid) (st_delete S now pid)"
    and mark_traced: "traces ok (st_mark_demasked S' now pid grace) (st_mark_demasked S now pid grace)"

text \<open>The effects of the resilient store.\<close>

definition circuit_opened :: "str \<Rightarrow> log_entry" where
  "circuit_opened name = \<lparr>le_level = WarningLevel, le_event = asc ''circuit_opened'', le_fields = [(asc ''breaker'', LText name)]\<rparr>"

fun storage_effect :: "telemetry \<Rightarrow> effect \<Rightarrow> bool" where
  "storage_effect T (Inc (STORAGE_ERRORS name) n) = True"
| "storage_effect T (Inc (STORAGE_DEGRADED_EVENTS kind) n) = True"
| "storage_effect T (Observe (STORAGE_LATENCY name op) d) = True"
| "storage_effect T (Log e) \<longleftrightarrow> e = circuit_opened (tl_auth_name T) \<or> e = circuit_opened (tl_cache_name T)"
| "storage_effect T _ = False"

lemma allowed_key:
  "asc ''breaker'' \<notin> set FORBIDDEN_KEYS" "asc ''payload_id_hash'' \<notin> set FORBIDDEN_KEYS" "asc ''direction'' \<notin> set FORBIDDEN_KEYS"
  "asc ''request_size'' \<notin> set FORBIDDEN_KEYS" "asc ''estimated_tokens'' \<notin> set FORBIDDEN_KEYS" "asc ''latency_ms'' \<notin> set FORBIDDEN_KEYS"
  "asc ''error_type'' \<notin> set FORBIDDEN_KEYS"
  by code_simp+

lemma failure_log_effects: "name \<in> {tl_auth_name T, tl_cache_name T} \<Longrightarrow> list_all (storage_effect T) (failure_log T name b)"
  by (auto simp: failure_log_def log_call_def drop_forbidden_fields_def circuit_opened_def allowed_key)

lemma auth_call_traced: "traces (storage_effect T) (auth_call_t T op now fn) (auth_call now fn)"
proof (rule tracesI)
  fix w r w'
  assume "auth_call_t T op now fn w = (r, w')"
  then show "auth_call now fn (fst w) = (r, fst w') \<and> grows (storage_effect T) w w'"
    using failure_log_effects [of "tl_auth_name T" T]
    by (cases w) (auto simp: auth_call_t_def auth_call_def grows_def Let_def split: if_splits prod.splits sum.splits)
qed

lemma cache_call_traced: "traces (storage_effect T) (cache_call_t T op cfg now fn) (cache_call cfg now fn)"
proof (rule tracesI)
  fix w r w'
  assume "cache_call_t T op cfg now fn w = (r, w')"
  then show "cache_call cfg now fn (fst w) = (r, fst w') \<and> grows (storage_effect T) w w'"
    using failure_log_effects [of "tl_cache_name T" T]
    by (cases w) (auto simp: cache_call_t_def cache_call_def grows_def Let_def split: if_splits prod.splits sum.splits option.splits)
qed

text \<open>The operations of the resilient store are built from these calls.\<close>

lemmas call_traced = tracesD [OF auth_call_traced] tracesD [OF cache_call_traced]

lemma cache_call_snd:
  "fst (snd (cache_call_t T op cfg now fn w)) = snd (cache_call cfg now fn (fst w))"
  "grows (storage_effect T) w' w \<Longrightarrow> grows (storage_effect T) w' (snd (cache_call_t T op cfg now fn w))"
proof -
  obtain r w1 where c: "cache_call_t T op cfg now fn w = (r, w1)" by (rule prod.exhaust)
  from call_traced(3,4) [OF c] show "fst (snd (cache_call_t T op cfg now fn w)) = snd (cache_call cfg now fn (fst w))"
    "grows (storage_effect T) w' w \<Longrightarrow> grows (storage_effect T) w' (snd (cache_call_t T op cfg now fn w))"
    by (simp_all add: c) (rule grows_trans)
qed

lemma rs_save_traced:
  "traces (storage_effect T) (rs_save_if_absent_t T cfg now pid r ttl) (rs_save_if_absent cfg now pid r ttl)"
  by (rule tracesI)
    (auto simp: rs_save_if_absent_t_def rs_save_if_absent_def cache_call_snd
      dest: call_traced split: prod.splits sum.splits if_splits)

lemma rs_update_traced: "traces (storage_effect T) (rs_update_t T cfg now pid r ttl) (rs_update cfg now pid r ttl)"
  by (rule tracesI)
    (auto simp: rs_update_t_def rs_update_def cache_call_snd dest: call_traced split: prod.splits sum.splits)

lemma rs_delete_traced: "traces (storage_effect T) (rs_delete_t T cfg now pid) (rs_delete cfg now pid)"
proof (rule tracesI)
  fix w r w'
  assume "rs_delete_t T cfg now pid w = (r, w')"
  from call_traced(1,2) [OF this [unfolded rs_delete_t_def]]
  show "rs_delete cfg now pid (fst w) = (r, fst w') \<and> grows (storage_effect T) w w'"
    by (auto simp: rs_delete_def cache_call_snd intro: grows_trans [OF cache_call_snd(2) [OF grows_refl]])
qed

lemma rs_get_traced: "traces (storage_effect T) (rs_get_t T cfg now pid) (rs_get cfg now pid)"
proof (rule tracesI)
  fix w r w'
  assume g: "rs_get_t T cfg now pid w = (r, w')"
  obtain cached w1 where c: "cache_call_t T ''get'' cfg now (\<lambda>C. st_get C now pid) w = (cached, w1)" by (rule prod.exhaust)
  obtain a w2 where a: "auth_call_t T ''get'' now (st_get (rf_auth cfg) now pid) w1 = (a, w2)" by (rule prod.exhaust)
  note calls = call_traced(3,4) [OF c] call_traced(1,2) [OF a]
  from calls(2,4) have w2: "grows (storage_effect T) w w2" by (rule grows_trans)
  show "rs_get cfg now pid (fst w) = (r, fst w') \<and> grows (storage_effect T) w w'"
    using g calls(1-3) w2
    by (auto simp: rs_get_t_def rs_get_def c a cache_call_snd split: option.splits sum.splits if_splits)
qed

lemma rs_mark_traced: "traces (storage_effect T) (rs_mark_demasked_t T cfg now pid grace) (rs_mark_demasked cfg now pid grace)"
proof (rule tracesI)
  fix w r w'
  assume g: "rs_mark_demasked_t T cfg now pid grace w = (r, w')"
  obtain a w0 where a: "auth_call_t T ''mark_demasked'' now (st_mark_demasked (rf_auth cfg) now pid grace) w = (a, w0)"
    by (rule prod.exhaust)
  define w1 where "w1 = (case a of Inl e \<Rightarrow> emit [Inc (STORAGE_DEGRADED_EVENTS (asc ''grace_transition_not_durable'')) 1] w0 | Inr _ \<Rightarrow> w0)"
  have w1: "fst w1 = fst w0" "grows (storage_effect T) w w1"
    using call_traced(2) [OF a] by (auto simp: w1_def split: sum.split)
  obtain c w2 where c: "cache_call_t T ''get'' cfg now (\<lambda>C. st_get C now pid) w1 = (c, w2)" by (rule prod.exhaust)
  note calls = call_traced(1) [OF a] call_traced(3,4) [OF c]
  from w1(2) calls(3) have w2: "grows (storage_effect T) w w2" by (rule grows_trans)
  have "rs_mark_demasked_t T cfg now pid grace w =
      (if rf_cache cfg = None then (Inr (), w1)
       else case c of Some (Some cached) \<Rightarrow>
           (Inr (), snd (cache_call_t T ''update'' cfg now (\<lambda>C. st_update C now pid (to_grace now cached) grace) w2))
         | _ \<Rightarrow> (Inr (), w2))"
    by (simp add: rs_mark_demasked_t_def a c w1_def [symmetric] Let_def split: sum.split)
  with g calls w1 w2 show "rs_mark_demasked cfg now pid grace (fst w) = (r, fst w') \<and> grows (storage_effect T) w w'"
    by (auto simp: rs_mark_demasked_def Let_def cache_call_snd split: option.splits if_splits)
qed

interpretation resilient_traced: traced_store "resilient_store_t T cfg" "resilient_store cfg" "storage_effect T" for T cfg
  by unfold_locales
    (simp_all add: resilient_store_t_def resilient_store_def rs_save_traced rs_update_traced rs_get_traced rs_delete_traced rs_mark_traced)

section \<open>Whole requests\<close>

fun service_effect :: "effect \<Rightarrow> bool" where
  "service_effect (Inc (STORAGE_DEGRADED_EVENTS kind) n) = True"
| "service_effect (Inc ENTITIES_DETECTED n) = True"
| "service_effect (Inc ENTITIES_MASKED n) = True"
| "service_effect (Observe (REDIS_LATENCY op) d) = True"
| "service_effect _ = False"

locale traced_service = traced_store S' S ok
  for S' :: "'s traced store_ops" and S :: "'s store_ops" and ok :: "effect \<Rightarrow> bool" +
  fixes sv' :: "'s traced process_service" and sv :: "'s process_service"
  assumes stores: "sv_store sv' = S'" "sv_store sv = S"
    and fields: "sv_pipeline sv' = sv_pipeline sv" "sv_demask sv' = sv_demask sv" "sv_consumers sv' = sv_consumers sv"
      "sv_ttl sv' = sv_ttl sv" "sv_grace sv' = sv_grace sv" "sv_secret sv' = sv_secret sv" "sv_hashes sv' = sv_hashes sv"
      "sv_ucd sv' = sv_ucd sv"
begin

abbreviation allowed :: "effect \<Rightarrow> bool" where
  "allowed e \<equiv> ok e \<or> service_effect e"

lemma timed_get_traced: "traces allowed (timed_get S' now pid) (st_get S now pid)"
proof (rule tracesI)
  fix w r w'
  assume "timed_get S' now pid w = (r, w')"
  then obtain w1 where w1: "st_get S' now pid w = (r, w1)" "w' = emit [Observe (REDIS_LATENCY (asc ''get'')) None] w1"
    by (auto simp: timed_get_def split: prod.splits)
  with tracesD [OF get_traced w1(1)] show "st_get S now pid (fst w) = (r, fst w') \<and> grows allowed w w'"
    by (auto intro: grows_mono)
qed

lemma timed_save_traced: "traces allowed (timed_save_if_absent S' now pid rec ttl) (st_save_if_absent S now pid rec ttl)"
proof (rule tracesI)
  fix w r w'
  assume "timed_save_if_absent S' now pid rec ttl w = (r, w')"
  then obtain w1 where w1: "st_save_if_absent S' now pid rec ttl w = (r, w1)"
    "w' = emit [Observe (REDIS_LATENCY (asc ''save_if_absent'')) None] w1"
    by (auto simp: timed_save_if_absent_def split: prod.splits)
  with tracesD [OF save_traced w1(1)] show "st_save_if_absent S now pid rec ttl (fst w) = (r, fst w') \<and> grows allowed w w'"
    by (auto intro: grows_mono)
qed

lemma answers_same:
  "answer_without_storage sv' = answer_without_storage sv" "answer_from_record sv' = answer_from_record sv"
  by (intro ext; simp add: answer_without_storage_def answer_from_record_def fields Let_def split: sum.split)+

lemma grace_traced:
  "fst (transition_to_grace_t sv' now pid r w) = transition_to_grace sv now pid r (fst w)"
  "grows allowed w (transition_to_grace_t sv' now pid r w)"
proof -
  obtain x w1 where m: "st_mark_demasked S' now pid (sv_grace sv) w = (x, w1)" by (rule prod.exhaust)
  from tracesD [OF mark_traced m] show "fst (transition_to_grace_t sv' now pid r w) = transition_to_grace sv now pid r (fst w)"
    "grows allowed w (transition_to_grace_t sv' now pid r w)"
    by (auto simp: transition_to_grace_t_def transition_to_grace_def stores fields m degraded_event_def
        intro: grows_mono split: sum.split)
qed

lemma first_request_traced:
  "traces allowed (first_request_t sv' clk payload pid c) (first_request sv clk payload pid c)"
proof (rule tracesI)
  fix w r w'
  assume f: "first_request_t sv' clk payload pid c w = (r, w')"
  show "first_request sv clk payload pid c (fst w) = (r, fst w') \<and> grows allowed w w'"
  proof (cases "sv_pipeline sv payload (cc_masking_mode c) c pid")
    case (Inl e)
    with f show ?thesis by (simp add: first_request_t_def first_request_def fields)
  next
    case (Inr tr)
    define rec where "rec = build_record (sv_hashes sv) (at_build clk) tr payload (cc_demask c) (sv_secret sv)"
    obtain x w1 where s: "timed_save_if_absent S' (at_save clk) pid rec (sv_ttl sv) w = (x, w1)" by (rule prod.exhaust)
    obtain y w2 where g: "timed_get S' (at_winner clk) pid (emit [degraded_event ''save_race_lost''] w1) = (y, w2)"
      by (rule prod.exhaust)
    note saved = tracesD [OF timed_save_traced s] and got = tracesD [OF timed_get_traced g]
    have "grows allowed w w2" by (rule grows_trans [OF grows_emit [OF saved(2)] got(2)]) (simp add: degraded_event_def)
    then show ?thesis
      using f Inr s g saved got(1)
      by (auto simp: first_request_t_def first_request_def fields stores rec_def [symmetric] degraded_event_def Let_def
          split: sum.splits exn.splits bool.splits if_splits)
  qed
qed

lemma process_traced: "traces allowed (process_t sv' clk payload pid cid) (process sv clk payload pid cid)"
proof (rule tracesI)
  fix w r w'
  assume p: "process_t sv' clk payload pid cid w = (r, w')"
  obtain x w1 where g: "timed_get S' (at_get clk) pid w = (x, w1)" by (rule prod.exhaust)
  note got = tracesD [OF timed_get_traced g]
  note first = tracesD [OF first_request_traced, of clk payload pid _ w1]
  show "process sv clk payload pid cid (fst w) = (r, fst w') \<and> grows allowed w w'"
    using p got grace_traced [where w = w1 and pid = pid]
    by (auto simp: process_t_def process_def fields stores g answers_same answer_without_storage_t_def degraded_event_def
        dest: first intro: grows_trans [OF got(2)] split: option.splits sum.splits exn.splits prod.splits if_splits)
qed

end

context traced_service
begin

lemma route_traced:
  assumes "process_route_t T sv' clk payload pid w = (r, w')"
  shows "process_route sv clk payload pid (fst w) = (r, fst w')"
proof -
  obtain x w1 where p: "process_t sv' clk payload pid None w = (x, w1)" by (rule prod.exhaust)
  from assms tracesD(1) [OF process_traced p] show ?thesis
    by (auto simp: process_route_t_def process_route_def p Let_def split: if_splits sum.splits exn.splits)
qed

lemma route_cases:
  assumes "process_route_t T sv' clk payload pid w = (r, w')"
  obtains (unprocessable) "r = Unprocessable" "w' = w"
    | (answered) oc :: process_outcome and w1 where "r = Result (oc_result oc)" "grows allowed w w1"
        "w' = emit (success_effects (tl_level T) (payload_id_hash (sv_hashes sv) pid) (oc_direction oc) payload) w1"
    | (hangs) "r = Hangs" "grows allowed w w'"
    | (failed) e w1 where "r = Failed (map_process_error e)" "grows allowed w w1"
        "w' = emit (failure_effects (tl_level T) (payload_id_hash (sv_hashes sv) pid) e payload) w1"
proof (cases "pid = []")
  case True
  with assms that(1) show thesis by (simp add: process_route_t_def)
next
  case False
  obtain x w1 where p: "process_t sv' clk payload pid None w = (x, w1)" by (rule prod.exhaust)
  note w1 = tracesD(2) [OF process_traced p]
  show thesis
  proof (cases x)
    case (Inr oc)
    with False assms p have "r = Result (oc_result oc)"
      "w' = emit (success_effects (tl_level T) (payload_id_hash (sv_hashes sv) pid) (oc_direction oc) payload) w1"
      by (simp_all add: process_route_t_def fields)
    from that(2) [OF this(1) w1 this(2)] show thesis .
  next
    case (Inl e)
    with False assms p have "r = Hangs \<and> w' = w1 \<or> r = Failed (map_process_error e) \<and>
        w' = emit (failure_effects (tl_level T) (payload_id_hash (sv_hashes sv) pid) e payload) w1"
      by (auto simp: process_route_t_def fields Let_def split: exn.splits)
    with w1 that(3,4) show thesis by blast
  qed
qed

lemma serve_traced:
  assumes "serve_process_t T ev ev' ev'' max_bytes content_length mw sv' clk payload pid w = (resp, mw', w')"
  shows "serve_process ev ev' ev'' max_bytes content_length mw sv clk payload pid (fst w) = (resp, mw', fst w')"
proof -
  obtain last_refresh c where mw: "mw = (last_refresh, c)" by (rule prod.exhaust)
  obtain r w1 where p: "process_route_t T sv' clk payload pid w = (r, w1)" by (rule prod.exhaust)
  from assms route_traced [OF p] show ?thesis
    by (auto simp: serve_process_t_def serve_process_def mw p split: prod.splits gate_result.splits response.splits)
qed

text \<open>A request adds the effects of its route, and those of the gate.\<close>

lemma serve_cases:
  assumes "serve_process_t T ev ev' ev'' max_bytes content_length mw sv' clk payload pid w = (resp, mw', w')"
  obtains (too_large) "resp = PayloadTooLarge" "w' = w"
    | (refused) rj h where "resp = OverCapacity h" "w' = emit (rejection_effects rj) w"
    | (served) w1 es where "process_route_t T sv' clk payload pid w = (resp, w1)" "w' = emit es w1"
        "es = [] \<or> (\<exists>t lc. es = leave_effects ev' ev'' t lc)"
proof -
  obtain last_refresh c where mw: "mw = (last_refresh, c)" by (rule prod.exhaust)
  obtain gr c1 where g: "gate ev max_bytes \<lparr>hs_is_http = True, hs_path = asc ''/process'', hs_content_length = content_length\<rparr> (Some c) = (gr, c1)"
    by (rule prod.exhaust)
  obtain r w1 where p: "process_route_t T sv' clk payload pid w = (r, w1)" by (rule prod.exhaust)
  have e: "w1 = emit [] w1" by (simp add: emit_def)
  show thesis
  proof (cases gr)
    case (Admitted t)
    with assms have "resp = r \<and> (w' = w1 \<or> w' = emit (leave_effects ev' ev'' t (last_refresh, the c1)) w1)"
      by (auto simp: serve_process_t_def mw g p split: response.splits)
    with p e that(3) show thesis by blast
  next
    case PassThrough
    with assms have "resp = r" "w' = w1" by (simp_all add: serve_process_t_def mw g p)
    with p e that(3) show thesis by blast
  next
    case TooLarge
    with assms that(1) show thesis by (simp add: serve_process_t_def mw g)
  next
    case (Rejected rj h)
    with assms have "resp = OverCapacity h" "w' = emit (rejection_effects rj) w" by (simp_all add: serve_process_t_def mw g)
    with that(2) show thesis by blast
  qed
qed

lemma serve_grows:
  assumes "serve_process_t T ev ev' ev'' max_bytes content_length mw sv' clk payload pid w = (resp, mw', w')"
    and "\<And>e. allowed e \<Longrightarrow> Q e" "\<And>rj. list_all Q (rejection_effects rj)" "\<And>t lc. list_all Q (leave_effects ev' ev'' t lc)"
    and "\<And>d. list_all Q (success_effects (tl_level T) (payload_id_hash (sv_hashes sv) pid) d payload)"
    and "\<And>e. list_all Q (failure_effects (tl_level T) (payload_id_hash (sv_hashes sv) pid) e payload)"
  shows "grows Q w w'"
  using assms(1)
proof (cases rule: serve_cases)
  case too_large
  then show ?thesis by simp
next
  case (refused rj h)
  then show ?thesis using assms(3) by (simp add: grows_emit)
next
  case (served w1 es)
  have weaken: "grows Q w w2" if "grows allowed w w2" for w2 by (rule grows_mono [OF that assms(2)])
  from served(1) have "grows Q w w1"
    by (cases rule: route_cases) (use assms(5,6) weaken in \<open>auto intro!: grows_emit\<close>)
  then show ?thesis using served(2,3) assms(4) by (auto intro!: grows_emit)
qed

end

interpretation app_traced: traced_service "resilient_store_t T cfg" "resilient_store cfg" "storage_effect T"
  "app_service P st reg (resilient_store_t T cfg)" "app_service P st reg (resilient_store cfg)" for T cfg P st reg
  by unfold_locales (simp_all add: app_service_def)

section \<open>What the effects tell\<close>

text \<open>The values a log entry about a request may carry.\<close>

definition safe_value :: "telemetry \<Rightarrow> str \<Rightarrow> str \<Rightarrow> log_value \<Rightarrow> bool" where
  "safe_value T id_hash payload v \<longleftrightarrow>
     v \<in> {LText id_hash, LInt (int (length payload)), LInt (int (approx_token_count payload)), LDuration} \<or>
     v \<in> LText ` ({tl_auth_name T, tl_cache_name T, asc ''unknown''} \<union> range direction_value \<union> range error_type)"

fun safe_effect :: "telemetry \<Rightarrow> str \<Rightarrow> str \<Rightarrow> effect \<Rightarrow> bool" where
  "safe_effect T id_hash payload (Log e) \<longleftrightarrow>
     drop_forbidden_fields e = e \<and> (\<forall>kv \<in> set (le_fields e). safe_value T id_hash payload (snd kv))"
| "safe_effect T id_hash payload _ \<longleftrightarrow> True"

lemma log_call_safe:
  assumes "\<forall>(k, v) \<in> set kvs. asc k \<notin> set FORBIDDEN_KEYS \<and> safe_value T id_hash payload v"
  shows "list_all (safe_effect T id_hash payload) (log_call lv level event kvs)"
proof -
  have "filter (\<lambda>(k, _). k \<notin> set FORBIDDEN_KEYS) (map (\<lambda>(k, v). (asc k, v)) kvs) = map (\<lambda>(k, v). (asc k, v)) kvs"
    using assms by (auto intro!: filter_True)
  with assms show ?thesis by (auto simp: log_call_def drop_forbidden_fields_def)
qed

lemma storage_effect_safe: "storage_effect T e \<Longrightarrow> safe_effect T id_hash payload e"
  by (cases "(T, e)" rule: storage_effect.cases)
    (auto simp: circuit_opened_def drop_forbidden_fields_def allowed_key safe_value_def)

lemma service_effect_safe: "service_effect e \<Longrightarrow> safe_effect T id_hash payload e"
  by (cases e rule: service_effect.cases) simp_all

lemma gauges_safe: "list_all (safe_effect T id_hash payload) (set_load_state_metric st)"
  by (simp add: set_load_state_metric_def)

lemma rejection_safe: "list_all (safe_effect T id_hash payload) (rejection_effects rj)"
  by (simp add: rejection_effects_def gauges_safe)

lemma leave_safe: "list_all (safe_effect T id_hash payload) (leave_effects ev ev' t lc)"
  by (cases lc) (simp add: leave_effects_def gauges_safe Let_def)

lemma request_safe:
  "LText d \<in> LText ` ({asc ''unknown''} \<union> range direction_value) \<Longrightarrow>
   list_all (safe_effect T id_hash payload) (request_effects lv id_hash d payload)"
  by (auto simp: request_effects_def allowed_key safe_value_def intro!: log_call_safe)

lemma success_safe: "list_all (safe_effect T id_hash payload) (success_effects lv id_hash d payload)"
  by (auto simp: success_effects_def intro!: request_safe)

lemma safe_names: "safe_value T id_hash payload (LText id_hash)" "safe_value T id_hash payload (LText (error_type e))"
  by (simp_all add: safe_value_def)

lemma error_safe: "list_all (safe_effect T id_hash payload) (error_effects lv id_hash e)"
  by (cases e rule: error_type.cases; use safe_names [of T id_hash payload] safe_names(2) [of T id_hash payload e] in
      \<open>auto simp: allowed_key intro!: log_call_safe\<close>)

lemma failure_safe: "list_all (safe_effect T id_hash payload) (failure_effects lv id_hash e payload)"
  by (auto simp: failure_effects_def error_safe intro!: request_safe)

text \<open>How much a group of counters was increased.\<close>

fun increase :: "(counter \<Rightarrow> bool) \<Rightarrow> effect \<Rightarrow> nat" where
  "increase sel (Inc c n) = (if sel c then n else 0)"
| "increase sel _ = 0"

definition total_inc :: "(counter \<Rightarrow> bool) \<Rightarrow> effect list \<Rightarrow> nat" where
  "total_inc sel es = sum_list (map (increase sel) es)"

fun is_request_count :: "counter \<Rightarrow> bool" where
  "is_request_count (REQUEST_COUNT d oc) = True"
| "is_request_count _ = False"

fun is_error_count :: "counter \<Rightarrow> bool" where
  "is_error_count (ERRORS category) = True"
| "is_error_count _ = False"

fun is_token_count :: "counter \<Rightarrow> bool" where
  "is_token_count (TOKENS_PROCESSED d) = True"
| "is_token_count _ = False"

definition route_counter :: "counter \<Rightarrow> bool" where
  "route_counter c \<longleftrightarrow> is_request_count c \<or> is_error_count c \<or> is_token_count c"

lemma total_inc_simps [simp]:
  "total_inc sel [] = 0" "total_inc sel (e # es) = increase sel e + total_inc sel es"
  "total_inc sel (es @ es') = total_inc sel es + total_inc sel es'"
  by (simp_all add: total_inc_def)

lemma total_inc_log_call [simp]: "total_inc sel (log_call lv level event kvs) = 0"
  by (simp add: log_call_def)

lemma allowed_uncounted:
  "storage_effect T e \<or> service_effect e \<Longrightarrow> (\<And>c. \<not> route_counter c \<Longrightarrow> \<not> sel c) \<Longrightarrow> increase sel e = 0"
  by (cases "(T, e)" rule: storage_effect.cases; cases e rule: service_effect.cases) (auto simp: route_counter_def)

lemma allowed_total:
  assumes "grows (\<lambda>e. storage_effect T e \<or> service_effect e) w w'"
  obtains new where "snd w' = snd w @ new" "total_inc is_request_count new = 0" "total_inc is_error_count new = 0"
    "total_inc is_token_count new = 0"
proof -
  from assms obtain new where new: "snd w' = snd w @ new" "list_all (\<lambda>e. storage_effect T e \<or> service_effect e) new"
    by (auto simp: grows_def)
  have zero: "total_inc sel new = 0" if "\<And>c. \<not> route_counter c \<Longrightarrow> \<not> sel c" for sel
    using new(2) allowed_uncounted [of T _ sel, OF _ that] by (induction new) auto
  show thesis by (rule that [OF new(1)]; rule zero) (simp_all add: route_counter_def)
qed

lemma counted:
  "total_inc is_request_count (success_effects lv h d payload) = 1" "total_inc is_error_count (success_effects lv h d payload) = 0"
  "total_inc is_token_count (success_effects lv h d payload) = approx_token_count payload"
  "total_inc is_request_count (failure_effects lv h e payload) = 1" "total_inc is_error_count (failure_effects lv h e payload) = 1"
  "total_inc is_token_count (failure_effects lv h e payload) = approx_token_count payload"
  by (simp_all add: success_effects_def failure_effects_def request_effects_def) (cases e rule: error_type.cases; simp)+

lemma gauges_uncounted [simp]: "total_inc sel (set_load_state_metric st) = 0"
  by (simp add: set_load_state_metric_def)

lemma leave_uncounted [simp]: "total_inc sel (leave_effects ev ev' t lc) = 0"
  by (cases lc) (simp add: leave_effects_def Let_def)

lemma rejection_counted:
  "total_inc is_request_count (rejection_effects rj) = 1" "total_inc is_error_count (rejection_effects rj) = 0"
  "total_inc is_token_count (rejection_effects rj) = 0"
  by (simp_all add: rejection_effects_def)

definition sample_telemetry :: telemetry where
  "sample_telemetry = \<lparr>tl_level = InfoLevel, tl_auth_name = asc ''memory'', tl_cache_name = asc ''redis''\<rparr>"

abbreviation sample_traced :: "(memory, unit) resilient_state traced process_service" where
  "sample_traced \<equiv> sample_service (resilient_store_t sample_telemetry (single_tier memory_store 600))"

abbreviation sample_serve_t ::
  "(memory, unit) resilient_state traced \<Rightarrow> response \<times> (time \<times> controller) \<times> (memory, unit) resilient_state traced" where
  "sample_serve_t \<equiv> serve_process_t sample_telemetry (calm 2) (calm 3) (calm 3) 3000000 (Some 100) (0, app_admission default_settings)
     sample_traced (sample_clock 2) sample_payload (asc ''p1'')"

lemma safe_text_ascii:
  assumes "safe_value sample_telemetry (payload_id_hash (pf_hashes sample_platform) (asc ''p1'')) payload (LText t)"
  shows "t = [] \<or> hd t < 1000"
proof -
  have "hd (direction_value d) < 1000" for d by (cases d) (simp_all add: asc_def)
  moreover have "error_type e = [] \<or> hd (error_type e) < 1000" for e by (cases e) (simp_all add: asc_def)
  ultimately show ?thesis
    using assms by (auto simp: safe_value_def sample_telemetry_def payload_id_hash_def asc_def)
qed

lemma sample_served_plain:
  obtains ans r c s' where "serve_process (calm 2) (calm 3) (calm 3) 3000000 (Some 100) (0, app_admission default_settings)
    (sample_service (resilient_store (single_tier memory_store 600))) (sample_clock 2) sample_payload (asc ''p1'') (sample_tiers Map.empty ()) =
      (Result ans, (r, c), s')"
proof -
  have i: "guarded_inv (\<lambda>_ _. True) 2 (sample_tiers (Map.empty :: memory) ())"
    "guarded_view mem_view 2 (sample_tiers (Map.empty :: memory) ()) (asc ''p1'') = None"
    by (simp_all add: guarded_inv_def guarded_view_def healthy_def sample_tiers_def new_breaker_def mem_view_def)
  show thesis by (rule sample_served [OF guarded_memory.guarded.record_store_axioms, OF i]) (rule that)
qed

lemma sample_served_traced:
  obtains ans mw' w' where "sample_serve_t (sample_tiers Map.empty (), []) = (Result ans, mw', w')"
proof -
  obtain resp mw' w' where t: "sample_serve_t (sample_tiers Map.empty (), []) = (resp, mw', w')" by (metis prod.exhaust)
  obtain ans r c s' where "serve_process (calm 2) (calm 3) (calm 3) 3000000 (Some 100) (0, app_admission default_settings)
    (sample_service (resilient_store (single_tier memory_store 600))) (sample_clock 2) sample_payload (asc ''p1'') (sample_tiers Map.empty ()) =
      (Result ans, (r, c), s')" by (rule sample_served_plain)
  with app_traced.serve_traced [OF t] have "resp = Result ans" by simp
  with t that show thesis by blast
qed

section \<open>Properties\<close>





text \<open>
  C10. Every request is counted once: the request counters grow by one for an answer, an error or a
  refusal for lack of capacity, and not at all otherwise; the error counters grow by one exactly for
  an error; the token counters grow by the estimate for the payload when the route answered or failed.
\<close>

theorem requests_counted_once:
  assumes "serve_process_t T ev ev' ev'' max_bytes content_length mw (app_service P st reg (resilient_store_t T cfg)) clk payload pid w =
     (resp, mw', w')"
  shows "\<exists>new. snd w' = snd w @ new \<and>
    total_inc is_request_count new = (case resp of Result _ \<Rightarrow> 1 | Failed _ \<Rightarrow> 1 | OverCapacity _ \<Rightarrow> 1 | _ \<Rightarrow> 0) \<and>
    total_inc is_error_count new = (case resp of Failed _ \<Rightarrow> 1 | _ \<Rightarrow> 0) \<and>
    total_inc is_token_count new = (case resp of Result _ \<Rightarrow> approx_token_count payload | Failed _ \<Rightarrow> approx_token_count payload | _ \<Rightarrow> 0)"
  using assms
proof (cases rule: app_traced.serve_cases)
  case too_large
  then show ?thesis by simp
next
  case (refused rj h)
  then show ?thesis by (simp add: emit_def rejection_counted)
next
  case (served w1 es)
  have es: "total_inc sel es = 0" for sel using served(3) by auto
  from served(1) show ?thesis
  proof (cases rule: app_traced.route_cases)
    case unprocessable
    with served(2) es show ?thesis by (simp add: emit_def)
  next
    case (answered oc w2)
    from answered(2) show ?thesis by (rule allowed_total) (use answered served(2) es in \<open>auto simp: emit_def counted\<close>)
  next
    case hangs
    from hangs(2) show ?thesis by (rule allowed_total) (use hangs served(2) es in \<open>auto simp: emit_def\<close>)
  next
    case (failed e w2)
    from failed(2) show ?thesis by (rule allowed_total) (use failed served(2) es in \<open>auto simp: emit_def counted\<close>)
  qed
qed

lemma requests_counted_once_witness:
  "\<exists>ans mw' s' tr. sample_serve_t (sample_tiers Map.empty (), []) = (Result ans, mw', (s', tr)) \<and>
     total_inc is_request_count tr = 1 \<and> total_inc is_error_count tr = 0 \<and> total_inc is_token_count tr = 4"
proof -
  obtain ans mw' w' where t: "sample_serve_t (sample_tiers Map.empty (), []) = (Result ans, mw', w')" by (rule sample_served_traced)
  have "approx_token_count sample_payload = 4" by code_simp
  with requests_counted_once [OF t] t show ?thesis by (cases w') auto
qed

end
