(* ===== verification/Spec2Isabelle.thy ===== *)
theory Spec2Isabelle
  imports Telemetry
begin

text \<open>
  \<^bold>\<open>The PII security proxy.\<close> The program stands between a client and a language model. A first request
  with a payload is answered with the payload in which personal data is masked; a later request under
  the same \<open>payload_id\<close> with the model's answer is answered with the masks turned back. This
  development models the Python service under \<^verbatim>\<open>src/app\<close> and proves that it does this.

  \<^bold>\<open>Parts and theories,\<close> from the bottom up (files are relative to \<^verbatim>\<open>src/app\<close>):

  \<^item> \<open>Py_Prelude\<close>: Python strings as lists of code points, slices, substring search, dictionaries, and
    the Unicode tables as a parameter (\<open>ucd\<close>, with the locale \<open>unicode_db\<close> for what is relied on and
    \<open>ucd_ru\<close> as an instance). \<open>Russian\<close>: Cyrillic literals written in Latin letters. \<open>Regex\<close>: the
    part of the \<^verbatim>\<open>re\<close> module the sources use, as a backtracking matcher.
  \<^item> \<open>Models\<close>: \<^verbatim>\<open>core/enums.py\<close>, \<^verbatim>\<open>core/models.py\<close>, \<^verbatim>\<open>core/errors.py\<close>. Exceptions are the datatype \<open>exn\<close>;
    \<open>Diverges\<close> stands for a call that does not return.
  \<^item> Detection. \<open>Checksums\<close>, \<open>Detectors\<close> and \<open>Fio\<close>: the detectors of \<^verbatim>\<open>detectors/\<close>, each an interpretation
    of the locale \<open>detector\<close> (candidates are non-empty spans of the text and carry its value).
    \<open>Overlap\<close>: \<^verbatim>\<open>context/overlap.py\<close>, an interpretation of \<open>span_selection\<close>, as is the span choice of the
    demasker. \<open>Context\<close>: the keyword rules and the decisions of \<^verbatim>\<open>context/rules.py\<close> and
    \<^verbatim>\<open>context/engine.py\<close>. \<open>Policy\<close>: \<^verbatim>\<open>policies/\<close> and \<^verbatim>\<open>config/consumers.py\<close>.
  \<^item> Replacement. \<open>Naming\<close>, \<open>Resolver\<close>, \<open>Identity\<close>: which mentions are one entity
    (\<^verbatim>\<open>entity_resolution/\<close>, \<^verbatim>\<open>replacement/identity.py\<close>). \<open>Tokens\<close>, \<open>Partial\<close>, \<open>Morphology\<close>, \<open>Synthetic\<close>:
    what an entity is replaced with. \<open>Splice\<close> and \<open>Engine\<close>: the transform of \<^verbatim>\<open>replacement/engine.py\<close>.
    \<open>Demasker\<close>: \<^verbatim>\<open>demasking/demasker.py\<close>. \<open>Pipeline\<close>: the registry and \<^verbatim>\<open>core/pipeline.py\<close>.
  \<^item> Storage. \<open>Store\<close>: the store interface, its contract (\<open>record_store\<close>, extended by \<open>mapping_store\<close> for
    stores whose grace transition acts at once) and the in-memory store. \<open>Breaker\<close> and \<open>Resilient\<close>:
    \<^verbatim>\<open>storage/resilient_store.py\<close>, with locales that lift the contract from the backends to the
    guarded store. \<open>Backends\<close>: the Redis and Mongo stores over clients that are parameters.
  \<^item> The service. \<open>Service\<close>: \<^verbatim>\<open>core/process_service.py\<close> with explicit store state and explicit instants
    of time; the locale \<open>service\<close> proves its behaviour over any store with the contract and any
    pipeline whose results are faithful. \<open>Interleaving\<close>: concurrent requests as a step relation.
    \<open>Admission\<close>: \<^verbatim>\<open>admission/\<close>. \<open>App\<close>: settings, assembly (\<^verbatim>\<open>main.py\<close>) and the routes (\<^verbatim>\<open>api/\<close>); here the
    locale is interpreted on the assembled service over the in-memory store, over Redis, and over
    Mongo with a Redis cache.
  \<^item> Telemetry. \<open>Telemetry\<close>: \<^verbatim>\<open>metrics/registry.py\<close>, \<^verbatim>\<open>config/logging.py\<close> and their calls along a request.
    Instrumented operations carry the effects so far in their state; the locales \<open>traced_store\<close> and
    \<open>traced_service\<close> relate them to the plain ones.

  \<^bold>\<open>How the parts meet.\<close> \<open>Pipeline.analyze\<close> chains detection, overlap resolution, context and policy. The
  spans it decides to mask form a chain inside the text, which is the precondition under which
  \<open>Splice\<close> shows that the recorded occurrences take the text to the masked text and back; so every
  pipeline run is \<open>faithful\<close>, the law the locale \<open>service\<close> asks for. The store contract is given as a
  view: what a reader at time \<open>t\<close> finds in a state. Together they give the round trip of two requests.

  \<^bold>\<open>What is shown.\<close> Service: round trip, idempotent retries, agreement of racing requests, the grace
  period, failing closed without storage, and the HTTP answers. Pipeline: every candidate is sound, the
  masked spans are exactly those decided, the occurrences undo the masking, and every run returns.
  Components: overlap resolution, exact conditions for masking, privacy-first decisions, partitions and
  unique identifiers of entities, evidence for merging names, surrogates that are distinct and absent
  from the text, valid synthetic numbers, exactness of the INN detector, correctness of token and
  synthetic demasking. Storage: one creator per identifier, refused writes leave no
  trace, reads survive the loss of one tier, and the breaker refines its history. Admission: exact
  accounting and the admission condition. Telemetry: it changes no answer and no state, log entries carry
  nothing of the payload but its size, and every request is counted once. Lemmas outside the list of properties record behaviour that
  differs from the documentation: \<open>backfill_outlives_authority\<close>, \<open>mongo_mark_revives_expired\<close>,
  \<open>redis_authority_not_configured\<close> and \<open>partial_name_not_failed_closed\<close>.

  \<^bold>\<open>Parameters and hypotheses.\<close> Outside the repository, and so arguments of the definitions: the Unicode
  tables, the morphological analyser (a function from words to parses, nothing is assumed of it), the
  first eight bytes of the digests that drive the generator, the fingerprint digests, the Redis client
  with its JSON codec, the Mongo collection, the resident memory, and whether a client accepts a URL.
  Termination of a pipeline run rests on \<open>fair_stream\<close>: rejection sampling meets an acceptable value
  eventually. The round trip asks that the fingerprints of payload and answer do not collide. Clients
  are assumed to do what their documentation says (\<open>redis_server\<close>, \<open>mongo_collection\<close>); both locales have
  instances over maps with expiry.

  \<^bold>\<open>Conventions.\<close> Floating-point numbers (confidences, rates, instants) are rationals. Fuel occurs in two
  places: the repetition of the matcher gets the length of the text left, and each of its iterations
  consumes a character; the sampling loop is a partial function in the option monad, whose \<open>None\<close> becomes
  \<open>Diverges\<close>. Store operations are atomic, by a lock, a single Redis command or a single Mongo command;
  the Mongo insert and its conditional replace are taken as one step.

  \<^bold>\<open>Not modelled.\<close> Values of measured durations, log entries off the request path (start, raising detectors,
  debug entries of the Mongo store), rendering of logs and metrics, the YAML and environment parsing done by libraries,
  \<^verbatim>\<open>api/deps.py\<close> (accessors), the static page, framework calls that mount routes, and the Go
  reimplementation under \<^verbatim>\<open>src/go-service\<close>, which the Python service does not use.
\<close>

end
